(* ===== verification/Mem_Prelude.thy ===== *)
theory Mem_Prelude
  imports "HOL-Library.Word" "HOL-Library.Monad_Syntax"
begin

text \<open>
  What every component shares: the machine integer types of the C code, byte-addressed memory
  with checked accesses, and the little-endian layout of an integer in memory.

  A block of memory is a list of bytes and an address inside it is an offset. A read or a write
  outside the block is \<open>None\<close>, so a function of the model that returns \<open>Some\<close> has made no access
  outside the block. The host is little-endian, as the data layout string of the checked-in
  \<open>A2-B/load-balancer/lb.ll\<close> (\<open>e-m:e-\<close>) says.
\<close>

unbundle bit_operations_syntax

type_synonym u8 = "8 word"
type_synonym u16 = "16 word"
type_synonym u32 = "32 word"
type_synonym u64 = "64 word"
type_synonym bytes = "8 word list"

named_theorems mem_simps \<open>lengths and reads of overwritten memory\<close>

section \<open>Little-endian integers\<close>

primrec le_val :: "bytes \<Rightarrow> nat" where
  "le_val [] = 0"
| "le_val (b # bs) = unat b + 256 * le_val bs"

primrec le_bytes :: "nat \<Rightarrow> nat \<Rightarrow> bytes" where
  "le_bytes 0 v = []"
| "le_bytes (Suc n) v = of_nat v # le_bytes n (v div 256)"

lemma length_le_bytes [simp]: "length (le_bytes n v) = n"
  by (induction n arbitrary: v) auto

lemma unat_of_nat_byte [simp]: "unat (of_nat v :: u8) = v mod 256"
  by (simp add: unat_of_nat)

lemma unat_byte_less: "unat (b :: u8) < 256"
  using unsigned_less [where ?'a = nat and w = b] by simp

lemma unat_byte_div [simp]: "unat (b :: u8) div 256 = 0"
  using unat_byte_less [of b] by simp

lemma unat_byte_mod [simp]: "unat (b :: u8) mod 256 = unat b"
  using unat_byte_less [of b] by simp

lemma le_val_le_bytes: "le_val (le_bytes n v) = v mod 256 ^ n"
proof (induction n arbitrary: v)
  case 0
  then show ?case by simp
next
  case (Suc n)
  have "v mod 256 + 256 * (v div 256 mod 256 ^ n) = v mod (256 * 256 ^ n)"
    by (simp add: mod_mult2_eq)
  with Suc show ?case by simp
qed

lemma le_bytes_2: "le_bytes 2 v = [of_nat v, of_nat (v div 256)]"
  by (simp add: numeral_2_eq_2)

lemma le_bytes_le_val: "le_bytes (length bs) (le_val bs) = bs"
proof (induction bs)
  case Nil
  then show ?case by simp
next
  case (Cons b bs)
  have "(of_nat (unat b + 256 * le_val bs) :: u8) = b"
    by (rule word_unat_eq_iff [THEN iffD2]) (simp only: unat_of_nat_byte mod_mult_self2, simp add: unat_byte_less)
  moreover have "(unat b + 256 * le_val bs) div 256 = le_val bs"
    by simp
  ultimately show ?case using Cons by simp
qed

lemma le_val_bound: "le_val bs < 256 ^ length bs"
proof (induction bs)
  case Nil
  then show ?case by simp
next
  case (Cons b bs)
  have "Suc (le_val bs) \<le> 256 ^ length bs"
    using Cons by simp
  then have "256 * Suc (le_val bs) \<le> 256 * 256 ^ length bs"
    by (rule mult_le_mono2)
  with unat_byte_less [of b] show ?case
    by (simp only: le_val.simps length_Cons power_Suc mult_Suc_right)
qed

lemma le_val_append: "le_val (xs @ ys) = le_val xs + 256 ^ length xs * le_val ys"
  by (induction xs) (auto simp: algebra_simps)

section \<open>Checked memory\<close>

definition ldn :: "bytes \<Rightarrow> nat \<Rightarrow> nat \<Rightarrow> bytes option" where
  "ldn m i n = (if i + n \<le> length m then Some (take n (drop i m)) else None)"

definition stn :: "bytes \<Rightarrow> nat \<Rightarrow> bytes \<Rightarrow> bytes option" where
  "stn m i bs =
     (if i + length bs \<le> length m
      then Some (take i m @ bs @ drop (i + length bs) m) else None)"

definition ld8 :: "bytes \<Rightarrow> nat \<Rightarrow> u8 option" where
  "ld8 m i = (if i < length m then Some (m ! i) else None)"

definition ld16 :: "bytes \<Rightarrow> nat \<Rightarrow> u16 option" where
  "ld16 m i = map_option (\<lambda>bs. of_nat (le_val bs)) (ldn m i 2)"

definition ld32 :: "bytes \<Rightarrow> nat \<Rightarrow> u32 option" where
  "ld32 m i = map_option (\<lambda>bs. of_nat (le_val bs)) (ldn m i 4)"

definition ld64 :: "bytes \<Rightarrow> nat \<Rightarrow> u64 option" where
  "ld64 m i = map_option (\<lambda>bs. of_nat (le_val bs)) (ldn m i 8)"

definition st16 :: "bytes \<Rightarrow> nat \<Rightarrow> u16 \<Rightarrow> bytes option" where
  "st16 m i w = stn m i (le_bytes 2 (unat w))"

definition st32 :: "bytes \<Rightarrow> nat \<Rightarrow> u32 \<Rightarrow> bytes option" where
  "st32 m i w = stn m i (le_bytes 4 (unat w))"

definition st64 :: "bytes \<Rightarrow> nat \<Rightarrow> u64 \<Rightarrow> bytes option" where
  "st64 m i w = stn m i (le_bytes 8 (unat w))"

lemma ldn_Some_iff: "ldn m i n = Some bs \<longleftrightarrow> i + n \<le> length m \<and> bs = take n (drop i m)"
  by (auto simp: ldn_def)

lemma length_ldn: "ldn m i n = Some bs \<Longrightarrow> length bs = n"
  by (auto simp: ldn_Some_iff)

lemma length_stn: "stn m i bs = Some m' \<Longrightarrow> length m' = length m"
  by (auto simp: stn_def split: if_splits)

lemma ldn_stn_same: "stn m i bs = Some m' \<Longrightarrow> length bs = n \<Longrightarrow> ldn m' i n = Some bs"
  by (auto simp: stn_def ldn_def split: if_splits)

lemma ldn_stn_other:
  assumes "stn m i bs = Some m'" "j + n \<le> i \<or> i + length bs \<le> j"
  shows "ldn m' j n = ldn m j n"
proof -
  have m': "m' = take i m @ bs @ drop (i + length bs) m" and le: "i + length bs \<le> length m"
    using assms(1) by (auto simp: stn_def split: if_splits)
  have "take n (drop j m') = take n (drop j m)"
    using assms(2)
  proof
    assume "j + n \<le> i"
    with le show ?thesis by (simp add: m' drop_take)
  next
    assume "i + length bs \<le> j"
    with le show ?thesis by (simp add: m' min_def)
  qed
  moreover have "length m' = length m" using assms(1) by (rule length_stn)
  ultimately show ?thesis by (simp add: ldn_def)
qed

lemma stn_ok: "i + length bs \<le> length m \<Longrightarrow> \<exists>m'. stn m i bs = Some m' \<and> length m' = length m"
  by (auto simp: stn_def)

section \<open>Overwriting a piece of memory\<close>

definition overwrite :: "nat \<Rightarrow> bytes \<Rightarrow> bytes \<Rightarrow> bytes" where
  "overwrite i bs m = take i m @ bs @ drop (i + length bs) m"

lemma stn_overwrite [mem_simps]: "i + length bs \<le> length m \<Longrightarrow> stn m i bs = Some (overwrite i bs m)"
  by (simp add: stn_def overwrite_def)

lemma length_overwrite [mem_simps]: "i + length bs \<le> length m \<Longrightarrow> length (overwrite i bs m) = length m"
  by (simp add: overwrite_def)

lemma ldn_overwrite_same [mem_simps]:
  "i + length bs \<le> length m \<Longrightarrow> n = length bs \<Longrightarrow> ldn (overwrite i bs m) i n = Some bs"
  using ldn_stn_same [OF stn_overwrite] by simp

lemma ldn_overwrite_other [mem_simps]:
  "i + length bs \<le> length m \<Longrightarrow> j + n \<le> i \<or> i + length bs \<le> j \<Longrightarrow> ldn (overwrite i bs m) j n = ldn m j n"
  using ldn_stn_other [OF stn_overwrite] by simp

lemma drop_overwrite [mem_simps]:
  "i + length bs \<le> length m \<Longrightarrow> i + length bs \<le> j \<Longrightarrow> drop j (overwrite i bs m) = drop j m"
  by (simp add: overwrite_def)

lemma ldn_eq_take_drop: "ldn m i n = Some bs \<Longrightarrow> take n (drop i m) = bs"
  by (simp add: ldn_Some_iff)

lemma ldn_in_range: "i + n \<le> length m \<Longrightarrow> ldn m i n = Some (take n (drop i m))"
  by (simp add: ldn_def)

lemma take_drop_overwrite_other [mem_simps]:
  assumes "i + length bs \<le> length m" "j + n \<le> i \<or> i + length bs \<le> j"
  shows "take n (drop j (overwrite i bs m)) = take n (drop j m)"
  using assms(2)
proof
  assume "j + n \<le> i"
  then show ?thesis using assms(1) by (simp add: overwrite_def drop_take)
next
  assume "i + length bs \<le> j"
  then show ?thesis using assms(1) by (simp add: drop_overwrite)
qed

end
