(* ===== verification/Bpf_Kernel.thy ===== *)
theory Bpf_Kernel
  imports Mem_Prelude
begin

text \<open>
  The kernel as the XDP programs see it. The map helpers and \<open>bpf_xdp_adjust_tail\<close> run in the
  kernel, outside this repository: they are parameters of the model, and the locales below say
  what the programs rely on, in the words of \<open>bpf_helper_defs.h\<close> and \<open>uapi/linux/bpf.h\<close>:
  \<open>bpf_map_update_elem\<close> returns 0 on success or a negative error, every element of an array map
  always exists, the number of elements never passes \<open>max_entries\<close> (\<open>E2BIG\<close>), a push on a full
  queue fails unless \<open>BPF_EXIST\<close> is given, and \<open>bpf_xdp_adjust_tail\<close> moves the end of the packet by
  \<open>delta\<close> bytes. What a map holds is a partial function from keys to values, so
  \<open>bpf_map_lookup_elem\<close> is application, with \<open>None\<close> for a null pointer.

  The last section gives functions that satisfy every one of these contracts; the witnesses run
  the programs on them.
\<close>

section \<open>Types of \<open>uapi/linux/bpf.h\<close> and \<open>bpf_helpers.h\<close>\<close>

datatype xdp_action = XDP_ABORTED | XDP_DROP | XDP_PASS | XDP_TX | XDP_REDIRECT

datatype bpf_map_type = BPF_MAP_TYPE_HASH | BPF_MAP_TYPE_ARRAY | BPF_MAP_TYPE_QUEUE

record bpf_map_def =
  map_type :: bpf_map_type
  key_size :: nat
  value_size :: nat
  max_entries :: nat
  map_flags :: nat

definition BPF_ANY :: u64 where
  "BPF_ANY = 0"

type_synonym ('k, 'v) map_update =
  "bpf_map_def \<Rightarrow> ('k \<rightharpoonup> 'v) \<Rightarrow> 'k \<Rightarrow> 'v \<Rightarrow> u64 \<Rightarrow> int \<times> ('k \<rightharpoonup> 'v)"

definition array_keys :: "bpf_map_def \<Rightarrow> u32 set" where
  "array_keys md = {k. unat k < max_entries md}"

lemma array_keys_iff [simp]: "k \<in> array_keys md \<longleftrightarrow> unat k < max_entries md"
  by (simp add: array_keys_def)

section \<open>Contracts of the helpers\<close>

locale bpf_map_update =
  fixes md :: bpf_map_def and update :: "('k, 'v) map_update"
  assumes update_result:
    "update md m k v BPF_ANY = (r, m') \<Longrightarrow> r = 0 \<and> m' = m(k \<mapsto> v) \<or> r < 0 \<and> m' = m"
begin

lemma update_success: "fst (update md m k v BPF_ANY) = 0 \<Longrightarrow> snd (update md m k v BPF_ANY) = m(k \<mapsto> v)"
  using update_result [of m k v] by (cases "update md m k v BPF_ANY") auto

lemma update_failure: "fst (update md m k v BPF_ANY) < 0 \<Longrightarrow> snd (update md m k v BPF_ANY) = m"
  using update_result [of m k v] by (cases "update md m k v BPF_ANY") auto

end

locale bpf_array_map = bpf_map_update md update
  for md :: bpf_map_def and update :: "(u32, 'v) map_update" +
  assumes array_update_ok:
    "dom m = array_keys md \<Longrightarrow> k \<in> array_keys md \<Longrightarrow> fst (update md m k v BPF_ANY) = 0"
  and array_update_out: "k \<notin> array_keys md \<Longrightarrow> fst (update md m k v BPF_ANY) < 0"
begin

lemma array_update:
  assumes "dom m = array_keys md"
  shows "snd (update md m k v BPF_ANY) = (if k \<in> array_keys md then m(k \<mapsto> v) else m)"
  using array_update_ok [OF assms] array_update_out update_success update_failure by auto

lemma array_update_dom:
  assumes "dom m = array_keys md"
  shows "dom (snd (update md m k v BPF_ANY)) = array_keys md"
  by (simp only: array_update [OF assms]) (use assms in auto)

end

locale bpf_hash_map = bpf_map_update md update
  for md :: bpf_map_def and update :: "('k, 'v) map_update" +
  assumes hash_update_ok:
    "finite (dom m) \<Longrightarrow> k \<in> dom m \<or> card (dom m) < max_entries md \<Longrightarrow>
      fst (update md m k v BPF_ANY) = 0"
  and hash_update_full:
    "finite (dom m) \<Longrightarrow> k \<notin> dom m \<Longrightarrow> max_entries md \<le> card (dom m) \<Longrightarrow>
      fst (update md m k v BPF_ANY) < 0"
begin

lemma hash_update:
  assumes "finite (dom m)"
  shows "snd (update md m k v BPF_ANY) =
    (if k \<in> dom m \<or> card (dom m) < max_entries md then m(k \<mapsto> v) else m)"
  using hash_update_ok [OF assms] hash_update_full [OF assms] update_success update_failure
  by (auto simp: not_less)

lemma hash_update_bounded:
  assumes "finite (dom m)" "card (dom m) \<le> max_entries md"
  shows "finite (dom (snd (update md m k v BPF_ANY)))"
    "card (dom (snd (update md m k v BPF_ANY))) \<le> max_entries md"
  using assms by (auto simp: hash_update card_insert_if)

end

locale bpf_queue_map =
  fixes md :: bpf_map_def
    and push :: "bpf_map_def \<Rightarrow> 'v list \<Rightarrow> 'v \<Rightarrow> u64 \<Rightarrow> int \<times> 'v list"
    and peek :: "bpf_map_def \<Rightarrow> 'v list \<Rightarrow> 'v \<Rightarrow> int \<times> 'v"
    and pop :: "bpf_map_def \<Rightarrow> 'v list \<Rightarrow> 'v \<Rightarrow> int \<times> 'v \<times> 'v list"
  assumes push_ok: "length q < max_entries md \<Longrightarrow> push md q v BPF_ANY = (0, q @ [v])"
  and push_full: "max_entries md \<le> length q \<Longrightarrow> \<exists>r. push md q v BPF_ANY = (r, q) \<and> r < 0"
  and peek_status: "fst (peek md q buf) = 0 \<longleftrightarrow> q \<noteq> []"
  and pop_Cons: "pop md (x # q) buf = (0, x, q)"
  and pop_Nil: "\<exists>r w. pop md [] buf = (r, w, []) \<and> r < 0"
begin

lemma push_result:
  "snd (push md q v BPF_ANY) = (if length q < max_entries md then q @ [v] else q)"
  using push_ok push_full [of q v] by (auto simp: not_less)

lemma push_bounded:
  "length q \<le> max_entries md \<Longrightarrow> length (snd (push md q v BPF_ANY)) \<le> max_entries md"
  by (simp add: push_result)

lemma pop_queue: "snd (snd (pop md q buf)) = tl q"
  using pop_Cons pop_Nil [of buf] by (cases q) auto

lemma pop_value: "q \<noteq> [] \<Longrightarrow> fst (snd (pop md q buf)) = hd q"
  using pop_Cons by (cases q) auto

end

locale xdp_tail =
  fixes adjust_tail :: "bytes \<Rightarrow> int \<Rightarrow> int \<times> bytes"
  assumes adjust_result:
    "0 \<le> d \<Longrightarrow> adjust_tail p d = (r, p') \<Longrightarrow>
      r = 0 \<and> length p' = length p + nat d \<and> take (length p) p' = p \<or> r < 0 \<and> p' = p"
begin

lemma adjust_prefix: "0 \<le> d \<Longrightarrow> take (length p) (snd (adjust_tail p d)) = p"
  using adjust_result [of d p] by (cases "adjust_tail p d") auto

lemma adjust_length:
  "0 \<le> d \<Longrightarrow> length (snd (adjust_tail p d)) =
    (if fst (adjust_tail p d) = 0 then length p + nat d else length p)"
  using adjust_result [of d p] by (cases "adjust_tail p d") auto

end

section \<open>Functions that keep the contracts\<close>

definition E2BIG_err :: int where
  "E2BIG_err = -7"

definition ref_array_update :: "(u32, 'v) map_update" where
  "ref_array_update md m k v flags =
     (if unat k < max_entries md then (0, m(k \<mapsto> v)) else (E2BIG_err, m))"

definition ref_hash_update :: "('k, 'v) map_update" where
  "ref_hash_update md m k v flags =
     (if k \<in> dom m \<or> card (dom m) < max_entries md then (0, m(k \<mapsto> v)) else (E2BIG_err, m))"

definition ref_push :: "bpf_map_def \<Rightarrow> 'v list \<Rightarrow> 'v \<Rightarrow> u64 \<Rightarrow> int \<times> 'v list" where
  "ref_push md q v flags =
     (if length q < max_entries md then (0, q @ [v]) else (E2BIG_err, q))"

fun ref_peek :: "bpf_map_def \<Rightarrow> 'v list \<Rightarrow> 'v \<Rightarrow> int \<times> 'v" where
  "ref_peek md [] buf = (-2, buf)"
| "ref_peek md (x # q) buf = (0, x)"

fun ref_pop :: "bpf_map_def \<Rightarrow> 'v list \<Rightarrow> 'v \<Rightarrow> int \<times> 'v \<times> 'v list" where
  "ref_pop md [] buf = (-2, buf, [])"
| "ref_pop md (x # q) buf = (0, x, q)"

definition ref_adjust_tail :: "bytes \<Rightarrow> int \<Rightarrow> int \<times> bytes" where
  "ref_adjust_tail p d =
     (if 0 \<le> d then (0, p @ replicate (nat d) 0)
      else if nat (- d) \<le> length p then (0, take (length p - nat (- d)) p) else (-22, p))"

lemma ref_array_map: "bpf_array_map md ref_array_update"
  by unfold_locales (auto simp: ref_array_update_def E2BIG_err_def split: if_splits)

lemma ref_hash_map: "bpf_hash_map md ref_hash_update"
  by unfold_locales (auto simp: ref_hash_update_def E2BIG_err_def split: if_splits)

lemma ref_queue_map: "bpf_queue_map md ref_push ref_peek ref_pop"
proof
  fix q :: "'a list" and buf
  show "fst (ref_peek md q buf) = 0 \<longleftrightarrow> q \<noteq> []" by (cases q) auto
qed (auto simp: ref_push_def E2BIG_err_def)

lemma ref_xdp_tail: "xdp_tail ref_adjust_tail"
  by unfold_locales (auto simp: ref_adjust_tail_def)

end
