(* ===== verification/Bpf_Endian.thy ===== *)
theory Bpf_Endian
  imports Mem_Prelude
begin

text \<open>
  Byte order: the shift-and-mask macros of \<open>bpf_endian.h\<close>, the compiler builtins they stand in
  for, and the conversions \<open>bpf_ntohs\<close>, \<open>bpf_htons\<close> and their 32- and 64-bit kin on the
  little-endian host. The builtins reverse the bytes of their argument (the GCC manual's words);
  the lemmas show that the macros do the same, so the two arms of \<open>__builtin_constant_p\<close> agree.
\<close>

section \<open>The builtins\<close>

definition builtin_bswap16 :: "u16 \<Rightarrow> u16" where
  "builtin_bswap16 x = of_nat (le_val (rev (le_bytes 2 (unat x))))"

definition builtin_bswap32 :: "u32 \<Rightarrow> u32" where
  "builtin_bswap32 x = of_nat (le_val (rev (le_bytes 4 (unat x))))"

definition builtin_bswap64 :: "u64 \<Rightarrow> u64" where
  "builtin_bswap64 x = of_nat (le_val (rev (le_bytes 8 (unat x))))"

section \<open>The macros\<close>

text \<open>
  \<open>___bpf_mvb(x, b, n, m)\<close> isolates byte \<open>n\<close> of a \<open>b\<close>-bit value and moves it to byte \<open>m\<close>. For
  \<open>b = 16\<close> the shifts are done on the promoted \<open>int\<close>, so the first shift does not discard the
  high byte; the final cast to \<open>__u16\<close> does.
\<close>

definition bpf_mvb :: "'a::len word \<Rightarrow> nat \<Rightarrow> nat \<Rightarrow> nat \<Rightarrow> 'a word" where
  "bpf_mvb x b n m = push_bit (m * 8) (drop_bit (b - 8) (push_bit (b - (n + 1) * 8) x))"

definition bpf_swab16 :: "u16 \<Rightarrow> u16" where
  "bpf_swab16 x = ucast (bpf_mvb (ucast x :: u32) 16 0 1 OR bpf_mvb (ucast x :: u32) 16 1 0)"

definition bpf_swab32 :: "u32 \<Rightarrow> u32" where
  "bpf_swab32 x =
     bpf_mvb x 32 0 3 OR bpf_mvb x 32 1 2 OR bpf_mvb x 32 2 1 OR bpf_mvb x 32 3 0"

definition bpf_swab64 :: "u64 \<Rightarrow> u64" where
  "bpf_swab64 x =
     bpf_mvb x 64 0 7 OR bpf_mvb x 64 1 6 OR bpf_mvb x 64 2 5 OR bpf_mvb x 64 3 4 OR
     bpf_mvb x 64 4 3 OR bpf_mvb x 64 5 2 OR bpf_mvb x 64 6 1 OR bpf_mvb x 64 7 0"

text \<open>
  \<open>const\<close> is what \<open>__builtin_constant_p\<close> answers for the argument: the compiler's choice, so an
  argument of the model.
\<close>

definition bpf_htons :: "bool \<Rightarrow> u16 \<Rightarrow> u16" where
  "bpf_htons const x = (if const then bpf_swab16 x else builtin_bswap16 x)"

definition bpf_ntohs :: "bool \<Rightarrow> u16 \<Rightarrow> u16" where
  "bpf_ntohs const x = (if const then bpf_swab16 x else builtin_bswap16 x)"

definition bpf_htonl :: "bool \<Rightarrow> u32 \<Rightarrow> u32" where
  "bpf_htonl const x = (if const then bpf_swab32 x else builtin_bswap32 x)"

definition bpf_ntohl :: "bool \<Rightarrow> u32 \<Rightarrow> u32" where
  "bpf_ntohl const x = (if const then bpf_swab32 x else builtin_bswap32 x)"

definition bpf_cpu_to_be64 :: "bool \<Rightarrow> u64 \<Rightarrow> u64" where
  "bpf_cpu_to_be64 const x = (if const then bpf_swab64 x else builtin_bswap64 x)"

definition bpf_be64_to_cpu :: "bool \<Rightarrow> u64 \<Rightarrow> u64" where
  "bpf_be64_to_cpu const x = (if const then bpf_swab64 x else builtin_bswap64 x)"

section \<open>Bits of little-endian values\<close>

lemma bit_byte_plus:
  "bit (unat (b :: u8) + 256 * v) n = (if n < 8 then bit b n else bit v (n - 8))"
proof (cases "n < 8")
  case True
  have "bit (unat b + 256 * v) n = bit (take_bit 8 (unat b + 256 * v)) n"
    using True by (simp add: bit_take_bit_iff)
  also have "take_bit 8 (unat b + 256 * v) = unat b"
    by (simp add: take_bit_eq_mod unat_byte_less)
  finally show ?thesis using True by (simp add: bit_unsigned_iff)
next
  case False
  have "bit (unat b + 256 * v) n = bit (drop_bit 8 (unat b + 256 * v)) (n - 8)"
    using False by (simp add: bit_drop_bit_eq)
  also have "drop_bit 8 (unat b + 256 * v) = v"
    by (simp add: drop_bit_eq_div)
  finally show ?thesis using False by simp
qed

lemma bit_le_val:
  "bit (le_val bs) n \<longleftrightarrow> n div 8 < length bs \<and> bit (bs ! (n div 8)) (n mod 8)"
proof (induction bs arbitrary: n)
  case Nil
  then show ?case by simp
next
  case (Cons b bs)
  show ?case
  proof (cases "n < 8")
    case True
    then show ?thesis by (simp add: bit_byte_plus)
  next
    case False
    then obtain m where "n = m + 8" by (metis le_Suc_ex add.commute not_less)
    with Cons [of m] show ?thesis by (simp add: bit_byte_plus div_add_self2)
  qed
qed

lemma nth_le_bytes: "i < n \<Longrightarrow> le_bytes n v ! i = of_nat (drop_bit (8 * i) v)"
proof (induction n arbitrary: i v)
  case 0
  then show ?case by simp
next
  case (Suc n)
  show ?case
  proof (cases i)
    case 0
    then show ?thesis by simp
  next
    case (Suc j)
    then show ?thesis
      using Suc.IH [of j "v div 256"] Suc.prems
      by (simp add: drop_bit_eq_div div_mult2_eq power_add)
  qed
qed

lemma bit_of_nat_word: "bit (of_nat v :: 'a::len word) n \<longleftrightarrow> n < LENGTH('a) \<and> bit v n"
  by transfer (simp add: bit_take_bit_iff bit_of_nat_iff possible_bit_def)

lemma bit_bswap:
  fixes w :: "'a::len word"
  assumes "LENGTH('a) = 8 * k"
  shows "bit (of_nat (le_val (rev (le_bytes k (unat w)))) :: 'a word) n \<longleftrightarrow>
    n < 8 * k \<and> bit w (8 * (k - 1 - n div 8) + n mod 8)"
proof (cases "n < 8 * k")
  case True
  then have q: "n div 8 < k" by (simp add: less_mult_imp_div_less mult.commute)
  then have "rev (le_bytes k (unat w)) ! (n div 8) = of_nat (drop_bit (8 * (k - 1 - n div 8)) (unat w))"
    by (simp add: rev_nth nth_le_bytes)
  then show ?thesis
    using True q assms
    by (simp add: bit_of_nat_word bit_le_val bit_drop_bit_eq bit_unsigned_iff)
next
  case False
  then show ?thesis using assms by (auto simp: bit_of_nat_word)
qed

lemmas bit_builtin_bswap =
  bit_bswap [where 'a = 16 and k = 2, simplified, folded builtin_bswap16_def]
  bit_bswap [where 'a = 32 and k = 4, simplified, folded builtin_bswap32_def]
  bit_bswap [where 'a = 64 and k = 8, simplified, folded builtin_bswap64_def]

lemma byte_index:
  assumes "n < 8 * (k :: nat)"
  obtains q r where "n = 8 * q + r" "q < k" "r < 8"
proof -
  have "n = 8 * (n div 8) + n mod 8" by simp
  moreover have "n div 8 < k" using assms by (simp add: less_mult_imp_div_less mult.commute)
  moreover have "n mod 8 < 8" by simp
  ultimately show ?thesis by (rule that)
qed

lemma less_eight_cases: "q < 8 \<Longrightarrow> q = 0 \<or> q = 1 \<or> q = 2 \<or> q = 3 \<or> q = 4 \<or> q = 5 \<or> q = 6 \<or> q = (7::nat)"
  by arith

lemma bit_bpf_mvb:
  fixes x :: "'a::len word"
  shows "bit (bpf_mvb x b n m) i \<longleftrightarrow>
    m * 8 \<le> i \<and> i < LENGTH('a) \<and> b - (n + 1) * 8 \<le> i - m * 8 + (b - 8) \<and>
    i - m * 8 + (b - 8) < LENGTH('a) \<and>
    bit x (i - m * 8 + (b - 8) - (b - (n + 1) * 8))"
  by (auto simp: bpf_mvb_def bit_simps ac_simps)

section \<open>The macros are the builtins\<close>

lemma bpf_swab16_eq: "bpf_swab16 x = builtin_bswap16 x"
proof (rule bit_word_eqI)
  fix n assume "n < LENGTH(16)"
  then have "n < 8 * 2" by simp
  then obtain q r where nqr: "n = 8 * q + r" "q < 2" "r < (8::nat)" by (rule byte_index)
  have "bit (builtin_bswap16 x) n = bit x (8 * (1 - q) + r)"
    using nqr by (simp add: bit_builtin_bswap)
  moreover have "bit (bpf_swab16 x) n = bit x (8 * (1 - q) + r)"
    using nqr less_eight_cases [of q, OF less_le_trans [OF nqr(2)]]
    by (auto simp: bpf_swab16_def bit_bpf_mvb bit_simps add.commute dest: bit_imp_le_length)
  ultimately show "bit (bpf_swab16 x) n = bit (builtin_bswap16 x) n" by simp
qed

lemma bpf_swab32_eq: "bpf_swab32 x = builtin_bswap32 x"
proof (rule bit_word_eqI)
  fix n assume "n < LENGTH(32)"
  then have "n < 8 * 4" by simp
  then obtain q r where nqr: "n = 8 * q + r" "q < 4" "r < (8::nat)" by (rule byte_index)
  have "bit (builtin_bswap32 x) n = bit x (8 * (3 - q) + r)"
    using nqr by (simp add: bit_builtin_bswap)
  moreover have "bit (bpf_swab32 x) n = bit x (8 * (3 - q) + r)"
    using nqr less_eight_cases [of q, OF less_le_trans [OF nqr(2)]]
    by (simp, elim disjE) (simp_all add: bpf_swab32_def bit_bpf_mvb bit_or_iff add.commute)
  ultimately show "bit (bpf_swab32 x) n = bit (builtin_bswap32 x) n" by simp
qed

lemma bpf_swab64_eq: "bpf_swab64 x = builtin_bswap64 x"
proof (rule bit_word_eqI)
  fix n assume "n < LENGTH(64)"
  then have "n < 8 * 8" by simp
  then obtain q r where nqr: "n = 8 * q + r" "q < 8" "r < (8::nat)" by (rule byte_index)
  have "bit (builtin_bswap64 x) n = bit x (8 * (7 - q) + r)"
    using nqr by (simp add: bit_builtin_bswap)
  moreover have "bit (bpf_swab64 x) n = bit x (8 * (7 - q) + r)"
    using nqr less_eight_cases [of q, OF less_le_trans [OF nqr(2)]]
    by (simp, elim disjE) (simp_all add: bpf_swab64_def bit_bpf_mvb bit_or_iff add.commute)
  ultimately show "bit (bpf_swab64 x) n = bit (builtin_bswap64 x) n" by simp
qed

lemma unat_of_nat_le_val:
  assumes "LENGTH('a) = 8 * length bs"
  shows "unat (of_nat (le_val bs) :: 'a::len word) = le_val bs"
proof -
  have "le_val bs < 2 ^ LENGTH('a)"
    using le_val_bound [of bs] by (simp add: assms power_mult)
  then show ?thesis by (simp add: unat_of_nat take_bit_eq_mod)
qed

text \<open>A value loaded from memory and swapped is the big-endian reading of the same bytes.\<close>

lemma bswap_of_le_val:
  "length bs = 2 \<Longrightarrow> builtin_bswap16 (of_nat (le_val bs)) = of_nat (le_val (rev bs))"
  "length bs = 4 \<Longrightarrow> builtin_bswap32 (of_nat (le_val bs)) = of_nat (le_val (rev bs))"
  "length bs = 8 \<Longrightarrow> builtin_bswap64 (of_nat (le_val bs)) = of_nat (le_val (rev bs))"
  using le_bytes_le_val [of bs]
  by (simp_all add: builtin_bswap16_def builtin_bswap32_def builtin_bswap64_def unat_of_nat_le_val)

text \<open>Storing a swapped value lays its bytes out in network order.\<close>

lemma le_bytes_bswap:
  "le_bytes 2 (unat (builtin_bswap16 x)) = rev (le_bytes 2 (unat x))"
  "le_bytes 4 (unat (builtin_bswap32 y)) = rev (le_bytes 4 (unat y))"
  "le_bytes 8 (unat (builtin_bswap64 z)) = rev (le_bytes 8 (unat z))"
  using le_bytes_le_val [of "rev (le_bytes 2 (unat x))"] le_bytes_le_val [of "rev (le_bytes 4 (unat y))"]
    le_bytes_le_val [of "rev (le_bytes 8 (unat z))"]
  by (simp_all add: builtin_bswap16_def builtin_bswap32_def builtin_bswap64_def unat_of_nat_le_val)

lemma of_nat_le_val_le_bytes:
  "of_nat (le_val (le_bytes 2 (unat x))) = (x :: u16)"
  "of_nat (le_val (le_bytes 4 (unat y))) = (y :: u32)"
  "of_nat (le_val (le_bytes 8 (unat z))) = (z :: u64)"
  using unsigned_less [where ?'a = nat and w = x] unsigned_less [where ?'a = nat and w = y]
    unsigned_less [where ?'a = nat and w = z]
  by (simp_all add: le_val_le_bytes)

lemma builtin_bswap_involution:
  "builtin_bswap16 (builtin_bswap16 x) = x"
  "builtin_bswap32 (builtin_bswap32 y) = y"
  "builtin_bswap64 (builtin_bswap64 z) = z"
  by (simp_all add: builtin_bswap16_def [of "builtin_bswap16 x"]
      builtin_bswap32_def [of "builtin_bswap32 y"] builtin_bswap64_def [of "builtin_bswap64 z"]
      le_bytes_bswap of_nat_le_val_le_bytes)

text \<open>
  C16. The byte-order macros of \<open>bpf_endian.h\<close>: whichever arm \<open>__builtin_constant_p\<close> picks on
  either side, converting to network order and back is the identity, for 16, 32 and 64 bits.
\<close>

theorem byte_order_roundtrip:
  "bpf_ntohs c (bpf_htons d x) = x \<and> bpf_ntohl c (bpf_htonl d y) = y \<and>
   bpf_be64_to_cpu c (bpf_cpu_to_be64 d z) = z"
  by (simp add: bpf_ntohs_def bpf_htons_def bpf_ntohl_def bpf_htonl_def bpf_be64_to_cpu_def
      bpf_cpu_to_be64_def bpf_swab16_eq bpf_swab32_eq bpf_swab64_eq builtin_bswap_involution)

end
