(* ===== verification/Xdp_Packet.thy ===== *)
theory Xdp_Packet
  imports Bpf_Endian
begin

text \<open>
  A packet between \<open>ctx->data\<close> and \<open>ctx->data_end\<close> is a list of bytes; a pointer into it is an
  offset, \<open>data_end\<close> is its length. The header structures of the Linux headers overlay it: one
  accessor per field the two XDP programs read or write, relative to the offset of the header
  (\<open>eth\<close>, \<open>iph\<close>, \<open>udph\<close>), at the byte the C structure has the field.
\<close>

abbreviation (input) ethhdr_size :: nat where "ethhdr_size \<equiv> 14"
abbreviation (input) iphdr_size :: nat where "iphdr_size \<equiv> 20"
abbreviation (input) udphdr_size :: nat where "udphdr_size \<equiv> 8"

definition ETH_P_IP :: u16 where "ETH_P_IP = 0x0800"
definition IPPROTO_UDP :: u8 where "IPPROTO_UDP = 17"

section \<open>Reads\<close>

definition eth_h_dest :: "bytes \<Rightarrow> nat \<Rightarrow> bytes option" where
  "eth_h_dest p eth = ldn p eth 6"
definition eth_h_source :: "bytes \<Rightarrow> nat \<Rightarrow> bytes option" where
  "eth_h_source p eth = ldn p (eth + 6) 6"
definition eth_h_proto :: "bytes \<Rightarrow> nat \<Rightarrow> u16 option" where
  "eth_h_proto p eth = ld16 p (eth + 12)"
definition ip_protocol :: "bytes \<Rightarrow> nat \<Rightarrow> u8 option" where
  "ip_protocol p iph = ld8 p (iph + 9)"
definition ip_saddr :: "bytes \<Rightarrow> nat \<Rightarrow> u32 option" where
  "ip_saddr p iph = ld32 p (iph + 12)"
definition ip_daddr :: "bytes \<Rightarrow> nat \<Rightarrow> u32 option" where
  "ip_daddr p iph = ld32 p (iph + 16)"
definition udp_dest :: "bytes \<Rightarrow> nat \<Rightarrow> u16 option" where
  "udp_dest p udph = ld16 p (udph + 2)"
definition udp_len :: "bytes \<Rightarrow> nat \<Rightarrow> u16 option" where
  "udp_len p udph = ld16 p (udph + 4)"

section \<open>Writes\<close>

definition set_eth_h_dest :: "bytes \<Rightarrow> nat \<Rightarrow> bytes \<Rightarrow> bytes option" where
  "set_eth_h_dest p eth mac = stn p eth mac"
definition set_eth_h_source :: "bytes \<Rightarrow> nat \<Rightarrow> bytes \<Rightarrow> bytes option" where
  "set_eth_h_source p eth mac = stn p (eth + 6) mac"
definition set_ip_tot_len :: "bytes \<Rightarrow> nat \<Rightarrow> u16 \<Rightarrow> bytes option" where
  "set_ip_tot_len p iph w = st16 p (iph + 2) w"
definition set_ip_check :: "bytes \<Rightarrow> nat \<Rightarrow> u16 \<Rightarrow> bytes option" where
  "set_ip_check p iph w = st16 p (iph + 10) w"
definition set_ip_saddr :: "bytes \<Rightarrow> nat \<Rightarrow> u32 \<Rightarrow> bytes option" where
  "set_ip_saddr p iph w = st32 p (iph + 12) w"
definition set_ip_daddr :: "bytes \<Rightarrow> nat \<Rightarrow> u32 \<Rightarrow> bytes option" where
  "set_ip_daddr p iph w = st32 p (iph + 16) w"
definition set_udp_len :: "bytes \<Rightarrow> nat \<Rightarrow> u16 \<Rightarrow> bytes option" where
  "set_udp_len p udph w = st16 p (udph + 4) w"
definition set_udp_check :: "bytes \<Rightarrow> nat \<Rightarrow> u16 \<Rightarrow> bytes option" where
  "set_udp_check p udph w = st16 p (udph + 6) w"

lemmas field_reads =
  eth_h_dest_def eth_h_source_def eth_h_proto_def ip_protocol_def ip_saddr_def ip_daddr_def
  udp_dest_def udp_len_def

lemmas field_writes =
  set_eth_h_dest_def set_eth_h_source_def set_ip_tot_len_def set_ip_check_def set_ip_saddr_def
  set_ip_daddr_def set_udp_len_def set_udp_check_def

section \<open>Fields in network order\<close>

lemma be16_eq_iff:
  assumes "ldn p i 2 = Some bs"
  shows "bpf_ntohs c (of_nat (le_val bs)) = w \<longleftrightarrow> bs = rev (le_bytes 2 (unat w))"
proof -
  have len: "length bs = 2" using assms by (rule length_ldn)
  have "bpf_ntohs c (of_nat (le_val bs)) = of_nat (le_val (rev bs))"
    by (simp add: bpf_ntohs_def bpf_swab16_eq bswap_of_le_val len)
  moreover have "of_nat (le_val (rev bs)) = w \<longleftrightarrow> rev bs = le_bytes 2 (unat w)"
  proof
    assume "of_nat (le_val (rev bs)) = w"
    then have "unat w = le_val (rev bs)"
      using unat_of_nat_le_val [of "rev bs", where 'a = 16] len by simp
    then show "rev bs = le_bytes 2 (unat w)"
      using le_bytes_le_val [of "rev bs"] len by simp
  qed (simp add: of_nat_le_val_le_bytes)
  ultimately show ?thesis by (metis rev_rev_ident)
qed

lemma le_bytes_ports:
  "rev (le_bytes 2 (unat ETH_P_IP)) = [8, 0]" "rev (le_bytes 2 8080) = [31, 144]"
  by (simp_all add: ETH_P_IP_def le_bytes_2)

text \<open>An IPv4 UDP datagram to port 8080, by its bytes.\<close>

definition is_udp_8080 :: "bytes \<Rightarrow> bool" where
  "is_udp_8080 p \<longleftrightarrow> 42 \<le> length p \<and> ldn p 12 2 = Some [8, 0] \<and> p ! 23 = 17 \<and>
     ldn p 36 2 = Some [31, 144]"

end
