(* ===== verification/Checksum.thy ===== *)
theory Checksum
  imports Xdp_Packet
begin

text \<open>
  \<open>ip_checksum\<close> and \<open>udp_checksum\<close> of \<open>lb.c\<close>. Both loops read 16-bit words in host order and
  stop at the end of their buffer; an access outside the packet is \<open>None\<close>.
\<close>

section \<open>The code\<close>

text \<open>\<open>while (bufsz > 1)\<close> and the odd byte after it; \<open>unsigned long\<close> is 64 bits.\<close>

fun ip_checksum_loop :: "bytes \<Rightarrow> nat \<Rightarrow> nat \<Rightarrow> u64 \<Rightarrow> u64 option" where
  "ip_checksum_loop p buf (Suc (Suc bufsz)) tot = do {
     w \<leftarrow> ld16 p buf;
     ip_checksum_loop p (buf + 2) bufsz (tot + ucast w)
   }"
| "ip_checksum_loop p buf (Suc 0) tot = do {
     b \<leftarrow> ld8 p buf;
     Some (tot + ucast b)
   }"
| "ip_checksum_loop p buf 0 tot = Some tot"

definition ip_fold :: "u64 \<Rightarrow> u64" where
  "ip_fold tot = (tot AND 0xffff) + drop_bit 16 tot"

definition ip_checksum :: "bytes \<Rightarrow> nat \<Rightarrow> nat \<Rightarrow> u16 option" where
  "ip_checksum p buf bufsz = do {
     tot \<leftarrow> ip_checksum_loop p buf bufsz 0;
     let tot = ip_fold tot;
     let tot = ip_fold tot;
     Some (ucast (NOT tot))
   }"

abbreviation (input) MAX_UDP_LENGTH :: nat where "MAX_UDP_LENGTH \<equiv> 1480"

text \<open>
  \<open>for (int i = 0; i < MAX_UDP_LENGTH; i += 2)\<close> with its \<open>break\<close>: the result is the sum and where
  \<open>buf\<close> points afterwards. The first argument counts the iterations left.
\<close>

fun udp_checksum_loop :: "nat \<Rightarrow> bytes \<Rightarrow> nat \<Rightarrow> u16 \<Rightarrow> (u16 \<times> nat) option" where
  "udp_checksum_loop 0 p buf csum = Some (csum, buf)"
| "udp_checksum_loop (Suc n) p buf csum =
     (if buf + 2 > length p then Some (csum, buf)
      else do {
        w \<leftarrow> ld16 p buf;
        udp_checksum_loop n p (buf + 2) (csum + w)
      })"

definition udp_checksum :: "bytes \<Rightarrow> nat \<Rightarrow> nat \<Rightarrow> u16 option" where
  "udp_checksum p ip udp = do {
     let csum = 0;
     let buf = udp;
     saddr \<leftarrow> ip_saddr p ip;
     let csum = csum + ucast saddr;
     let csum = csum + ucast (drop_bit 16 saddr);
     daddr \<leftarrow> ip_daddr p ip;
     let csum = csum + ucast daddr;
     let csum = csum + ucast (drop_bit 16 daddr);
     protocol \<leftarrow> ip_protocol p ip;
     let csum = csum + push_bit 8 (ucast protocol);
     len \<leftarrow> udp_len p udp;
     let csum = csum + len;
     (csum, buf) \<leftarrow> udp_checksum_loop (MAX_UDP_LENGTH div 2) p buf csum;
     csum \<leftarrow> (if buf + 1 \<le> length p
              then do { b \<leftarrow> ld8 p buf; Some (csum + ucast b) }
              else Some csum);
     Some (NOT csum)
   }"

section \<open>The Internet checksum\<close>

text \<open>
  RFC 1071: the data is a sequence of big-endian 16-bit words, an odd last byte is padded with
  zero, and data that carries its checksum is intact when its one's complement sum is \<open>0xffff\<close>,
  that is, when the sum is a non-zero multiple of \<open>0xffff\<close>.
\<close>

fun be_sum :: "bytes \<Rightarrow> nat" where
  "be_sum [] = 0"
| "be_sum [a] = 256 * unat a"
| "be_sum (a # b # bs) = 256 * unat a + unat b + be_sum bs"

definition inet_checksum_ok :: "bytes \<Rightarrow> bool" where
  "inet_checksum_ok bs \<longleftrightarrow> be_sum bs \<noteq> 0 \<and> be_sum bs mod 65535 = 0"

text \<open>The same words in host order, which is what the code adds up.\<close>

fun le_sum :: "bytes \<Rightarrow> nat" where
  "le_sum [] = 0"
| "le_sum [a] = unat a"
| "le_sum (a # b # bs) = unat a + 256 * unat b + le_sum bs"

lemma be_sum_le_sum: "be_sum bs mod 65535 = (256 * le_sum bs) mod 65535"
proof (induction bs rule: le_sum.induct)
  case (3 a b bs)
  have "256 * le_sum (a # b # bs) =
      (256 * unat a + unat b + 256 * le_sum bs) + 65535 * unat b"
    by simp
  then have "(256 * le_sum (a # b # bs)) mod 65535 =
      (256 * unat a + unat b + 256 * le_sum bs) mod 65535"
    by (simp only: mod_mult_self2)
  also have "\<dots> = (256 * unat a + unat b + be_sum bs) mod 65535"
    by (rule mod_add_cong [OF refl 3 [symmetric]])
  finally show ?case by simp
qed auto

lemma be_sum_eq_0_iff: "be_sum bs = 0 \<longleftrightarrow> le_sum bs = 0"
  by (induction bs rule: le_sum.induct) auto

lemma mult_256_mod_65535: "(256 * n) mod 65535 = 0 \<longleftrightarrow> n mod 65535 = (0::nat)"
proof
  assume "(256 * n) mod 65535 = 0"
  then have "(256 * (256 * n)) mod 65535 = 0"
    by (metis mod_mult_right_eq mult_0_right mod_0)
  moreover have "256 * (256 * n) = n + 65535 * n" by simp
  ultimately show "n mod 65535 = 0" by (metis mod_mult_self2)
next
  assume "n mod 65535 = 0"
  then show "(256 * n) mod 65535 = 0" by (metis mod_mult_right_eq mult_0_right mod_0)
qed

lemma inet_checksum_ok_le: "inet_checksum_ok bs \<longleftrightarrow> le_sum bs \<noteq> 0 \<and> le_sum bs mod 65535 = 0"
  by (simp add: inet_checksum_ok_def be_sum_eq_0_iff be_sum_le_sum mult_256_mod_65535)

lemma le_sum_append: "even (length xs) \<Longrightarrow> le_sum (xs @ ys) = le_sum xs + le_sum ys"
  by (induction xs rule: le_sum.induct) auto

lemma le_sum_bound: "le_sum bs \<le> 65535 * ((length bs + 1) div 2)"
proof (induction bs rule: le_sum.induct)
  case (2 a)
  show ?case using unat_byte_less [of a] by simp
next
  case (3 a b bs)
  then show ?case using unat_byte_less [of a] unat_byte_less [of b]
    by simp
qed simp

lemma le_sum_le_bytes: "v < 65536 \<Longrightarrow> le_sum (le_bytes 2 v) = v"
proof -
  assume "v < 65536"
  then have "v div 256 mod 256 = v div 256" by simp
  then show ?thesis by (simp add: numeral_2_eq_2)
qed

section \<open>\<open>ip_checksum\<close>\<close>

lemma drop_two: "off + 2 \<le> length p \<Longrightarrow> drop off p = p ! off # p ! Suc off # drop (off + 2) p"
  by (simp add: Cons_nth_drop_Suc)

lemma ld16_bytes:
  "off + 2 \<le> length p \<Longrightarrow> ld16 p off = Some (of_nat (unat (p ! off) + 256 * unat (p ! Suc off)))"
  by (simp add: ld16_def ldn_def drop_two numeral_2_eq_2)

lemma two_bytes_less: "unat (a :: u8) + 256 * unat (b :: u8) < 65536"
  using unat_byte_less [of a] unat_byte_less [of b] by simp

lemma ucast_of_nat_u16: "v < 65536 \<Longrightarrow> ucast (of_nat v :: u16) = (of_nat v :: u64)"
  by (rule word_unat_eq_iff [THEN iffD2])
    (simp add: unsigned_ucast_eq unsigned_of_nat take_bit_nat_eq_self)

lemma ip_checksum_loop_eq:
  "off + n \<le> length p \<Longrightarrow>
    ip_checksum_loop p off n acc = Some (acc + of_nat (le_sum (take n (drop off p))))"
proof (induction p off n acc rule: ip_checksum_loop.induct)
  case (1 p buf bufsz acc)
  then have d: "drop buf p = p ! buf # p ! Suc buf # drop (buf + 2) p"
    by (intro drop_two) simp
  show ?case using 1 two_bytes_less [of "p ! buf" "p ! Suc buf"]
    by (simp add: ld16_bytes d ucast_of_nat_u16 del: of_nat_add of_nat_mult) (simp add: ac_simps)
next
  case (2 p buf acc)
  then have "drop buf p = p ! buf # drop (Suc buf) p" by (simp add: Cons_nth_drop_Suc)
  with 2 show ?case by (simp add: ld8_def)
qed simp

definition csum_fold :: "nat \<Rightarrow> nat" where
  "csum_fold s = s mod 65536 + s div 65536"

lemma ip_fold_of_nat: "s < 2 ^ 64 \<Longrightarrow> ip_fold (of_nat s) = of_nat (csum_fold s)"
proof -
  assume s: "s < 2 ^ 64"
  have "(of_nat s :: u64) AND 0xffff = of_nat (s mod 65536)"
  proof -
    have "(0xffff :: u64) = mask 16" by (simp add: mask_eq_exp_minus_1)
    then have "(of_nat s :: u64) AND 0xffff = take_bit 16 (of_nat s)" by (simp add: take_bit_eq_mask)
    then show ?thesis
      by (intro word_unat_eq_iff [THEN iffD2])
        (simp add: unsigned_take_bit_eq unsigned_of_nat take_bit_take_bit flip: take_bit_eq_mod [of 16, simplified])
  qed
  moreover have "drop_bit 16 (of_nat s :: u64) = of_nat (s div 65536)"
    by (rule word_unat_eq_iff [THEN iffD2])
      (simp only: unsigned_drop_bit_eq,
       use s in \<open>simp add: unsigned_of_nat take_bit_nat_eq_self drop_bit_eq_div\<close>)
  ultimately show ?thesis by (simp add: ip_fold_def csum_fold_def)
qed

lemma csum_fold_mod: "csum_fold s mod 65535 = s mod 65535"
proof -
  have "s = csum_fold s + 65535 * (s div 65536)"
    using div_mult_mod_eq [of s 65536] unfolding csum_fold_def by linarith
  then have "s mod 65535 = (csum_fold s + 65535 * (s div 65536)) mod 65535" by simp
  then show ?thesis by (simp only: mod_mult_self2)
qed

lemma csum_fold_eq_0: "csum_fold s = 0 \<longleftrightarrow> s = 0"
  using div_mult_mod_eq [of s 65536] by (auto simp: csum_fold_def)

lemma csum_fold_small:
  assumes "x \<le> 131070"
  shows "csum_fold x \<le> 65535"
proof (cases "x < 65536")
  case True
  then show ?thesis by (simp add: csum_fold_def)
next
  case False
  then have "x div 65536 = 1" "x mod 65536 = x - 65536"
    using assms by (simp_all add: div_nat_eqI mod_if)
  then show ?thesis using assms by (simp add: csum_fold_def)
qed

lemma csum_fold_twice:
  assumes "s < 2 ^ 32"
  shows "csum_fold (csum_fold s) \<le> 65535" "csum_fold (csum_fold s) mod 65535 = s mod 65535"
    "csum_fold (csum_fold s) = 0 \<longleftrightarrow> s = 0"
proof -
  have "s div 65536 < 65536" using assms by (simp add: div_less_iff_less_mult)
  moreover have "s mod 65536 < 65536" by simp
  ultimately have "csum_fold s \<le> 131070" unfolding csum_fold_def by linarith
  then show "csum_fold (csum_fold s) \<le> 65535" by (rule csum_fold_small)
qed (simp_all add: csum_fold_mod csum_fold_eq_0)

lemma ucast_not_of_nat: "t \<le> 65535 \<Longrightarrow> (ucast (NOT (of_nat t :: u64)) :: u16) = of_nat (65535 - t)"
proof -
  assume "t \<le> 65535"
  have "(ucast (NOT (of_nat t :: u64)) :: u16) = NOT (ucast (of_nat t :: u64))"
    by (rule bit_word_eqI) (simp add: bit_simps)
  also have "(ucast (of_nat t :: u64) :: u16) = of_nat t"
    by (rule word_unat_eq_iff [THEN iffD2])
      (simp add: unsigned_ucast_eq unsigned_of_nat take_bit_take_bit)
  also have "NOT (of_nat t :: u16) = of_nat (65535 - t)"
    using \<open>t \<le> 65535\<close> by (simp add: not_eq_complement)
  finally show ?thesis .
qed

lemma le_sum_take_less: "n \<le> 65536 \<Longrightarrow> le_sum (take n bs) < 2 ^ 32"
proof -
  assume "n \<le> 65536"
  have "le_sum (take n bs) \<le> 65535 * ((length (take n bs) + 1) div 2)" by (rule le_sum_bound)
  also have "\<dots> \<le> 65535 * 32768"
  proof (rule mult_le_mono2)
    have "length (take n bs) + 1 \<le> 65537" using \<open>n \<le> 65536\<close> by simp
    then have "(length (take n bs) + 1) div 2 \<le> 65537 div 2" by (rule div_le_mono)
    then show "(length (take n bs) + 1) div 2 \<le> 32768" by simp
  qed
  finally show ?thesis by simp
qed

lemma ip_checksum_eq:
  assumes "off + n \<le> length p" "n \<le> 65536"
  shows "ip_checksum p off n =
    Some (of_nat (65535 - csum_fold (csum_fold (le_sum (take n (drop off p))))))"
proof -
  define s where "s = le_sum (take n (drop off p))"
  have s: "s < 2 ^ 32" unfolding s_def using assms(2) by (rule le_sum_take_less)
  then have "csum_fold s < 2 ^ 64" by (simp add: csum_fold_def)
  with s have "ip_fold (ip_fold (of_nat s)) = of_nat (csum_fold (csum_fold s))"
    by (simp add: ip_fold_of_nat)
  with csum_fold_twice(1) [OF s] assms(1) show ?thesis
    by (simp add: ip_checksum_def ip_checksum_loop_eq s_def [symmetric] ucast_not_of_nat Let_def)
qed

text \<open>
  A header of even length whose checksum field (at an even offset) is zero carries a valid
  checksum once \<open>ip_checksum\<close>'s result is stored there.
\<close>

lemma csum_complement:
  assumes "s < 2 ^ 32"
  shows "s + (65535 - csum_fold (csum_fold s)) \<noteq> 0"
    "(s + (65535 - csum_fold (csum_fold s))) mod 65535 = 0"
proof -
  define t where "t = csum_fold (csum_fold s)"
  note t = csum_fold_twice [OF assms, folded t_def]
  have "s mod 65535 + (65535 - t) = 0 \<or> s mod 65535 + (65535 - t) = 65535"
  proof (cases "t = 65535")
    case True
    then show ?thesis using t(2) by simp
  next
    case False
    then show ?thesis using t(1,2) by simp
  qed
  then have "(s mod 65535 + (65535 - t)) mod 65535 = 0" by auto
  then show "(s + (65535 - csum_fold (csum_fold s))) mod 65535 = 0"
    by (simp only: t_def mod_add_left_eq)
  show "s + (65535 - csum_fold (csum_fold s)) \<noteq> 0"
    using t(1,3) by (auto simp: t_def)
qed

lemma ip_checksum_fills_in:
  assumes hdr: "off + n \<le> length p" "n \<le> 65536" and c: "even c" "c + 2 \<le> n"
    and zero: "stn p (off + c) [0, 0] = Some p"
    and sum: "ip_checksum p off n = Some w"
    and p': "st16 p (off + c) w = Some p'"
  shows "inet_checksum_ok (take n (drop off p'))"
proof -
  define hd where "hd = take c (drop off p)"
  define tl where "tl = take (n - c - 2) (drop (off + c + 2) p)"
  define s where "s = le_sum (take n (drop off p))"
  have p: "p = take (off + c) p @ [0, 0] @ drop (off + c + 2) p"
    using zero by (simp add: stn_def split: if_splits)
  have w: "w = of_nat (65535 - csum_fold (csum_fold s))"
    using ip_checksum_eq [OF hdr] sum by (simp add: s_def)
  have p'_eq: "p' = take (off + c) p @ le_bytes 2 (unat w) @ drop (off + c + 2) p"
    using p' by (simp add: st16_def stn_def split: if_splits)
  have sp: "take n (drop off (take (off + c) p @ bs @ drop (off + c + 2) p)) = hd @ bs @ tl"
    if "length bs = 2" for bs
    using hdr c that by (simp add: hd_def tl_def drop_take min_def add.commute)
  have hd: "even (length hd)" using hdr c by (simp add: hd_def min_def)
  have "s = le_sum (hd @ [0, 0] @ tl)" unfolding s_def by (subst p, subst sp) simp_all
  then have s: "s = le_sum hd + le_sum tl" using hd by (simp add: le_sum_append)
  have less: "s < 2 ^ 32" unfolding s_def using hdr(2) by (rule le_sum_take_less)
  have "unat w = 65535 - csum_fold (csum_fold s)"
    by (simp add: w unat_of_nat take_bit_eq_mod)
  then have "le_sum (take n (drop off p')) = s + (65535 - csum_fold (csum_fold s))"
    unfolding p'_eq by (subst sp) (simp_all add: le_sum_append hd le_sum_le_bytes s)
  with csum_complement [OF less] show ?thesis by (simp add: inet_checksum_ok_le)
qed

section \<open>\<open>udp_checksum\<close>\<close>

text \<open>RFC 768: the pseudo header the UDP checksum also covers.\<close>

definition pseudo_header :: "bytes \<Rightarrow> nat \<Rightarrow> nat \<Rightarrow> bytes" where
  "pseudo_header p ip udp =
     take 8 (drop (ip + 12) p) @ [0, p ! (ip + 9)] @ take 2 (drop (udp + 4) p)"

lemma udp_checksum_loop_eq:
  "buf \<le> length p \<Longrightarrow> k = min n ((length p - buf) div 2) \<Longrightarrow>
    udp_checksum_loop n p buf c =
      Some (c + of_nat (le_sum (take (2 * k) (drop buf p))), buf + 2 * k)"
proof (induction n p buf c arbitrary: k rule: udp_checksum_loop.induct)
  case (1 p buf c)
  then show ?case by simp
next
  case (2 n p buf c)
  show ?case
  proof (cases "buf + 2 > length p")
    case True
    with 2 have "k = 0" by auto
    with True show ?thesis by simp
  next
    case False
    define k' where "k' = min n ((length p - (buf + 2)) div 2)"
    have "(length p - buf) div 2 = Suc ((length p - (buf + 2)) div 2)"
      using False by (simp add: le_div_geq flip: diff_diff_left)
    then have k: "k = Suc k'" using 2(3) by (simp add: k'_def)
    obtain w where w: "ld16 p buf = Some w"
        "w = of_nat (unat (p ! buf) + 256 * unat (p ! Suc buf))"
      using False by (simp add: ld16_bytes)
    have "udp_checksum_loop n p (buf + 2) (c + w) =
        Some (c + w + of_nat (le_sum (take (2 * k') (drop (buf + 2) p))), buf + 2 + 2 * k')"
      using 2(1) [OF False w(1) _ k'_def] False by simp
    moreover have "drop buf p = p ! buf # p ! Suc buf # drop (buf + 2) p"
      using False by (intro drop_two) simp
    ultimately show ?thesis
      using False w by (simp add: k algebra_simps)
  qed
qed

lemma ld32_halves:
  assumes "ld32 p i = Some w"
  shows "ucast w + ucast (drop_bit 16 w) = (of_nat (le_sum (take 4 (drop i p))) :: u16)"
proof -
  have le: "i + 4 \<le> length p" and w: "w = of_nat (le_val (take 4 (drop i p)))"
    using assms by (auto simp: ld32_def ldn_def split: if_splits)
  have "drop i p = p ! i # p ! Suc i # drop (i + 2) p" using le by (intro drop_two) simp
  moreover have "drop (i + 2) p = p ! (i + 2) # p ! (i + 3) # drop (i + 4) p"
    using le drop_two [of "i + 2" p] by (simp add: eval_nat_numeral)
  ultimately have t: "take 4 (drop i p) = [p ! i, p ! Suc i, p ! (i + 2), p ! (i + 3)]" by simp
  define a where "a = unat (p ! i) + 256 * unat (p ! Suc i)"
  define b where "b = unat (p ! (i + 2)) + 256 * unat (p ! (i + 3))"
  have ab: "a < 65536" "b < 65536"
    unfolding a_def b_def by (rule two_bytes_less)+
  have "le_val (take 4 (drop i p)) = a + 65536 * b" by (simp add: t a_def b_def)
  then have uw: "unat w = a + 65536 * b"
    using ab by (simp add: w unat_of_nat take_bit_eq_mod del: of_nat_add of_nat_mult)
  have "(ucast w :: u16) = of_nat a"
    by (rule word_unat_eq_iff [THEN iffD2])
      (use ab in \<open>simp add: unsigned_ucast_eq uw unsigned_of_nat take_bit_eq_mod\<close>)
  moreover have "(ucast (drop_bit 16 w) :: u16) = of_nat b"
    by (rule word_unat_eq_iff [THEN iffD2])
      (simp only: unsigned_ucast_eq unsigned_drop_bit_eq,
       use ab in \<open>simp add: uw unsigned_of_nat take_bit_eq_mod drop_bit_eq_div\<close>)
  moreover have "le_sum (take 4 (drop i p)) = a + b" by (simp add: t a_def b_def)
  ultimately show ?thesis by simp
qed

lemma le_sum_split: "even n \<Longrightarrow> n \<le> length bs \<Longrightarrow> le_sum bs = le_sum (take n bs) + le_sum (drop n bs)"
  by (metis append_take_drop_id le_sum_append length_take min.absorb2)

lemma udp_checksum_tail:
  assumes "buf \<le> length p" "length p - buf \<le> 1480"
  shows "(do { (csum, buf) \<leftarrow> udp_checksum_loop 740 p buf c;
              csum \<leftarrow> (if buf + 1 \<le> length p then do { b \<leftarrow> ld8 p buf; Some (csum + ucast b) }
                       else Some csum);
              Some (NOT csum) }) = Some (NOT (c + of_nat (le_sum (drop buf p))))"
proof -
  define k where "k = (length p - buf) div 2"
  have k: "k = min 740 ((length p - buf) div 2)" using assms by (simp add: k_def)
  note loop = udp_checksum_loop_eq [OF assms(1) k, of c]
  have sum: "le_sum (drop buf p) = le_sum (take (2 * k) (drop buf p)) + le_sum (drop (buf + 2 * k) p)"
    using le_sum_split [of "2 * k" "drop buf p"] by (simp add: k_def add.commute)
  show ?thesis
  proof (cases "even (length p - buf)")
    case True
    then have "buf + 2 * k = length p" using assms by (simp add: k_def)
    then have "\<not> buf + 2 * k + 1 \<le> length p" "le_sum (drop (buf + 2 * k) p) = 0" by simp_all
    then show ?thesis
      unfolding loop sum by (simp only: bind.simps prod.case if_False add_0_right)
  next
    case False
    then obtain m where m: "length p - buf = 2 * m + 1" by (rule oddE)
    then have "k = m" by (simp add: k_def)
    with m assms(1) have b: "Suc (buf + 2 * k) = length p" by simp
    then have "drop (buf + 2 * k) p = p ! (buf + 2 * k) # drop (Suc (buf + 2 * k)) p"
      by (intro Cons_nth_drop_Suc [symmetric]) simp
    then have "le_sum (drop (buf + 2 * k) p) = unat (p ! (buf + 2 * k))" using b by simp
    moreover have "buf + 2 * k + 1 \<le> length p" "ld8 p (buf + 2 * k) = Some (p ! (buf + 2 * k))"
      using b by (simp_all add: ld8_def)
    ultimately show ?thesis
      unfolding loop sum
      by (simp only: bind.simps prod.case if_True of_nat_add add.assoc unsigned_def o_apply) simp
  qed
qed

lemma udp_checksum_eq:
  assumes "ip + 20 \<le> length p" "udp + 8 \<le> length p" "length p - udp \<le> 1480"
  shows "udp_checksum p ip udp =
    Some (NOT (of_nat (le_sum (pseudo_header p ip udp @ drop udp p))))"
proof -
  obtain s where s: "ip_saddr p ip = Some s"
    using assms(1) by (simp add: ip_saddr_def ld32_def ldn_def)
  obtain d where d: "ip_daddr p ip = Some d"
    using assms(1) by (simp add: ip_daddr_def ld32_def ldn_def)
  have pr: "ip_protocol p ip = Some (p ! (ip + 9))" using assms(1) by (simp add: ip_protocol_def ld8_def)
  have l: "udp_len p udp = Some (of_nat (le_sum (take 2 (drop (udp + 4) p))))"
    using assms(2) drop_two [of "udp + 4" p] by (simp add: udp_len_def ld16_bytes)
  have "take 8 (drop (ip + 12) p) = take 4 (drop (ip + 12) p) @ take 4 (drop (ip + 16) p)"
    using take_add [of 4 4 "drop (ip + 12) p"] by (simp add: add.commute)
  then have "le_sum (take 8 (drop (ip + 12) p)) =
      le_sum (take 4 (drop (ip + 12) p)) + le_sum (take 4 (drop (ip + 16) p))"
    using assms(1) by (simp add: le_sum_append)
  then have sd: "(of_nat (le_sum (take 8 (drop (ip + 12) p))) :: u16) =
      ucast s + ucast (drop_bit 16 s) + ucast d + ucast (drop_bit 16 d)"
    using s d by (simp add: ip_saddr_def ip_daddr_def ld32_halves add.assoc)
  have l8: "length (take 8 (drop (ip + 12) p)) = 8" using assms(1) by simp
  have "(push_bit 8 (ucast (p ! (ip + 9))) :: u16) = of_nat (256 * unat (p ! (ip + 9)))"
    by (simp add: push_bit_eq_mult of_nat_mult mult.commute)
  then have hd: "(of_nat (le_sum (pseudo_header p ip udp)) :: u16) =
      ucast s + ucast (drop_bit 16 s) + ucast d + ucast (drop_bit 16 d) +
      push_bit 8 (ucast (p ! (ip + 9))) + of_nat (le_sum (take 2 (drop (udp + 4) p)))"
    using l8 by (simp add: pseudo_header_def le_sum_append sd)
  have "le_sum (pseudo_header p ip udp @ drop udp p) = le_sum (pseudo_header p ip udp) + le_sum (drop udp p)"
    by (rule le_sum_append) (use assms in \<open>simp add: pseudo_header_def\<close>)
  then have tot: "(of_nat (le_sum (pseudo_header p ip udp @ drop udp p)) :: u16) =
      of_nat (le_sum (pseudo_header p ip udp)) + of_nat (le_sum (drop udp p))" by simp
  show ?thesis
    unfolding tot hd
    using assms udp_checksum_tail [of udp p]
    by (simp add: udp_checksum_def s d pr l Let_def add.assoc)
qed

text \<open>What a receiver computes once the result is stored in the checksum field.\<close>

lemma csum_no_carry:
  assumes "(s :: nat) < 65535 * 65536"
  shows "(s + (65535 - s mod 65536)) mod 65535 = 0 \<longleftrightarrow> s < 65536"
proof -
  define q r where "q = s div 65536" and "r = s mod 65536"
  have "r \<le> 65535" by (simp add: r_def less_Suc_eq_le [symmetric])
  moreover have "s = 65536 * q + r" by (simp add: q_def r_def)
  ultimately have "s + (65535 - r) = q + 65535 * (q + 1)" by simp
  then have "s + (65535 - s mod 65536) = s div 65536 + 65535 * (s div 65536 + 1)"
    by (simp only: q_def r_def)
  then have "(s + (65535 - s mod 65536)) mod 65535 = (s div 65536 + 65535 * (s div 65536 + 1)) mod 65535"
    by simp
  also have "\<dots> = (s div 65536) mod 65535" by (rule mod_mult_self2)
  also have "\<dots> = s div 65536" using assms by (simp add: div_less_iff_less_mult)
  finally show ?thesis by (simp add: div_eq_0_iff)
qed

lemma udp_checksum_defined:
  assumes "ip + 20 \<le> length p" "udp + 8 \<le> length p"
  shows "\<exists>u. udp_checksum p ip udp = Some u"
  using assms udp_checksum_loop_eq [of udp p "min 740 ((length p - udp) div 2)" 740]
  by (simp add: udp_checksum_def ip_saddr_def ip_daddr_def ip_protocol_def udp_len_def ld32_def
      ld16_def ld8_def ldn_def Let_def)

end
