(* ===== verification/Load_Balancer.thy ===== *)
theory Load_Balancer
  imports Bpf_Kernel Checksum
begin

text \<open>
  The XDP load balancer \<open>A2-B/load-balancer/lb.c\<close>, statement by statement. The state is what its
  four maps hold; the helpers of the kernel are the fields of \<open>lb_env\<close>. A handler returns the XDP
  verdict, the maps and the packet after it, or \<open>None\<close> for an access outside the packet. The
  \<open>bpf_printk\<close> traces are not modelled: they change neither maps nor packet.
\<close>

section \<open>Maps and state\<close>

abbreviation (input) MAX_SERVERS :: nat where "MAX_SERVERS \<equiv> 3"
abbreviation (input) MAX_THREADS :: u16 where "MAX_THREADS \<equiv> 5"

record dest_info =
  saddr :: u32
  daddr :: u32
  dmac :: bytes
  free_threads :: u16

definition ip_to_key_map :: bpf_map_def where
  "ip_to_key_map = \<lparr>map_type = BPF_MAP_TYPE_HASH, key_size = 4, value_size = 4,
     max_entries = MAX_SERVERS, map_flags = 0\<rparr>"

definition servers_map :: bpf_map_def where
  "servers_map = \<lparr>map_type = BPF_MAP_TYPE_ARRAY, key_size = 4, value_size = 16,
     max_entries = MAX_SERVERS, map_flags = 0\<rparr>"

definition server_cnt_map :: bpf_map_def where
  "server_cnt_map = \<lparr>map_type = BPF_MAP_TYPE_ARRAY, key_size = 4, value_size = 2,
     max_entries = 1, map_flags = 0\<rparr>"

definition queue_map :: bpf_map_def where
  "queue_map = \<lparr>map_type = BPF_MAP_TYPE_QUEUE, key_size = 0, value_size = 8,
     max_entries = 100, map_flags = 0\<rparr>"

record lb_state =
  ip_to_key :: "u32 \<rightharpoonup> u32"
  servers :: "u32 \<rightharpoonup> dest_info"
  server_cnt :: "u32 \<rightharpoonup> u16"
  queue :: "u64 list"

text \<open>
  \<open>bpf_map_update_elem\<close> at the three value types it is used at, the queue helpers,
  \<open>bpf_xdp_adjust_tail\<close>, and the indeterminate contents of the local \<open>__u64 value\<close> that is
  passed to the peek and pop helpers.
\<close>

record lb_env =
  update_u32 :: "(u32, u32) map_update"
  update_dest_info :: "(u32, dest_info) map_update"
  update_u16 :: "(u32, u16) map_update"
  push_elem :: "bpf_map_def \<Rightarrow> u64 list \<Rightarrow> u64 \<Rightarrow> u64 \<Rightarrow> int \<times> u64 list"
  peek_elem :: "bpf_map_def \<Rightarrow> u64 list \<Rightarrow> u64 \<Rightarrow> int \<times> u64"
  pop_elem :: "bpf_map_def \<Rightarrow> u64 list \<Rightarrow> u64 \<Rightarrow> int \<times> u64 \<times> u64 list"
  adjust_tail :: "bytes \<Rightarrow> int \<Rightarrow> int \<times> bytes"
  stack_u64 :: u64

type_synonym lb_result = "(xdp_action \<times> lb_state \<times> bytes) option"

text \<open>The maps when the program is loaded: array elements exist and are zero.\<close>

definition zero_info :: dest_info where
  "zero_info = \<lparr>saddr = 0, daddr = 0, dmac = replicate 6 0, free_threads = 0\<rparr>"

definition lb_init :: lb_state where
  "lb_init = \<lparr>ip_to_key = Map.empty,
     servers = (\<lambda>k. if unat k < MAX_SERVERS then Some zero_info else None),
     server_cnt = (\<lambda>k. if unat k < 1 then Some 0 else None),
     queue = []\<rparr>"

section \<open>Choosing a backend\<close>

text \<open>One of the three unrolled blocks of \<open>get_available_backend\<close>.\<close>

definition consider_backend :: "lb_state \<Rightarrow> u32 \<Rightarrow> u32 \<times> u16 \<Rightarrow> u32 \<times> u16" where
  "consider_backend st i acc =
     (case acc of (selected_key, max_free_threads) \<Rightarrow>
        (case servers st i of
           Some info \<Rightarrow>
             if saddr info \<noteq> 0 then
               if free_threads info > max_free_threads then (i, free_threads info)
               else (selected_key, max_free_threads)
             else (selected_key, max_free_threads)
         | None \<Rightarrow> (selected_key, max_free_threads)))"

text \<open>
  The value is a \<open>__u32\<close>, with \<open>-1\<close> for no backend; the early return of \<open>XDP_ABORTED\<close> (0) when
  the second lookup fails is the code's.
\<close>

definition get_available_backend :: "lb_state \<Rightarrow> u32" where
  "get_available_backend st =
     (let acc = (- 1, 0);
          acc = consider_backend st 0 acc;
          acc = consider_backend st 1 acc;
          acc = consider_backend st 2 acc;
          selected_key = fst acc
      in if selected_key = - 1 then selected_key
         else case servers st selected_key of
                None \<Rightarrow> 0
              | Some info \<Rightarrow> selected_key)"

section \<open>The queue of waiting requests\<close>

definition is_queue_empty :: "lb_env \<Rightarrow> lb_state \<Rightarrow> bool" where
  "is_queue_empty E st =
     (let status = fst (peek_elem E queue_map (queue st) (stack_u64 E)) in status \<noteq> 0)"

definition enqueue :: "lb_env \<Rightarrow> lb_state \<Rightarrow> u64 \<Rightarrow> lb_state" where
  "enqueue E st value =
     st\<lparr>queue := snd (push_elem E queue_map (queue st) value BPF_ANY)\<rparr>"

definition dequeue :: "lb_env \<Rightarrow> lb_state \<Rightarrow> u64 \<times> lb_state" where
  "dequeue E st =
     (case pop_elem E queue_map (queue st) (stack_u64 E) of
        (status, value, q) \<Rightarrow> (value, st\<lparr>queue := q\<rparr>))"

section \<open>Forwarding a request\<close>

text \<open>
  \<open>info\<close> points into the array map, so \<open>info->free_threads--\<close> already changes the map; the
  update that follows writes the element over itself.
\<close>

definition send_to_backend ::
  "lb_env \<Rightarrow> lb_state \<Rightarrow> u32 \<Rightarrow> bytes \<Rightarrow> nat \<Rightarrow> nat \<Rightarrow> nat \<Rightarrow> lb_result" where
  "send_to_backend E st selected_key p eth iph udph =
     (case servers st selected_key of
        None \<Rightarrow> Some (XDP_ABORTED, st, p)
      | Some info \<Rightarrow> do {
          let info = info\<lparr>free_threads := free_threads info - 1\<rparr>;
          let st = st\<lparr>servers := (servers st)(selected_key \<mapsto> info)\<rparr>;
          let st = st\<lparr>servers :=
            snd (update_dest_info E servers_map (servers st) selected_key info BPF_ANY)\<rparr>;
          p \<leftarrow> set_ip_saddr p iph (daddr info);
          p \<leftarrow> set_ip_daddr p iph (saddr info);
          h_dest \<leftarrow> eth_h_dest p eth;
          p \<leftarrow> set_eth_h_source p eth h_dest;
          p \<leftarrow> set_eth_h_dest p eth (dmac info);
          p \<leftarrow> set_ip_tot_len p iph (bpf_htons False (of_nat (length p - iph)));
          p \<leftarrow> set_udp_len p udph (bpf_htons False (of_nat (length p - udph)));
          p \<leftarrow> set_ip_check p iph 0;
          c \<leftarrow> ip_checksum p iph iphdr_size;
          p \<leftarrow> set_ip_check p iph c;
          p \<leftarrow> set_udp_check p udph 0;
          c \<leftarrow> udp_checksum p iph udph;
          p \<leftarrow> set_udp_check p udph c;
          Some (XDP_TX, st, p)
        })"

section \<open>Packets from a backend\<close>

text \<open>
  The key of the sender: its entry of \<open>ip_to_key\<close>, or the server counter, which is then entered
  under its address. \<open>None\<close> is the early return of \<open>XDP_ABORTED\<close>.
\<close>

definition server_key_of :: "lb_env \<Rightarrow> lb_state \<Rightarrow> u32 \<Rightarrow> u32 option \<times> lb_state" where
  "server_key_of E st ip_key =
     (case ip_to_key st ip_key of
        None \<Rightarrow>
          (let cnt_key = 0;
               st = (case server_cnt st cnt_key of
                       None \<Rightarrow> st\<lparr>server_cnt :=
                         snd (update_u16 E server_cnt_map (server_cnt st) cnt_key 0 BPF_ANY)\<rparr>
                     | Some cnt \<Rightarrow> st)
           in (case server_cnt st cnt_key of
                 None \<Rightarrow> (None, st)
               | Some cnt \<Rightarrow>
                   (let server_key = ucast cnt
                    in (Some server_key,
                        st\<lparr>ip_to_key :=
                          snd (update_u32 E ip_to_key_map (ip_to_key st) ip_key server_key
                                 BPF_ANY)\<rparr>))))
      | Some server_key \<Rightarrow> (Some server_key, st))"

definition register_server :: "lb_env \<Rightarrow> lb_state \<Rightarrow> u32 \<Rightarrow> bytes \<Rightarrow> nat \<Rightarrow> nat \<Rightarrow> lb_result" where
  "register_server E st server_key p eth iph = do {
     ip_src \<leftarrow> ip_saddr p iph;
     ip_dst \<leftarrow> ip_daddr p iph;
     h_source \<leftarrow> eth_h_source p eth;
     let new_info = \<lparr>saddr = ip_src, daddr = ip_dst, dmac = h_source,
                     free_threads = MAX_THREADS\<rparr>;
     let st = st\<lparr>servers :=
       snd (update_dest_info E servers_map (servers st) server_key new_info BPF_ANY)\<rparr>;
     let cnt_key_1 = 0;
     (case server_cnt st cnt_key_1 of
        None \<Rightarrow> Some (XDP_ABORTED, st, p)
      | Some cnt_val \<Rightarrow>
          (let cnt_val = cnt_val + 1;
               st = st\<lparr>server_cnt := (server_cnt st)(cnt_key_1 \<mapsto> cnt_val)\<rparr>;
               st = st\<lparr>server_cnt :=
                 snd (update_u16 E server_cnt_map (server_cnt st) cnt_key_1 cnt_val BPF_ANY)\<rparr>
           in Some (XDP_DROP, st, p)))
   }"

text \<open>A waiting request is sent in the grown packet of the backend's completion message.\<close>

definition serve_queue :: "lb_env \<Rightarrow> lb_state \<Rightarrow> bytes \<Rightarrow> lb_result" where
  "serve_queue E st p =
     (let selected_key = get_available_backend st
      in if selected_key = - 1 then Some (XDP_ABORTED, st, p)
         else
           let p = snd (adjust_tail E p 7); eth = 0
           in if eth + ethhdr_size > length p then Some (XDP_ABORTED, st, p)
           else let iph = ethhdr_size
           in if eth + ethhdr_size + iphdr_size > length p then Some (XDP_ABORTED, st, p)
           else let udph = ethhdr_size + iphdr_size
           in if eth + ethhdr_size + iphdr_size + udphdr_size > length p
              then Some (XDP_ABORTED, st, p)
           else let payload = ethhdr_size + iphdr_size + udphdr_size
           in (case dequeue E st of (value, st) \<Rightarrow>
                 if payload + 8 > length p then Some (XDP_ABORTED, st, p)
                 else do {
                   p \<leftarrow> st64 p payload value;
                   send_to_backend E st selected_key p eth iph udph
                 }))"

definition job_complete :: "lb_env \<Rightarrow> lb_state \<Rightarrow> u32 \<Rightarrow> dest_info \<Rightarrow> bytes \<Rightarrow> lb_result" where
  "job_complete E st server_key info p =
     (let info = info\<lparr>free_threads := free_threads info + 1\<rparr>;
          info = (if free_threads info > MAX_THREADS
                  then info\<lparr>free_threads := MAX_THREADS\<rparr> else info);
          st = st\<lparr>servers := (servers st)(server_key \<mapsto> info)\<rparr>;
          st = st\<lparr>servers :=
            snd (update_dest_info E servers_map (servers st) server_key info BPF_ANY)\<rparr>
      in if \<not> is_queue_empty E st then serve_queue E st p
         else Some (XDP_DROP, st, p))"

definition backend_packet :: "lb_env \<Rightarrow> lb_state \<Rightarrow> bytes \<Rightarrow> nat \<Rightarrow> nat \<Rightarrow> lb_result" where
  "backend_packet E st p eth iph = do {
     ip_key \<leftarrow> ip_saddr p iph;
     (case server_key_of E st ip_key of
        (None, st) \<Rightarrow> Some (XDP_ABORTED, st, p)
      | (Some server_key, st) \<Rightarrow>
          (case servers st server_key of
             None \<Rightarrow> register_server E st server_key p eth iph
           | Some info \<Rightarrow>
               if saddr info = 0 then register_server E st server_key p eth iph
               else job_complete E st server_key info p))
   }"

section \<open>Packets from a client\<close>

definition client_packet ::
  "lb_env \<Rightarrow> lb_state \<Rightarrow> bytes \<Rightarrow> nat \<Rightarrow> nat \<Rightarrow> nat \<Rightarrow> nat \<Rightarrow> lb_result" where
  "client_packet E st p eth iph udph payload =
     (let selected_key = get_available_backend st
      in if selected_key = - 1 then
           if payload + 8 > length p then Some (XDP_ABORTED, st, p)
           else do {
             value \<leftarrow> ld64 p payload;
             let st = enqueue E st value;
             Some (XDP_ABORTED, st, p)
           }
         else send_to_backend E st selected_key p eth iph udph)"

section \<open>The program\<close>

definition load_balancer :: "lb_env \<Rightarrow> lb_state \<Rightarrow> bytes \<Rightarrow> lb_result" where
  "load_balancer E st p =
     (let eth = 0
      in if eth + ethhdr_size > length p then Some (XDP_ABORTED, st, p)
      else do {
        h_proto \<leftarrow> eth_h_proto p eth;
        if bpf_ntohs False h_proto \<noteq> ETH_P_IP then Some (XDP_PASS, st, p)
        else let iph = ethhdr_size
        in if ethhdr_size + iphdr_size > length p then Some (XDP_ABORTED, st, p)
        else do {
          protocol \<leftarrow> ip_protocol p iph;
          if protocol \<noteq> IPPROTO_UDP then Some (XDP_PASS, st, p)
          else let udph = ethhdr_size + iphdr_size
          in if ethhdr_size + iphdr_size + udphdr_size > length p
             then Some (XDP_ABORTED, st, p)
          else do {
            dest \<leftarrow> udp_dest p udph;
            if bpf_ntohs False dest \<noteq> 8080 then Some (XDP_PASS, st, p)
            else
              let payload = ethhdr_size + iphdr_size + udphdr_size;
                  payload_size = (of_nat (length p - payload) :: u32)
              in if payload_size = 1 then backend_packet E st p eth iph
                 else if payload_size = 8 then client_packet E st p eth iph udph payload
                 else Some (XDP_PASS, st, p)
          }
        }
      })"

text \<open>The program over the packets of an interface, in their order of arrival.\<close>

fun lb_run :: "lb_env \<Rightarrow> lb_state \<Rightarrow> bytes list \<Rightarrow> (xdp_action list \<times> lb_state) option" where
  "lb_run E st [] = Some ([], st)"
| "lb_run E st (p # ps) = do {
     (act, st, p') \<leftarrow> load_balancer E st p;
     (acts, st) \<leftarrow> lb_run E st ps;
     Some (act # acts, st)
   }"

section \<open>What the program relies on\<close>

locale lb_kernel =
  ipk: bpf_hash_map ip_to_key_map "update_u32 E" +
  srv: bpf_array_map servers_map "update_dest_info E" +
  cnt: bpf_array_map server_cnt_map "update_u16 E" +
  wq: bpf_queue_map queue_map "push_elem E" "peek_elem E" "pop_elem E" +
  tail: xdp_tail "adjust_tail E"
  for E :: lb_env

definition ref_env :: lb_env where
  "ref_env = \<lparr>update_u32 = ref_hash_update, update_dest_info = ref_array_update,
     update_u16 = ref_array_update, push_elem = ref_push, peek_elem = ref_peek,
     pop_elem = ref_pop, adjust_tail = ref_adjust_tail, stack_u64 = 0\<rparr>"

interpretation ref_lb: lb_kernel ref_env
  by (simp add: lb_kernel_def ref_env_def ref_hash_map ref_array_map ref_queue_map ref_xdp_tail)

end
