(* ===== verification/Lb_Forward.thy ===== *)
theory Lb_Forward
  imports Load_Balancer
begin

text \<open>
  The two steps every forwarded request goes through: \<open>get_available_backend\<close> chooses the server,
  \<open>send_to_backend\<close> rewrites the packet. First the choice as a maximum, then the packet field by
  field, and last the two checksums it leaves in the packet.
\<close>

section \<open>The chosen backend\<close>

definition available :: "lb_state \<Rightarrow> u32 \<Rightarrow> bool" where
  "available st k = (case servers st k of
     None \<Rightarrow> False | Some info \<Rightarrow> saddr info \<noteq> 0 \<and> 0 < free_threads info)"

definition load :: "lb_state \<Rightarrow> u32 \<Rightarrow> u16" where
  "load st k = (case servers st k of None \<Rightarrow> 0 | Some info \<Rightarrow> if saddr info = 0 then 0 else free_threads info)"

lemma available_load: "available st k \<longleftrightarrow> 0 < load st k"
  by (simp add: available_def load_def split: option.splits)

lemma consider_backend_load:
  "consider_backend st i (k, m) = (if load st i > m then (i, load st i) else (k, m))"
  by (auto simp: consider_backend_def load_def split: option.splits)

definition best_backend :: "lb_state \<Rightarrow> u32" where
  "best_backend st = (if load st 0 = 0 \<and> load st 1 = 0 \<and> load st 2 = 0 then - 1
     else if load st 1 \<le> load st 0 \<and> load st 2 \<le> load st 0 then 0
     else if load st 2 \<le> load st 1 then 1 else 2)"

lemma best_backend_cases:
  obtains (none) "best_backend st = - 1" "load st 0 = 0" "load st 1 = 0" "load st 2 = 0"
  | (some) "best_backend st \<in> {0, 1, 2}" "0 < load st (best_backend st)"
      "load st 0 \<le> load st (best_backend st)" "load st 1 \<le> load st (best_backend st)"
      "load st 2 \<le> load st (best_backend st)"
      "\<And>j. j < best_backend st \<Longrightarrow> load st j < load st (best_backend st)"
proof (cases "load st 0 = 0 \<and> load st 1 = 0 \<and> load st 2 = 0")
  case True
  then show ?thesis by (intro none) (simp_all add: best_backend_def)
next
  case False
  have below1: "j < 1 \<Longrightarrow> j = 0" and below2: "j < 2 \<Longrightarrow> j = 0 \<or> j = 1" for j :: u32
    by (simp_all add: word_less_nat_alt unat_eq_zero) (unat_arith)
  consider "load st 1 \<le> load st 0" "load st 2 \<le> load st 0"
    | "\<not> (load st 1 \<le> load st 0 \<and> load st 2 \<le> load st 0)" "load st 2 \<le> load st 1"
    | "\<not> (load st 1 \<le> load st 0 \<and> load st 2 \<le> load st 0)" "\<not> load st 2 \<le> load st 1"
    by blast
  then show ?thesis
  proof cases
    case 1
    with False have "0 < load st 0" by (auto simp: word_neq_0_conv)
    moreover have "best_backend st = 0" using 1 False by (auto simp: best_backend_def)
    ultimately show ?thesis using 1 by (intro some) simp_all
  next
    case 2
    then have "load st 0 < load st 1" by auto
    moreover from this have "best_backend st = 1" using 2 False by (auto simp: best_backend_def)
    ultimately show ?thesis using 2 by (intro some) (auto dest!: below1 intro: le_less_trans [OF word_zero_le])
  next
    case 3
    then have "load st 0 < load st 2" "load st 1 < load st 2" by auto
    moreover from this have "best_backend st = 2" using 3 False by (auto simp: best_backend_def)
    ultimately show ?thesis
      by (intro some) (auto dest!: below2 intro: le_less_trans [OF word_zero_le])
  qed
qed

lemma get_available_backend_eq: "get_available_backend st = best_backend st"
proof -
  have "fst (consider_backend st 2 (consider_backend st 1 (consider_backend st 0 (- 1, 0)))) =
      best_backend st"
    by (auto simp: consider_backend_load best_backend_def not_less word_neq_0_conv)
  moreover have "best_backend st = - 1 \<or> servers st (best_backend st) \<noteq> None"
    by (cases st rule: best_backend_cases) (auto simp: load_def split: option.splits)
  ultimately show ?thesis by (auto simp: get_available_backend_def Let_def split: option.splits)
qed

lemma get_available_backend_cong:
  "servers st = servers st' \<Longrightarrow> get_available_backend st = get_available_backend st'"
  by (simp add: get_available_backend_eq best_backend_def load_def)

lemma selected_backend:
  assumes "get_available_backend st = k" "k \<noteq> - 1"
  obtains info where "servers st k = Some info" "saddr info \<noteq> 0" "0 < free_threads info"
proof -
  have "0 < load st k"
    using assms by (cases st rule: best_backend_cases) (auto simp: get_available_backend_eq)
  then show ?thesis by (auto simp: load_def intro: that split: option.splits if_splits)
qed

section \<open>The rewritten packet\<close>

text \<open>
  \<open>send_to_backend\<close> in three stages, each an overwriting of header bytes: the addresses and
  lengths, the IP header checksum, the UDP checksum.
\<close>

definition rewrite_headers :: "dest_info \<Rightarrow> bytes \<Rightarrow> bytes" where
  "rewrite_headers info p =
     overwrite 38 (rev (le_bytes 2 (length p - 34)))
      (overwrite 16 (rev (le_bytes 2 (length p - 14)))
       (overwrite 0 (dmac info) (overwrite 6 (take 6 p)
        (overwrite 30 (le_bytes 4 (unat (saddr info)))
         (overwrite 26 (le_bytes 4 (unat (daddr info))) p)))))"

definition fill_check :: "nat \<Rightarrow> u16 \<Rightarrow> bytes \<Rightarrow> bytes" where
  "fill_check i c p = overwrite i (le_bytes 2 (unat c)) (overwrite i [0, 0] p)"

definition take_thread :: "dest_info \<Rightarrow> dest_info" where
  "take_thread info = info\<lparr>free_threads := free_threads info - 1\<rparr>"

lemma le_bytes_mod: "le_bytes n (v mod 256 ^ n) = le_bytes n v"
  using le_bytes_le_val [of "le_bytes n v"] by (simp add: le_val_le_bytes)

lemma htons_bytes: "le_bytes 2 (unat (bpf_htons c (of_nat n))) = rev (le_bytes 2 n)"
  using le_bytes_mod [of 2 n]
  by (simp add: bpf_htons_def bpf_swab16_eq le_bytes_bswap unat_of_nat take_bit_eq_mod)

lemma le_bytes_2_0: "le_bytes 2 0 = [0, 0]"
  by (simp add: numeral_2_eq_2)

lemma length_rewrite_headers [simp]:
  "42 \<le> length p \<Longrightarrow> length (dmac info) = 6 \<Longrightarrow> length (rewrite_headers info p) = length p"
  by (simp add: rewrite_headers_def mem_simps)

lemma length_fill_check [simp]: "i + 2 \<le> length p \<Longrightarrow> length (fill_check i c p) = length p"
  by (simp add: fill_check_def mem_simps)

lemma send_to_backend_eq:
  assumes "servers st k = Some info" "42 \<le> length p" "length (dmac info) = 6"
  obtains c u where
    "ip_checksum (overwrite 24 [0, 0] (rewrite_headers info p)) 14 20 = Some c"
    "udp_checksum (overwrite 40 [0, 0] (fill_check 24 c (rewrite_headers info p))) 14 34 = Some u"
    "send_to_backend E st k p 0 14 34 =
       Some (XDP_TX, st\<lparr>servers := snd (update_dest_info E servers_map
         ((servers st)(k \<mapsto> take_thread info)) k (take_thread info) BPF_ANY)\<rparr>,
         fill_check 40 u (fill_check 24 c (rewrite_headers info p)))"
proof -
  let ?p = "rewrite_headers info p"
  have len: "length ?p = length p" using assms by simp
  obtain c where c: "ip_checksum (overwrite 24 [0, 0] ?p) 14 20 = Some c"
    using ip_checksum_eq [of 14 20 "overwrite 24 [0, 0] ?p"] assms(2) len by (simp add: mem_simps)
  obtain u where u: "udp_checksum (overwrite 40 [0, 0] (fill_check 24 c ?p)) 14 34 = Some u"
    using udp_checksum_defined [of 14 "overwrite 40 [0, 0] (fill_check 24 c ?p)" 34] assms(2) len
    by (auto simp: mem_simps)
  have "take 6 (overwrite 30 x (overwrite 26 y p)) = take 6 p" if "length x = 4" "length y = 4" for x y
    using that assms(2) take_drop_overwrite_other [of 30 x "overwrite 26 y p" 0 6]
      take_drop_overwrite_other [of 26 y p 0 6] by (simp add: mem_simps)
  then have "send_to_backend E st k p 0 14 34 =
       Some (XDP_TX, st\<lparr>servers := snd (update_dest_info E servers_map
         ((servers st)(k \<mapsto> take_thread info)) k (take_thread info) BPF_ANY)\<rparr>,
         fill_check 40 u (fill_check 24 c ?p))"
    using assms c u
    by (simp add: send_to_backend_def field_writes field_reads st32_def st16_def mem_simps
        ldn_in_range htons_bytes le_bytes_2_0 take_thread_def fill_check_def rewrite_headers_def
        Let_def)
  with c u show ?thesis by (rule that)
qed

section \<open>What the receiver sees\<close>

text \<open>
  A forwarded packet carries the addresses of the chosen backend, the lengths of the packet as it
  now is, a valid IP header checksum, and everything else of the original: Ethernet type, version
  and type of service, identification to protocol, the UDP ports, and the payload.
\<close>

definition forwarded :: "bytes \<Rightarrow> dest_info \<Rightarrow> bytes \<Rightarrow> bool" where
  "forwarded p info p' \<longleftrightarrow>
     length p' = length p \<and>
     eth_h_source p' 0 = eth_h_dest p 0 \<and>
     eth_h_dest p' 0 = Some (dmac info) \<and>
     ip_saddr p' 14 = Some (daddr info) \<and>
     ip_daddr p' 14 = Some (saddr info) \<and>
     ldn p' 16 2 = Some (rev (le_bytes 2 (length p - 14))) \<and>
     ldn p' 38 2 = Some (rev (le_bytes 2 (length p - 34))) \<and>
     inet_checksum_ok (take 20 (drop 14 p')) \<and>
     ldn p' 12 4 = ldn p 12 4 \<and> ldn p' 18 6 = ldn p 18 6 \<and> ldn p' 34 4 = ldn p 34 4 \<and>
     drop 42 p' = drop 42 p"

text \<open>
  The UDP checksum of the packet as a receiver checks it, and the plain sum of the same words with
  the checksum field taken as zero.
\<close>

definition udp_checksum_ok :: "bytes \<Rightarrow> bool" where
  "udp_checksum_ok p = inet_checksum_ok (pseudo_header p 14 34 @ drop 34 p)"

definition udp_words_sum :: "bytes \<Rightarrow> nat" where
  "udp_words_sum p = le_sum (pseudo_header p 14 34 @ take 6 (drop 34 p) @ [0, 0] @ drop 42 p)"

lemma fill_check_same: "i + 2 \<le> length p \<Longrightarrow> ldn (fill_check i c p) i 2 = Some (le_bytes 2 (unat c))"
  by (simp add: fill_check_def mem_simps)

lemma fill_check_other [mem_simps]:
  "i + 2 \<le> length p \<Longrightarrow> j + n \<le> i \<or> i + 2 \<le> j \<Longrightarrow> ldn (fill_check i c p) j n = ldn p j n"
  by (simp add: fill_check_def mem_simps)

lemma drop_fill_check [mem_simps]:
  "i + 2 \<le> length p \<Longrightarrow> i + 2 \<le> j \<Longrightarrow> drop j (fill_check i c p) = drop j p"
  by (simp add: fill_check_def mem_simps)

lemma ip_header_valid:
  assumes "34 \<le> length p" "ip_checksum (overwrite 24 [0, 0] p) 14 20 = Some c"
  shows "inet_checksum_ok (take 20 (drop 14 (fill_check 24 c p)))"
proof (rule ip_checksum_fills_in [where p = "overwrite 24 [0, 0] p" and c = 10 and w = c])
  show "stn (overwrite 24 [0, 0] p) (14 + 10) [0, 0] = Some (overwrite 24 [0, 0] p)"
    using assms(1) by (simp add: mem_simps) (simp add: overwrite_def)
  show "st16 (overwrite 24 [0, 0] p) (14 + 10) c = Some (fill_check 24 c p)"
    using assms(1) by (simp add: st16_def mem_simps fill_check_def)
qed (use assms in \<open>simp_all add: mem_simps\<close>)

lemma header_stays:
  "42 \<le> length p \<Longrightarrow> take 20 (drop 14 (fill_check 40 u p)) = take 20 (drop 14 p)"
  by (simp add: fill_check_def mem_simps)

lemma forwarded_packet:
  assumes "42 \<le> length p" "length (dmac info) = 6"
    and c: "ip_checksum (overwrite 24 [0, 0] (rewrite_headers info p)) 14 20 = Some c"
  shows "forwarded p info (fill_check 40 u (fill_check 24 c (rewrite_headers info p)))"
proof -
  let ?p' = "fill_check 40 u (fill_check 24 c (rewrite_headers info p))"
  have keep: "ldn ?p' j n = ldn (rewrite_headers info p) j n"
    if "j + n \<le> 24 \<or> 26 \<le> j" "j + n \<le> 40 \<or> 42 \<le> j" for j n
    using that assms(1,2) by (simp add: mem_simps)
  have "inet_checksum_ok (take 20 (drop 14 ?p'))"
    using ip_header_valid [OF _ c] assms(1,2) by (simp add: header_stays)
  moreover have "eth_h_source ?p' 0 = eth_h_dest p 0" "eth_h_dest ?p' 0 = Some (dmac info)"
    using assms(1,2) ldn_in_range [of 0 6 p]
    by (simp_all add: field_reads keep rewrite_headers_def mem_simps)
  moreover have "ip_saddr ?p' 14 = Some (daddr info)" "ip_daddr ?p' 14 = Some (saddr info)"
    using assms(1,2)
    by (simp_all add: field_reads ld32_def keep rewrite_headers_def mem_simps of_nat_le_val_le_bytes)
  moreover have "ldn ?p' 16 2 = Some (rev (le_bytes 2 (length p - 14)))"
    "ldn ?p' 38 2 = Some (rev (le_bytes 2 (length p - 34)))"
    "ldn ?p' 12 4 = ldn p 12 4" "ldn ?p' 18 6 = ldn p 18 6" "ldn ?p' 34 4 = ldn p 34 4"
    using assms(1,2) by (simp_all add: keep rewrite_headers_def mem_simps)
  moreover have "drop 42 ?p' = drop 42 p"
    using assms(1,2) by (simp add: rewrite_headers_def mem_simps)
  ultimately show ?thesis using assms(1,2) by (simp add: forwarded_def)
qed

text \<open>
  The UDP checksum that \<open>udp_checksum\<close> leaves in the packet is the right one exactly when the sum
  of the words it covers makes no carry out of 16 bits: the loop adds with wrap-around and never
  adds the carries back.
\<close>

lemma pseudo_header_cong:
  assumes "ldn p 26 8 = ldn q 26 8" "ldn p 23 1 = ldn q 23 1" "ldn p 38 2 = ldn q 38 2"
    "42 \<le> length p" "42 \<le> length q"
  shows "pseudo_header p 14 34 = pseudo_header q 14 34"
proof -
  have "drop 23 p = p ! 23 # drop 24 p" "drop 23 q = q ! 23 # drop 24 q"
    using assms(4,5) Cons_nth_drop_Suc [of 23 p] Cons_nth_drop_Suc [of 23 q] by simp_all
  then have "p ! 23 = q ! 23" using assms(2,4,5) by (simp add: ldn_in_range)
  with assms show ?thesis by (simp add: pseudo_header_def ldn_in_range)
qed

lemma drop_overwrite_from [mem_simps]:
  "i \<le> j \<Longrightarrow> j + length bs \<le> length m \<Longrightarrow> drop i (overwrite j bs m) = overwrite (j - i) bs (drop i m)"
  by (simp add: overwrite_def drop_take)

lemma unat_not_of_nat: "unat (NOT (of_nat s :: u16)) = 65535 - s mod 65536"
proof -
  have "(of_nat (s mod 65536) :: u16) = of_nat s"
    by (simp add: word_of_nat_eq_iff take_bit_eq_mod)
  then have "NOT (of_nat s :: u16) = of_nat (65535 - s mod 65536)"
    by (simp add: not_eq_complement less_Suc_eq_le of_nat_diff)
  then show ?thesis by (simp only: unat_of_nat take_bit_eq_mod) simp
qed

lemma udp_checksum_fills_in:
  assumes len: "42 \<le> length p" "length p - 34 \<le> 1480"
    and u: "udp_checksum (overwrite 40 [0, 0] p) 14 34 = Some u"
    and p': "p' = fill_check 40 u p"
  shows "udp_checksum_ok p' \<longleftrightarrow> udp_words_sum p' < 65536"
proof -
  let ?q = "overwrite 40 [0, 0] p"
  have keep: "ldn p' j n = ldn p j n" "ldn ?q j n = ldn p j n" if "j + n \<le> 40" for j n
    using that len by (simp_all add: p' mem_simps)
  have lens: "length p' = length p" "length ?q = length p" using len by (simp_all add: p' mem_simps)
  define ph where "ph = pseudo_header p' 14 34"
  define h where "h = take 6 (drop 34 p')"
  define pl where "pl = drop 42 p'"
  have "pseudo_header ?q 14 34 = ph"
    unfolding ph_def by (rule pseudo_header_cong) (use len lens in \<open>simp_all add: keep\<close>)
  moreover have "drop 34 ?q = h @ [0, 0] @ pl"
    using len keep [of 34 6]
    by (simp add: drop_overwrite_from overwrite_def h_def pl_def p' mem_simps ldn_in_range)
  moreover have dp: "drop 34 p' = h @ le_bytes 2 (unat u) @ pl"
    using len keep(1) [of 34 6]
    by (simp add: drop_overwrite_from overwrite_def h_def pl_def p' fill_check_def mem_simps
        ldn_in_range)
  ultimately have u': "u = NOT (of_nat (le_sum (ph @ h @ [0, 0] @ pl)))"
    using udp_checksum_eq [of 14 ?q 34] u len lens by simp
  define s where "s = le_sum (ph @ h @ [0, 0] @ pl)"
  have "unat u = 65535 - s mod 65536"
    unfolding u' s_def [symmetric] by (rule unat_not_of_nat)
  moreover have ev: "even (length ph)" "even (length h)"
    using len lens by (simp_all add: ph_def h_def pseudo_header_def)
  ultimately have "le_sum (ph @ drop 34 p') = s + (65535 - s mod 65536)"
    unfolding dp s_def by (simp add: le_sum_append le_sum_le_bytes less_Suc_eq_le)
  moreover have "s < 65535 * 65536"
  proof -
    have "length (ph @ h @ [0, 0] @ pl) \<le> 1492"
      using len lens by (simp add: ph_def h_def pl_def pseudo_header_def)
    then show ?thesis using le_sum_bound [of "ph @ h @ [0, 0] @ pl"] by (simp add: s_def)
  qed
  moreover have "s + (65535 - s mod 65536) \<noteq> 0" by (cases "s = 0") auto
  moreover have "udp_words_sum p' = s" by (simp add: udp_words_sum_def s_def h_def pl_def ph_def)
  ultimately show ?thesis
    using csum_no_carry [of s]
    by (simp add: udp_checksum_ok_def inet_checksum_ok_le ph_def [symmetric])
qed

end
