(* ===== verification/Lb_Safety.thy ===== *)
theory Lb_Safety
  imports Lb_Forward
begin

text \<open>
  The load balancer never reads or writes outside the packet, whatever arrives, and keeps its maps
  in shape: array maps full, at most three addresses known, at most 100 requests waiting, and no
  backend ever credited with more than its five threads.
\<close>

section \<open>The walk over the headers\<close>

text \<open>How the program sorts packets, with the fields as the bytes on the wire.\<close>

lemma load_balancer_eq:
  "load_balancer E st p =
     (if length p < 14 then Some (XDP_ABORTED, st, p)
      else if ldn p 12 2 \<noteq> Some [8, 0] then Some (XDP_PASS, st, p)
      else if length p < 34 then Some (XDP_ABORTED, st, p)
      else if p ! 23 \<noteq> 17 then Some (XDP_PASS, st, p)
      else if length p < 42 then Some (XDP_ABORTED, st, p)
      else if ldn p 36 2 \<noteq> Some [31, 144] then Some (XDP_PASS, st, p)
      else if (of_nat (length p - 42) :: u32) = 1 then backend_packet E st p 0 14
      else if (of_nat (length p - 42) :: u32) = 8 then client_packet E st p 0 14 34 42
      else Some (XDP_PASS, st, p))"
proof -
  have proto: "eth_h_proto p 0 = Some (of_nat (le_val (take 2 (drop 12 p))))"
    "ldn p 12 2 = Some (take 2 (drop 12 p))" if "14 \<le> length p"
    using that by (simp_all add: eth_h_proto_def ld16_def ldn_def)
  have dest: "udp_dest p 34 = Some (of_nat (le_val (take 2 (drop 36 p))))"
    "ldn p 36 2 = Some (take 2 (drop 36 p))" if "42 \<le> length p"
    using that by (simp_all add: udp_dest_def ld16_def ldn_def)
  have prot: "ip_protocol p 14 = Some (p ! 23)" if "34 \<le> length p"
    using that by (simp add: ip_protocol_def ld8_def)
  show ?thesis
    using proto dest prot be16_eq_iff [of p 12 "take 2 (drop 12 p)" False ETH_P_IP]
      be16_eq_iff [of p 36 "take 2 (drop 36 p)" False 8080]
    by (simp add: load_balancer_def Let_def le_bytes_ports IPPROTO_UDP_def not_less)
qed

section \<open>The shape of the maps\<close>

definition info_ok :: "dest_info \<Rightarrow> bool" where
  "info_ok info \<longleftrightarrow> length (dmac info) = 6 \<and> free_threads info \<le> MAX_THREADS"

definition lb_inv :: "lb_state \<Rightarrow> bool" where
  "lb_inv st \<longleftrightarrow>
     dom (servers st) = array_keys servers_map \<and>
     (\<forall>info \<in> ran (servers st). info_ok info) \<and>
     dom (server_cnt st) = array_keys server_cnt_map \<and>
     finite (dom (ip_to_key st)) \<and> card (dom (ip_to_key st)) \<le> max_entries ip_to_key_map \<and>
     length (queue st) \<le> max_entries queue_map"

lemma lb_inv_init: "lb_inv lb_init"
  by (auto simp: lb_inv_def lb_init_def servers_map_def server_cnt_map_def ran_def info_ok_def
      zero_info_def split: if_splits)

lemma lb_inv_info: "lb_inv st \<Longrightarrow> servers st k = Some info \<Longrightarrow> info_ok info"
  by (auto simp: lb_inv_def ran_def)

lemma lb_inv_servers_key: "lb_inv st \<Longrightarrow> servers st k = Some info \<Longrightarrow> k \<in> array_keys servers_map"
  by (auto simp: lb_inv_def)

lemma lb_inv_cnt: "lb_inv st \<Longrightarrow> \<exists>c. server_cnt st 0 = Some c"
proof -
  assume "lb_inv st"
  moreover have "0 \<in> array_keys server_cnt_map" by (simp add: server_cnt_map_def)
  ultimately show ?thesis unfolding lb_inv_def by blast
qed

context lb_kernel
begin

text \<open>What each map operation does to a state in shape, and that it keeps the shape.\<close>

lemma servers_update:
  assumes "lb_inv st"
  shows "snd (update_dest_info E servers_map (servers st) k info BPF_ANY) =
    (if k \<in> array_keys servers_map then (servers st)(k \<mapsto> info) else servers st)"
  using assms by (intro srv.array_update) (simp add: lb_inv_def)

lemma servers_update_twice:
  assumes "lb_inv st" "servers st k = Some i"
  shows "snd (update_dest_info E servers_map ((servers st)(k \<mapsto> info)) k info BPF_ANY) =
    (servers st)(k \<mapsto> info)"
proof -
  have "dom ((servers st)(k \<mapsto> info)) = array_keys servers_map"
    using assms by (auto simp: lb_inv_def)
  from srv.array_update [OF this] show ?thesis
    using lb_inv_servers_key [OF assms] by (simp del: array_keys_iff)
qed

lemma cnt_update:
  assumes "dom m = array_keys server_cnt_map"
  shows "snd (update_u16 E server_cnt_map m 0 c BPF_ANY) = m(0 \<mapsto> c)"
  using cnt.array_update [OF assms, of 0 c] by (simp add: server_cnt_map_def)

lemma inv_servers:
  "lb_inv st \<Longrightarrow> info_ok info \<Longrightarrow> k \<in> array_keys servers_map \<Longrightarrow>
    lb_inv (st\<lparr>servers := (servers st)(k \<mapsto> info)\<rparr>)"
  by (auto simp: lb_inv_def ran_def split: if_splits)

lemma inv_cnt: "lb_inv st \<Longrightarrow> lb_inv (st\<lparr>server_cnt := (server_cnt st)(0 \<mapsto> c)\<rparr>)"
  by (auto simp: lb_inv_def server_cnt_map_def)

lemma inv_ip_to_key:
  "lb_inv st \<Longrightarrow>
    lb_inv (st\<lparr>ip_to_key := snd (update_u32 E ip_to_key_map (ip_to_key st) ip k BPF_ANY)\<rparr>)"
  by (simp add: lb_inv_def ipk.hash_update_bounded)

lemma inv_enqueue: "lb_inv st \<Longrightarrow> lb_inv (enqueue E st v)"
  by (simp add: lb_inv_def enqueue_def wq.push_bounded)

lemma dequeue_eq: "queue st = x # q \<Longrightarrow> dequeue E st = (x, st\<lparr>queue := q\<rparr>)"
  by (simp add: dequeue_def wq.pop_Cons)

lemma is_queue_empty_iff: "is_queue_empty E st \<longleftrightarrow> queue st = []"
  by (simp add: is_queue_empty_def wq.peek_status Let_def)

lemma inv_queue_tl: "lb_inv st \<Longrightarrow> queue st = x # q \<Longrightarrow> lb_inv (st\<lparr>queue := q\<rparr>)"
  by (simp add: lb_inv_def)

lemma server_key_of_eq:
  assumes "lb_inv st" "server_cnt st 0 = Some c"
  shows "server_key_of E st ip =
    (case ip_to_key st ip of
       Some k \<Rightarrow> (Some k, st)
     | None \<Rightarrow> (Some (ucast c), st\<lparr>ip_to_key :=
         snd (update_u32 E ip_to_key_map (ip_to_key st) ip (ucast c) BPF_ANY)\<rparr>))"
  using assms by (simp add: server_key_of_def Let_def split: option.splits)

end

section \<open>Every handler returns, and keeps the shape\<close>

definition handled :: "lb_result \<Rightarrow> bool" where
  "handled r = (case r of None \<Rightarrow> False | Some (act, st, p) \<Rightarrow> lb_inv st)"

lemma handled_simps [simp]: "handled (Some (act, st, p)) = lb_inv st" "\<not> handled None"
  by (simp_all add: handled_def)

definition give_thread :: "dest_info \<Rightarrow> dest_info" where
  "give_thread info = info\<lparr>free_threads :=
     (if free_threads info + 1 > MAX_THREADS then MAX_THREADS else free_threads info + 1)\<rparr>"

lemma info_ok_take: "info_ok info \<Longrightarrow> 0 < free_threads info \<Longrightarrow> info_ok (take_thread info)"
  unfolding info_ok_def take_thread_def by simp unat_arith

lemma info_ok_give: "info_ok info \<Longrightarrow> info_ok (give_thread info)"
  by (auto simp: info_ok_def give_thread_def not_less)

context lb_kernel
begin

lemma send_to_backend_spec:
  assumes "lb_inv st" "servers st k = Some info" "42 \<le> length p"
  obtains p' where
    "send_to_backend E st k p 0 14 34 =
       Some (XDP_TX, st\<lparr>servers := (servers st)(k \<mapsto> take_thread info)\<rparr>, p')"
    "forwarded p info p'"
    "length p - 34 \<le> 1480 \<Longrightarrow> udp_checksum_ok p' \<longleftrightarrow> udp_words_sum p' < 65536"
proof -
  have len: "length (dmac info) = 6" using lb_inv_info [OF assms(1,2)] by (simp add: info_ok_def)
  obtain c u where c: "ip_checksum (overwrite 24 [0, 0] (rewrite_headers info p)) 14 20 = Some c"
    and u: "udp_checksum (overwrite 40 [0, 0] (fill_check 24 c (rewrite_headers info p))) 14 34 = Some u"
    and s: "send_to_backend E st k p 0 14 34 =
       Some (XDP_TX, st\<lparr>servers := snd (update_dest_info E servers_map
         ((servers st)(k \<mapsto> take_thread info)) k (take_thread info) BPF_ANY)\<rparr>,
         fill_check 40 u (fill_check 24 c (rewrite_headers info p)))"
    using send_to_backend_eq [OF assms(2,3) len] by metis
  show ?thesis
  proof (rule that)
    show "send_to_backend E st k p 0 14 34 =
       Some (XDP_TX, st\<lparr>servers := (servers st)(k \<mapsto> take_thread info)\<rparr>,
         fill_check 40 u (fill_check 24 c (rewrite_headers info p)))"
      using s by (simp add: servers_update_twice [OF assms(1,2)])
    show "forwarded p info (fill_check 40 u (fill_check 24 c (rewrite_headers info p)))"
      by (rule forwarded_packet [OF assms(3) len c])
  qed (rule udp_checksum_fills_in [OF _ _ u refl], use assms(3) len in simp_all)
qed

lemma send_handled:
  assumes "lb_inv st" "get_available_backend st = k" "k \<noteq> - 1" "42 \<le> length p"
  shows "handled (send_to_backend E st k p 0 14 34)"
proof -
  obtain info where info: "servers st k = Some info" "0 < free_threads info"
    using assms(2,3) by (rule selected_backend)
  obtain p' where "send_to_backend E st k p 0 14 34 =
       Some (XDP_TX, st\<lparr>servers := (servers st)(k \<mapsto> take_thread info)\<rparr>, p')"
    using send_to_backend_spec [OF assms(1) info(1) assms(4)] by metis
  moreover have "lb_inv (st\<lparr>servers := (servers st)(k \<mapsto> take_thread info)\<rparr>)"
    by (rule inv_servers [OF assms(1) info_ok_take])
      (use lb_inv_info lb_inv_servers_key assms(1) info in blast)+
  ultimately show ?thesis by simp
qed

lemma register_handled:
  assumes "lb_inv st" "42 \<le> length p"
  shows "handled (register_server E st k p 0 14)"
proof -
  obtain c where c: "server_cnt st 0 = Some c" using lb_inv_cnt [OF assms(1)] by blast
  let ?info = "\<lambda>s d. \<lparr>saddr = s, daddr = d, dmac = take 6 (drop 6 p), free_threads = MAX_THREADS\<rparr>"
  have "info_ok (?info s d)" for s d using assms(2) by (simp add: info_ok_def)
  then have "lb_inv (st\<lparr>servers := snd (update_dest_info E servers_map (servers st) k (?info s d) BPF_ANY)\<rparr>)" for s d
    using assms(1) by (simp add: servers_update inv_servers)
  note inv = inv_cnt [OF this]
  have "dom ((server_cnt st)(0 \<mapsto> c')) = array_keys server_cnt_map" for c'
    using inv_cnt [OF assms(1), of c'] by (simp add: lb_inv_def)
  note upd = cnt_update [OF this]
  show ?thesis
    using inv c assms(2)
    by (simp add: register_server_def field_reads ld32_def ldn_def upd)
qed

lemma serve_queue_handled:
  assumes "lb_inv st" "queue st \<noteq> []" "42 \<le> length p"
  shows "handled (serve_queue E st p)"
proof -
  define q where "q = snd (adjust_tail E p 7)"
  obtain x xs where xs: "queue st = x # xs" using assms(2) by (cases "queue st") auto
  have inv: "lb_inv (st\<lparr>queue := xs\<rparr>)" using assms(1) xs by (rule inv_queue_tl)
  have sel: "get_available_backend (st\<lparr>queue := xs\<rparr>) = get_available_backend st"
    by (rule get_available_backend_cong) simp
  have "handled (send_to_backend E (st\<lparr>queue := xs\<rparr>) (get_available_backend st) q' 0 14 34)"
    if "get_available_backend st \<noteq> - 1" "42 \<le> length q'" for q'
    using inv sel that by (rule send_handled)
  then show ?thesis
    using assms(1) inv
    by (simp add: serve_queue_def Let_def q_def [symmetric] dequeue_eq [OF xs] st64_def
        stn_overwrite length_overwrite not_less)
qed

lemma complete_handled:
  assumes "lb_inv st" "servers st k = Some info" "42 \<le> length p"
  shows "handled (job_complete E st k info p)"
proof -
  let ?st = "st\<lparr>servers := (servers st)(k \<mapsto> give_thread info)\<rparr>"
  have inv: "lb_inv ?st"
    using assms(1,2) by (intro inv_servers info_ok_give lb_inv_info lb_inv_servers_key)
  have "job_complete E st k info p =
      (if \<not> is_queue_empty E ?st then serve_queue E ?st p else Some (XDP_DROP, ?st, p))"
    using servers_update_twice [OF assms(1,2)]
    by (simp add: job_complete_def Let_def give_thread_def)
  then show ?thesis
    using inv serve_queue_handled [OF inv _ assms(3)] by (simp add: is_queue_empty_iff)
qed

lemma backend_handled:
  assumes "lb_inv st" "42 \<le> length p"
  shows "handled (backend_packet E st p 0 14)"
proof -
  obtain c where c: "server_cnt st 0 = Some c" using lb_inv_cnt [OF assms(1)] by blast
  obtain ip where ip: "ip_saddr p 14 = Some ip" using assms(2) by (simp add: ip_saddr_def ld32_def ldn_def)
  obtain k st' where k: "server_key_of E st ip = (Some k, st')" and inv: "lb_inv st'"
    using server_key_of_eq [OF assms(1) c, of ip] assms(1) inv_ip_to_key
    by (auto split: option.splits)
  show ?thesis
    using register_handled [OF inv assms(2)] complete_handled [OF inv _ assms(2)]
    by (simp add: backend_packet_def ip k split: option.splits)
qed

lemma client_handled:
  assumes "lb_inv st" "42 \<le> length p"
  shows "handled (client_packet E st p 0 14 34 42)"
  using assms send_handled [OF assms(1) refl _ assms(2)] inv_enqueue
  by (auto simp: client_packet_def Let_def ld64_def ldn_def)

lemma load_balancer_handled: "lb_inv st \<Longrightarrow> handled (load_balancer E st p)"
  by (auto simp: load_balancer_eq backend_handled client_handled)

lemma lb_run_handled:
  "lb_inv st \<Longrightarrow> \<exists>acts st'. lb_run E st ps = Some (acts, st') \<and> length acts = length ps \<and> lb_inv st'"
proof (induction ps arbitrary: st)
  case Nil
  then show ?case by simp
next
  case (Cons p ps)
  obtain act st' p' where "load_balancer E st p = Some (act, st', p')" "lb_inv st'"
    using load_balancer_handled [OF Cons.prems, of p]
    by (auto simp: handled_def split: option.splits)
  with Cons.IH [of st'] show ?case by auto
qed

end

end
