(* ===== verification/Lb_Correct.thy ===== *)
theory Lb_Correct
  imports Lb_Safety
begin

text \<open>
  What one packet does, case by case: a request from a client, a completion or a registration from
  a backend, and everything else. The lemmas of the \<open>lb_kernel\<close> context give the exact next state;
  the properties at the end of the file are stated over \<open>load_balancer\<close>.
\<close>

section \<open>The three kinds of packet\<close>

definition client_request :: "bytes \<Rightarrow> bool" where
  "client_request p \<longleftrightarrow> is_udp_8080 p \<and> length p = 50"

definition backend_message :: "bytes \<Rightarrow> bool" where
  "backend_message p \<longleftrightarrow> is_udp_8080 p \<and> length p = 43"

definition request_value :: "bytes \<Rightarrow> u64" where
  "request_value p = of_nat (le_val (take 8 (drop 42 p)))"

lemma load_balancer_client:
  "client_request p \<Longrightarrow> load_balancer E st p = client_packet E st p 0 14 34 42"
  by (simp add: client_request_def is_udp_8080_def load_balancer_eq)

lemma load_balancer_backend:
  "backend_message p \<Longrightarrow> load_balancer E st p = backend_packet E st p 0 14"
  by (simp add: backend_message_def is_udp_8080_def load_balancer_eq)

lemma request_value_bytes:
  "client_request p \<Longrightarrow> le_bytes 8 (unat (request_value p)) = drop 42 p"
  using le_bytes_le_val [of "drop 42 p"] unat_of_nat_le_val [of "drop 42 p", where 'a = 64]
  by (simp add: client_request_def request_value_def)

definition sender :: "bytes \<Rightarrow> u32" where
  "sender p = of_nat (le_val (take 4 (drop 26 p)))"

definition receiver :: "bytes \<Rightarrow> u32" where
  "receiver p = of_nat (le_val (take 4 (drop 30 p)))"

lemma ip_addresses:
  "34 \<le> length p \<Longrightarrow> ip_saddr p 14 = Some (sender p)"
  "34 \<le> length p \<Longrightarrow> ip_daddr p 14 = Some (receiver p)"
  by (simp_all add: ip_saddr_def ip_daddr_def ld32_def ldn_def sender_def receiver_def)

definition new_server :: "bytes \<Rightarrow> dest_info" where
  "new_server p = \<lparr>saddr = sender p, daddr = receiver p, dmac = take 6 (drop 6 p),
     free_threads = MAX_THREADS\<rparr>"

context lb_kernel
begin

section \<open>Next states\<close>

lemma client_sent:
  assumes "lb_inv st" "client_request p" "get_available_backend st = k" "k \<noteq> - 1"
  obtains info p' where "servers st k = Some info" "0 < free_threads info" "saddr info \<noteq> 0"
    "load_balancer E st p =
       Some (XDP_TX, st\<lparr>servers := (servers st)(k \<mapsto> take_thread info)\<rparr>, p')"
    "forwarded p info p'" "udp_checksum_ok p' \<longleftrightarrow> udp_words_sum p' < 65536"
proof -
  obtain info where info: "servers st k = Some info" "saddr info \<noteq> 0" "0 < free_threads info"
    using assms(3,4) by (rule selected_backend)
  have len: "42 \<le> length p" "length p - 34 \<le> 1480"
    using assms(2) by (simp_all add: client_request_def)
  have "load_balancer E st p = send_to_backend E st k p 0 14 34"
    using assms by (simp add: load_balancer_client client_packet_def Let_def)
  with send_to_backend_spec [OF assms(1) info(1) len(1)] len(2) info that show ?thesis by metis
qed

lemma client_queued:
  assumes "client_request p" "get_available_backend st = - 1"
  shows "load_balancer E st p = Some (XDP_ABORTED,
    st\<lparr>queue := (if length (queue st) < max_entries queue_map
                then queue st @ [request_value p] else queue st)\<rparr>, p)"
  using assms
  by (simp add: load_balancer_client client_packet_def client_request_def request_value_def ld64_def
      ldn_def enqueue_def wq.push_result)

lemma register_eq:
  assumes "lb_inv st" "42 \<le> length p" "server_cnt st 0 = Some c"
  shows "register_server E st k p 0 14 = Some (XDP_DROP,
    st\<lparr>servers := (if k \<in> array_keys servers_map then (servers st)(k \<mapsto> new_server p) else servers st),
       server_cnt := (server_cnt st)(0 \<mapsto> c + 1)\<rparr>, p)"
proof -
  have "dom ((server_cnt st)(0 \<mapsto> c + 1)) = array_keys server_cnt_map"
    using inv_cnt [OF assms(1), of "c + 1"] by (simp add: lb_inv_def)
  note upd = cnt_update [OF this]
  have "eth_h_source p 0 = Some (take 6 (drop 6 p))" using assms(2) by (simp add: eth_h_source_def ldn_def)
  with assms show ?thesis
    by (simp add: register_server_def ip_addresses upd Let_def servers_update new_server_def
        del: array_keys_iff)
qed

lemma job_complete_eq:
  assumes "lb_inv st" "servers st k = Some info"
  shows "job_complete E st k info p =
    (let st' = st\<lparr>servers := (servers st)(k \<mapsto> give_thread info)\<rparr>
     in if queue st = [] then Some (XDP_DROP, st', p) else serve_queue E st' p)"
  using servers_update_twice [OF assms]
  by (simp add: job_complete_def Let_def give_thread_def is_queue_empty_iff)

lemma serve_queue_sent:
  assumes "lb_inv st" "queue st = x # xs" "length p = 43" "fst (adjust_tail E p 7) = 0"
    and k: "get_available_backend st = k" "k \<noteq> - 1"
  obtains info q p' where "servers st k = Some info" "0 < free_threads info" "saddr info \<noteq> 0"
    "serve_queue E st p =
       Some (XDP_TX, st\<lparr>queue := xs, servers := (servers st)(k \<mapsto> take_thread info)\<rparr>, p')"
    "length q = 50" "take 42 q = take 42 p" "forwarded q info p'"
    "drop 42 p' = le_bytes 8 (unat x)" "udp_checksum_ok p' \<longleftrightarrow> udp_words_sum p' < 65536"
proof -
  define t where "t = snd (adjust_tail E p 7)"
  have t: "length t = 50" "take 43 t = p"
    using tail.adjust_length [of 7 p] tail.adjust_prefix [of 7 p] assms(3,4) by (simp_all add: t_def)
  have len8: "length (le_bytes 8 (unat x)) = 8" by simp
  define q where "q = overwrite 42 (le_bytes 8 (unat x)) t"
  have st: "st64 t 42 x = Some q"
    using t(1) by (simp add: st64_def q_def mem_simps)
  have q: "length q = 50" "drop 42 q = le_bytes 8 (unat x)"
    using t(1) by (simp_all add: q_def mem_simps overwrite_def)
  have "take 42 q = take 42 t" using t(1) by (simp add: q_def overwrite_def)
  also have "\<dots> = take 42 p" using arg_cong [OF t(2), of "take 42"] by (simp add: min_def)
  finally have q42: "take 42 q = take 42 p" .
  obtain info where info: "servers st k = Some info" "saddr info \<noteq> 0" "0 < free_threads info"
    using k by (rule selected_backend)
  have inv: "lb_inv (st\<lparr>queue := xs\<rparr>)" using assms(1,2) by (rule inv_queue_tl)
  have "serve_queue E st p = send_to_backend E (st\<lparr>queue := xs\<rparr>) k q 0 14 34"
    using k t(1) st by (simp add: serve_queue_def Let_def t_def [symmetric] dequeue_eq [OF assms(2)])
  moreover obtain p' where "send_to_backend E (st\<lparr>queue := xs\<rparr>) k q 0 14 34 = Some (XDP_TX,
      st\<lparr>queue := xs, servers := (servers st)(k \<mapsto> take_thread info)\<rparr>, p')" "forwarded q info p'"
      "udp_checksum_ok p' \<longleftrightarrow> udp_words_sum p' < 65536"
    using send_to_backend_spec [OF inv, of k info q] info q(1) by auto
  ultimately show ?thesis
    using that info q q42 by (simp add: forwarded_def)
qed

lemma backend_packet_eq:
  assumes "lb_inv st" "42 \<le> length p" "server_cnt st 0 = Some c"
  shows "backend_packet E st p 0 14 =
    (case ip_to_key st (sender p) of
       None \<Rightarrow>
         (let st' = st\<lparr>ip_to_key := snd (update_u32 E ip_to_key_map (ip_to_key st) (sender p)
                        (ucast c) BPF_ANY)\<rparr>
          in case servers st (ucast c) of
               None \<Rightarrow> register_server E st' (ucast c) p 0 14
             | Some info \<Rightarrow> if saddr info = 0 then register_server E st' (ucast c) p 0 14
                            else job_complete E st' (ucast c) info p)
     | Some k \<Rightarrow>
         (case servers st k of
            None \<Rightarrow> register_server E st k p 0 14
          | Some info \<Rightarrow> if saddr info = 0 then register_server E st k p 0 14
                         else job_complete E st k info p))"
  using assms
  by (simp add: backend_packet_def ip_addresses server_key_of_eq Let_def split: option.splits)

end

section \<open>Completions, registrations, strangers\<close>

lemma load_best: "unat k < 3 \<Longrightarrow> 0 < load st k \<Longrightarrow> get_available_backend st \<noteq> - 1"
proof
  assume k: "unat k < 3" "0 < load st k" and "get_available_backend st = - 1"
  then have "load st 0 = 0 \<and> load st 1 = 0 \<and> load st 2 = 0"
    by (cases st rule: best_backend_cases) (auto simp: get_available_backend_eq)
  moreover have "k = 0 \<or> k = 1 \<or> k = 2"
    using k(1) by (simp add: word_unat_eq_iff) arith
  ultimately show False using k(2) by auto
qed

lemma give_thread_positive: "info_ok info \<Longrightarrow> 0 < free_threads (give_thread info)"
proof -
  assume "info_ok info"
  then have "unat (free_threads info) \<le> 5" by (simp add: info_ok_def word_le_nat_alt)
  then have "unat (free_threads info + 1) = unat (free_threads info) + 1"
    by (simp add: unat_word_ariths)
  then have "0 < free_threads info + 1" by (simp add: word_less_nat_alt)
  then show ?thesis by (simp add: give_thread_def)
qed

lemma servers_map_keys: "k \<in> array_keys servers_map \<longleftrightarrow> unat k < 3"
  by (simp add: servers_map_def)

context lb_kernel
begin

lemma tail_stays: "fst (adjust_tail E p 7) \<noteq> 0 \<Longrightarrow> snd (adjust_tail E p 7) = p"
  using tail.adjust_result [of 7 p] by (cases "adjust_tail E p 7") auto

lemma completion_available:
  assumes "lb_inv st" "servers st k = Some info" "saddr info \<noteq> 0"
  shows "get_available_backend (st\<lparr>servers := (servers st)(k \<mapsto> give_thread info)\<rparr>) \<noteq> - 1"
proof (rule load_best)
  show "unat k < 3" using lb_inv_servers_key [OF assms(1,2)] by (simp only: servers_map_keys)
  show "0 < load (st\<lparr>servers := (servers st)(k \<mapsto> give_thread info)\<rparr>) k"
    using give_thread_positive [OF lb_inv_info [OF assms(1,2)]] assms(3)
    by (simp add: load_def give_thread_def)
qed

lemma completion_eq:
  assumes "lb_inv st" "backend_message p" "ip_to_key st (sender p) = Some k"
    "servers st k = Some info" "saddr info \<noteq> 0"
  shows "load_balancer E st p =
    (let st' = st\<lparr>servers := (servers st)(k \<mapsto> give_thread info)\<rparr>
     in if queue st = [] then Some (XDP_DROP, st', p) else serve_queue E st' p)"
proof -
  obtain c where "server_cnt st 0 = Some c" using lb_inv_cnt [OF assms(1)] by blast
  moreover have "42 \<le> length p" using assms(2) by (simp add: backend_message_def)
  ultimately show ?thesis
    using assms(3-5) job_complete_eq [OF assms(1,4)]
    by (simp add: load_balancer_backend [OF assms(2)] backend_packet_eq [OF assms(1)])
qed

lemma registration_eq:
  assumes "lb_inv st" "backend_message p" "ip_to_key st (sender p) = None"
    "card (dom (ip_to_key st)) < 3" "server_cnt st 0 = Some c" "unat c < 3"
    "servers st (ucast c) = Some info" "saddr info = 0"
  shows "load_balancer E st p = Some (XDP_DROP,
    st\<lparr>ip_to_key := (ip_to_key st)(sender p \<mapsto> ucast c),
       servers := (servers st)(ucast c \<mapsto> new_server p),
       server_cnt := (server_cnt st)(0 \<mapsto> c + 1)\<rparr>, p)"
proof -
  have len: "42 \<le> length p" using assms(2) by (simp add: backend_message_def)
  have key: "ucast c \<in> array_keys servers_map" using lb_inv_servers_key [OF assms(1,7)] .
  have "snd (update_u32 E ip_to_key_map (ip_to_key st) (sender p) (ucast c) BPF_ANY) =
      (ip_to_key st)(sender p \<mapsto> ucast c)"
    using ipk.hash_update assms(1,4) by (simp add: lb_inv_def ip_to_key_map_def)
  then have ins: "lb_inv (st\<lparr>ip_to_key := (ip_to_key st)(sender p \<mapsto> ucast c)\<rparr>)"
    "snd (update_u32 E ip_to_key_map (ip_to_key st) (sender p) (ucast c) BPF_ANY) =
      (ip_to_key st)(sender p \<mapsto> ucast c)"
    using inv_ip_to_key [OF assms(1), of "sender p" "ucast c"] by simp_all
  show ?thesis
    using load_balancer_backend [OF assms(2)] backend_packet_eq [OF assms(1) len assms(5)] assms(3,5,7,8) register_eq [OF ins(1) len, of c "ucast c"] key
    by (simp add: ins(2) del: array_keys_iff)
qed

lemma ip_to_key_full:
  assumes "lb_inv st" "ip_to_key st ip = None" "card (dom (ip_to_key st)) = 3"
  shows "snd (update_u32 E ip_to_key_map (ip_to_key st) ip k BPF_ANY) = ip_to_key st"
  using ipk.hash_update assms by (auto simp: lb_inv_def ip_to_key_map_def domIff)

lemma stranger_eq:
  assumes "lb_inv st" "backend_message p" "ip_to_key st (sender p) = None"
    "card (dom (ip_to_key st)) = 3" "server_cnt st 0 = Some c" "3 \<le> unat c"
  shows "load_balancer E st p =
    Some (XDP_DROP, st\<lparr>server_cnt := (server_cnt st)(0 \<mapsto> c + 1)\<rparr>, p)"
proof -
  have len: "42 \<le> length p" using assms(2) by (simp add: backend_message_def)
  have key: "ucast c \<notin> array_keys servers_map"
    using assms(6) by (simp add: servers_map_def unsigned_ucast_eq take_bit_nat_eq_self
        order_less_trans [OF unsigned_less])
  then have none: "servers st (ucast c) = None"
    using assms(1) by (auto simp: lb_inv_def simp del: array_keys_iff)
  have "snd (update_u32 E ip_to_key_map (ip_to_key st) (sender p) (ucast c) BPF_ANY) = ip_to_key st"
    by (rule ip_to_key_full [OF assms(1,3,4)])
  then show ?thesis
    using load_balancer_backend [OF assms(2)] backend_packet_eq [OF assms(1) len assms(5)] assms(3) none register_eq [OF assms(1) len assms(5)] key
    by (simp del: array_keys_iff)
qed

text \<open>
  A host that is not one of the three known backends only makes the counter grow: after enough of
  its messages the counter is back at zero.
\<close>

lemma stranger_run:
  assumes "lb_inv st" "backend_message p" "ip_to_key st (sender p) = None"
    "card (dom (ip_to_key st)) = 3" "server_cnt st 0 = Some c" "3 \<le> unat c"
    "unat c + n \<le> 65536"
  shows "\<exists>acts. lb_run E st (replicate n p) =
    Some (acts, st\<lparr>server_cnt := (server_cnt st)(0 \<mapsto> c + of_nat n)\<rparr>)"
  using assms
proof (induction n arbitrary: st c)
  case 0
  have eq: "st\<lparr>server_cnt := (server_cnt st)(0 \<mapsto> c + of_nat 0)\<rparr> = st"
    using "0.prems"(5) by (cases st) (simp add: fun_upd_idem)
  show ?case
    by (rule exI [of _ "[]"]) (simp only: lb_run.simps replicate_0 eq)
next
  case (Suc n)
  let ?st = "st\<lparr>server_cnt := (server_cnt st)(0 \<mapsto> c + 1)\<rparr>"
  have step: "load_balancer E st p = Some (XDP_DROP, ?st, p)"
    using Suc.prems(1-6) by (rule stranger_eq)
  show ?case
  proof (cases n)
    case 0
    with step have "lb_run E st (replicate (Suc n) p) = Some ([XDP_DROP], ?st)" by simp
    moreover have "c + of_nat (Suc n) = c + 1" using 0 by simp
    ultimately show ?thesis by (intro exI [of _ "[XDP_DROP]"]) (simp only:)
  next
    case (Suc m)
    have "unat c + 1 < 2 ^ 16" using Suc.prems(7) Suc by simp
    then have "unat (c + 1) = unat c + 1"
      by (simp add: unat_word_ariths)
    then have "\<exists>acts. lb_run E ?st (replicate n p) =
        Some (acts, ?st\<lparr>server_cnt := (server_cnt ?st)(0 \<mapsto> (c + 1) + of_nat n)\<rparr>)"
      using Suc.prems inv_cnt [OF Suc.prems(1)] by (intro Suc.IH) simp_all
    then obtain acts where "lb_run E ?st (replicate n p) =
        Some (acts, st\<lparr>server_cnt := (server_cnt st)(0 \<mapsto> c + of_nat (Suc n))\<rparr>)"
      by (auto simp: add.assoc)
    with step have "lb_run E st (replicate (Suc n) p) = Some (XDP_DROP # acts,
        st\<lparr>server_cnt := (server_cnt st)(0 \<mapsto> c + of_nat (Suc n))\<rparr>)"
      by (simp only: replicate_Suc lb_run.simps bind.simps prod.case)
    then show ?thesis by blast
  qed
qed

end

end
