(* ===== verification/Lb_Registry.thy ===== *)
theory Lb_Registry
  imports Lb_Correct
begin

text \<open>
  Who is who: as long as the server counter has not wrapped around, the key stored for an address
  is the slot that holds this address, keys are handed out once, and slots not handed out are
  empty. Requests and completions leave the addresses alone; only a registration changes them.
\<close>

definition reg_inv :: "lb_state \<Rightarrow> bool" where
  "reg_inv st \<longleftrightarrow> (\<exists>c. server_cnt st 0 = Some c \<and>
     (\<forall>ip k. ip_to_key st ip = Some k \<longrightarrow> unat k < unat c \<and>
        (\<forall>info. servers st k = Some info \<longrightarrow> saddr info = ip)) \<and>
     (\<forall>k info. servers st k = Some info \<longrightarrow> unat c \<le> unat k \<longrightarrow> saddr info = 0))"

lemma reg_invI:
  assumes "server_cnt st 0 = Some c"
    "\<And>ip k. ip_to_key st ip = Some k \<Longrightarrow> unat k < unat c"
    "\<And>ip k info. ip_to_key st ip = Some k \<Longrightarrow> servers st k = Some info \<Longrightarrow> saddr info = ip"
    "\<And>k info. servers st k = Some info \<Longrightarrow> unat c \<le> unat k \<Longrightarrow> saddr info = 0"
  shows "reg_inv st"
  using assms unfolding reg_inv_def by blast

lemma reg_invD:
  assumes "reg_inv st" "server_cnt st 0 = Some c"
  shows "ip_to_key st ip = Some k \<Longrightarrow> unat k < unat c"
    "ip_to_key st ip = Some k \<Longrightarrow> servers st k = Some info \<Longrightarrow> saddr info = ip"
    "servers st k = Some info \<Longrightarrow> unat c \<le> unat k \<Longrightarrow> saddr info = 0"
  using assms by (auto simp: reg_inv_def)

lemma reg_inv_init: "reg_inv lb_init"
  by (rule reg_invI [of _ 0]) (auto simp: lb_init_def zero_info_def split: if_splits)

text \<open>Steps that keep the addresses.\<close>

definition same_addresses :: "lb_state \<Rightarrow> lb_state \<Rightarrow> bool" where
  "same_addresses st st' \<longleftrightarrow> ip_to_key st' = ip_to_key st \<and> server_cnt st' = server_cnt st \<and>
     (\<forall>k. map_option saddr (servers st' k) = map_option saddr (servers st k))"

lemma same_addresses_refl [simp]: "same_addresses st st"
  by (simp add: same_addresses_def)

lemma same_addresses_trans: "same_addresses st st' \<Longrightarrow> same_addresses st' st'' \<Longrightarrow> same_addresses st st''"
  by (simp add: same_addresses_def)

lemma same_addresses_reg_inv:
  assumes same: "same_addresses st st'" and inv: "reg_inv st"
  shows "reg_inv st'"
proof -
  obtain c where c: "server_cnt st 0 = Some c" using inv by (auto simp: reg_inv_def)
  have eq: "ip_to_key st' = ip_to_key st" "server_cnt st' 0 = Some c"
    using same c by (simp_all add: same_addresses_def)
  have info: "\<exists>i. servers st k = Some i \<and> saddr i = saddr info" if "servers st' k = Some info" for k info
  proof -
    have "map_option saddr (servers st k) = Some (saddr info)"
      using same that by (metis same_addresses_def option.simps(9))
    then show ?thesis by auto
  qed
  show ?thesis
  proof (rule reg_invI [OF eq(2)])
    fix ip k assume "ip_to_key st' ip = Some k"
    then show "unat k < unat c" using reg_invD(1) [OF inv c] eq(1) by simp
  next
    fix ip k i assume "ip_to_key st' ip = Some k" "servers st' k = Some i"
    then show "saddr i = ip" using reg_invD(2) [OF inv c, of ip k] info [of k i] eq(1) by auto
  next
    fix k i assume "servers st' k = Some i" "unat c \<le> unat k"
    then show "saddr i = 0" using reg_invD(3) [OF inv c, of k] info [of k i] by auto
  qed
qed

lemma same_addresses_servers:
  "servers st k = Some i \<Longrightarrow> saddr i' = saddr i \<Longrightarrow>
    same_addresses st (st\<lparr>servers := (servers st)(k \<mapsto> i')\<rparr>)"
  by (simp add: same_addresses_def)

lemma same_addresses_queue: "same_addresses st (st\<lparr>queue := q\<rparr>)"
  by (simp add: same_addresses_def)

lemma saddr_threads [simp]: "saddr (take_thread i) = saddr i" "saddr (give_thread i) = saddr i"
  by (simp_all add: take_thread_def give_thread_def)

context lb_kernel
begin

lemma send_addresses:
  assumes "lb_inv st" "get_available_backend st = k" "k \<noteq> - 1" "42 \<le> length p"
    "send_to_backend E st k p 0 14 34 = Some (act, st', p')"
  shows "same_addresses st st'"
proof -
  obtain info where info: "servers st k = Some info" using assms(2,3) by (rule selected_backend)
  obtain q where "send_to_backend E st k p 0 14 34 =
       Some (XDP_TX, st\<lparr>servers := (servers st)(k \<mapsto> take_thread info)\<rparr>, q)"
    using send_to_backend_spec [OF assms(1) info assms(4)] by metis
  with assms(5) info show ?thesis by (auto intro!: same_addresses_servers)
qed

lemma serve_queue_addresses:
  assumes "lb_inv st" "queue st = x # xs" "serve_queue E st p = Some (act, st', p')"
  shows "same_addresses st st'"
proof -
  define q where "q = snd (adjust_tail E p 7)"
  define k where "k = get_available_backend st"
  have inv: "lb_inv (st\<lparr>queue := xs\<rparr>)" using assms(1,2) by (rule inv_queue_tl)
  have sel: "get_available_backend (st\<lparr>queue := xs\<rparr>) = k"
    unfolding k_def by (rule get_available_backend_cong) simp
  consider "st' = st" | "st' = st\<lparr>queue := xs\<rparr>"
    | t where "k \<noteq> - 1" "42 \<le> length t"
      "send_to_backend E (st\<lparr>queue := xs\<rparr>) k t 0 14 34 = Some (act, st', p')"
  proof -
    assume 1: "st' = st \<Longrightarrow> thesis" and 2: "st' = st\<lparr>queue := xs\<rparr> \<Longrightarrow> thesis"
      and 3: "\<And>t. k \<noteq> - 1 \<Longrightarrow> 42 \<le> length t \<Longrightarrow>
        send_to_backend E (st\<lparr>queue := xs\<rparr>) k t 0 14 34 = Some (act, st', p') \<Longrightarrow> thesis"
    show thesis
      using assms(3) 1 2 3 [of "overwrite 42 (le_bytes 8 (unat x)) q"]
      unfolding serve_queue_def Let_def q_def [symmetric] k_def [symmetric]
        dequeue_eq [OF assms(2)] prod.case
      by (auto simp: st64_def mem_simps split: if_splits)
  qed
  then show ?thesis
  proof cases
    case 3
    then have "same_addresses (st\<lparr>queue := xs\<rparr>) st'" by (intro send_addresses [OF inv sel])
    with same_addresses_queue show ?thesis by (rule same_addresses_trans)
  qed (simp_all add: same_addresses_queue)
qed

lemma complete_addresses:
  assumes "lb_inv st" "servers st k = Some info" "job_complete E st k info p = Some (act, st', p')"
  shows "same_addresses st st'"
proof -
  let ?st = "st\<lparr>servers := (servers st)(k \<mapsto> give_thread info)\<rparr>"
  have same: "same_addresses st ?st" using assms(2) by (rule same_addresses_servers) simp
  have inv: "lb_inv ?st"
    using assms(1,2) by (intro inv_servers info_ok_give lb_inv_info lb_inv_servers_key)
  show ?thesis
  proof (cases "queue st")
    case Nil
    with assms(3) same show ?thesis by (simp add: job_complete_eq [OF assms(1,2)])
  next
    case (Cons x xs)
    then have "serve_queue E ?st p = Some (act, st', p')"
      using assms(3) by (simp add: job_complete_eq [OF assms(1,2)])
    then have "same_addresses ?st st'"
      using serve_queue_addresses [OF inv, of x xs p act st' p'] Cons by simp
    with same show ?thesis by (rule same_addresses_trans)
  qed
qed

lemma client_addresses:
  assumes "lb_inv st" "42 \<le> length p" "client_packet E st p 0 14 34 42 = Some (act, st', p')"
  shows "same_addresses st st'"
  using assms send_addresses [OF assms(1) refl _ assms(2)]
  by (auto simp: client_packet_def Let_def enqueue_def same_addresses_queue bind_eq_Some_conv
      split: if_splits)

text \<open>A registration under a key below the counter, or at the counter itself.\<close>

lemma register_reg_inv:
  assumes inv: "lb_inv st" "42 \<le> length p" "server_cnt st 0 = Some c" "unat c < 65535"
    and reg: "register_server E st k p 0 14 = Some (act, st', p')"
    and below: "\<And>ip k. ip_to_key st ip = Some k \<Longrightarrow> unat k \<le> unat c"
    and kc: "unat k \<le> unat c"
    and owner: "\<And>ip i k'. ip_to_key st ip = Some k' \<Longrightarrow> servers st k' = Some i \<Longrightarrow>
       (if k' = k then ip = sender p else saddr i = ip)"
    and empty: "\<And>k info. servers st k = Some info \<Longrightarrow> unat c \<le> unat k \<Longrightarrow> saddr info = 0"
  shows "reg_inv st'"
proof -
  have c1: "unat (c + 1) = unat c + 1" using inv(4) by (simp add: unat_word_ariths)
  have st': "st' = st\<lparr>servers := (if k \<in> array_keys servers_map
      then (servers st)(k \<mapsto> new_server p) else servers st),
      server_cnt := (server_cnt st)(0 \<mapsto> c + 1)\<rparr>"
    using reg register_eq [OF inv(1-3), of k] by simp
  have dom: "k' \<in> array_keys servers_map" if "servers st k' = Some i" for k' i
    using lb_inv_servers_key [OF inv(1) that] .
  show ?thesis
  proof (rule reg_invI [of _ "c + 1"])
    show "server_cnt st' 0 = Some (c + 1)" by (simp add: st')
  next
    fix ip k' assume "ip_to_key st' ip = Some k'"
    then show "unat k' < unat (c + 1)" using below [of ip k'] by (simp add: st' c1)
  next
    fix ip k' info assume a: "ip_to_key st' ip = Some k'" "servers st' k' = Some info"
    then have ip: "ip_to_key st ip = Some k'" by (simp add: st')
    show "saddr info = ip"
    proof (cases "k' = k \<and> k \<in> array_keys servers_map")
      case True
      then have "k \<in> dom (servers st)" using inv(1) by (simp add: lb_inv_def del: array_keys_iff)
      then obtain i where "servers st k' = Some i" using True by blast
      with owner [OF ip] True have "ip = sender p" by simp
      then show ?thesis using a(2) True by (auto simp: st' new_server_def simp del: array_keys_iff)
    next
      case False
      then have s: "servers st k' = Some info"
        using a(2) by (auto simp: st' simp del: array_keys_iff split: if_splits)
      with False dom have "k' \<noteq> k" by blast
      with owner [OF ip s] show ?thesis by simp
    qed
  next
    fix k' info assume a: "servers st' k' = Some info" "unat (c + 1) \<le> unat k'"
    then have "k' \<noteq> k" using kc c1 by auto
    then have "servers st k' = Some info"
      using a(1) by (auto simp: st' simp del: array_keys_iff split: if_splits)
    then show "saddr info = 0" using empty [of k' info] a(2) c1 by simp
  qed
qed

lemma backend_reg_inv:
  assumes inv: "lb_inv st" "reg_inv st" "server_cnt st 0 = Some c" "unat c < 65535"
    and len: "42 \<le> length p"
    and res: "backend_packet E st p 0 14 = Some (act, st', p')"
  shows "reg_inv st'"
proof -
  note R = reg_invD [OF inv(2,3)]
  have u: "unat (ucast c :: u32) = unat c"
    by (simp add: unsigned_ucast_eq take_bit_nat_eq_self order_less_trans [OF unsigned_less])
  show ?thesis
  proof (cases "ip_to_key st (sender p)")
    case (Some k)
    have own: "if k' = k then ip = sender p else saddr i = ip"
      if "ip_to_key st ip = Some k'" "servers st k' = Some i" for ip i k'
      using R(2) [OF that] R(2) [OF Some] that by auto
    consider "register_server E st k p 0 14 = Some (act, st', p')"
      | info where "servers st k = Some info" "job_complete E st k info p = Some (act, st', p')"
      using res by (auto simp: backend_packet_eq [OF inv(1) len inv(3)] Some split: option.splits if_splits)
    then show ?thesis
    proof cases
      case 1
      show ?thesis
        by (rule register_reg_inv [OF inv(1) len inv(3,4) 1 _ _ own])
          (use R Some in \<open>auto intro: less_imp_le\<close>)
    next
      case 2
      then show ?thesis using complete_addresses inv(1,2) same_addresses_reg_inv by blast
    qed
  next
    case None
    let ?st = "st\<lparr>ip_to_key := snd (update_u32 E ip_to_key_map (ip_to_key st) (sender p) (ucast c) BPF_ANY)\<rparr>"
    have inv': "lb_inv ?st" using inv(1) by (rule inv_ip_to_key)
    have keys: "ip_to_key ?st ip = Some k' \<Longrightarrow> ip_to_key st ip = Some k' \<or> ip = sender p \<and> k' = ucast c" for ip k'
      using ipk.hash_update inv(1) by (auto simp: lb_inv_def split: if_splits)
    have "saddr info = 0" if "servers st (ucast c) = Some info" for info
      using R(3) [OF that] u by simp
    then have reg: "register_server E ?st (ucast c) p 0 14 = Some (act, st', p')"
      using res by (auto simp: backend_packet_eq [OF inv(1) len inv(3)] None Let_def split: option.splits)
    have cs: "server_cnt ?st 0 = Some c" using inv(3) by simp
    have old: "ip_to_key st ip = Some k' \<Longrightarrow> k' \<noteq> ucast c" for ip k'
      using R(1) [of ip k'] u by auto
    show ?thesis
    proof (rule register_reg_inv [OF inv' len cs inv(4) reg])
      fix ip k' assume "ip_to_key ?st ip = Some k'"
      then show "unat k' \<le> unat c" using keys [of ip k'] R(1) [of ip k'] u by auto
    next
      show "unat (ucast c :: u32) \<le> unat c" by (simp only: u)
    next
      fix ip i k' assume "ip_to_key ?st ip = Some k'" "servers ?st k' = Some i"
      then show "if k' = ucast c then ip = sender p else saddr i = ip"
        using keys [of ip k'] old [of ip k'] R(2) [of ip k' i] by auto
    next
      fix k info assume "servers ?st k = Some info" "unat c \<le> unat k"
      with R(3) show "saddr info = 0" by simp
    qed
  qed
qed

end

context lb_kernel
begin

lemma load_balancer_reg_inv:
  assumes "lb_inv st" "reg_inv st" "server_cnt st 0 = Some c" "unat c < 65535"
    "load_balancer E st p = Some (act, st', p')"
  shows "reg_inv st'"
proof -
  consider "st' = st"
    | "42 \<le> length p" "client_packet E st p 0 14 34 42 = Some (act, st', p')"
    | "42 \<le> length p" "backend_packet E st p 0 14 = Some (act, st', p')"
    using assms(5) unfolding load_balancer_eq by (auto simp: not_less split: if_splits)
  then show ?thesis
  proof cases
    case 2
    with assms(1,2) show ?thesis by (blast intro: same_addresses_reg_inv client_addresses)
  next
    case 3
    with assms(1-4) show ?thesis by (blast intro: backend_reg_inv)
  qed (simp add: assms(2))
qed

text \<open>A packet moves the counter by at most one.\<close>

lemma backend_counter:
  assumes "lb_inv st" "42 \<le> length p" "server_cnt st 0 = Some c"
    "backend_packet E st p 0 14 = Some (act, st', p')"
  shows "server_cnt st' 0 = Some c \<or> server_cnt st' 0 = Some (c + 1)"
proof -
  have "dom ((server_cnt st)(0 \<mapsto> c')) = array_keys server_cnt_map" for c'
    using inv_cnt [OF assms(1), of c'] by (simp add: lb_inv_def)
  note upd = cnt_update [OF this]
  have reg_cnt: "server_cnt st' 0 = Some (c + 1)"
    if "register_server E st1 k p 0 14 = Some (act, st', p')" "server_cnt st1 = server_cnt st" for st1 k
    using that(1) assms(2,3) unfolding register_server_def that(2)
    by (simp add: Let_def that(2) upd field_reads ld32_def ldn_def) auto
  have comp_cnt: "server_cnt st' 0 = Some c"
    if "job_complete E st1 k info p = Some (act, st', p')" "lb_inv st1" "servers st1 k = Some info"
      "server_cnt st1 = server_cnt st" for st1 k info
    using complete_addresses [OF that(2,3,1)] that(4) assms(3) by (simp add: same_addresses_def)
  let ?st = "st\<lparr>ip_to_key := snd (update_u32 E ip_to_key_map (ip_to_key st) (sender p) (ucast c) BPF_ANY)\<rparr>"
  have inv: "lb_inv ?st" using assms(1) by (rule inv_ip_to_key)
  consider (reg) k where "register_server E st k p 0 14 = Some (act, st', p')"
    | (reg') k where "register_server E ?st k p 0 14 = Some (act, st', p')"
    | (comp) k info where "servers st k = Some info" "job_complete E st k info p = Some (act, st', p')"
    | (comp') k info where "servers st k = Some info" "job_complete E ?st k info p = Some (act, st', p')"
    using assms(4) unfolding backend_packet_eq [OF assms(1-3)] Let_def
    by (simp split: option.splits if_splits)
  then show ?thesis
  proof cases
    case reg
    then show ?thesis using reg_cnt by blast
  next
    case reg'
    have "server_cnt ?st = server_cnt st" by simp
    with reg' show ?thesis using reg_cnt by blast
  next
    case comp
    then show ?thesis using comp_cnt assms(1) by blast
  next
    case comp'
    have "server_cnt ?st = server_cnt st" "servers ?st = servers st" by simp_all
    with comp' inv show ?thesis using comp_cnt by metis
  qed
qed

lemma load_balancer_counter:
  assumes "lb_inv st" "server_cnt st 0 = Some c" "load_balancer E st p = Some (act, st', p')"
  shows "server_cnt st' 0 = Some c \<or> server_cnt st' 0 = Some (c + 1)"
proof -
  consider "st' = st"
    | "42 \<le> length p" "client_packet E st p 0 14 34 42 = Some (act, st', p')"
    | "42 \<le> length p" "backend_packet E st p 0 14 = Some (act, st', p')"
    using assms(3) unfolding load_balancer_eq by (auto simp: not_less split: if_splits)
  then show ?thesis
  proof cases
    case 2
    then have "same_addresses st st'" using client_addresses assms(1) by blast
    then show ?thesis using assms(2) by (simp add: same_addresses_def)
  next
    case 3
    then show ?thesis using backend_counter assms(1,2) by blast
  qed (simp add: assms(2))
qed

lemma lb_run_reg_inv:
  assumes "lb_inv st" "reg_inv st" "server_cnt st 0 = Some c" "unat c + length ps \<le> 65535"
    "lb_run E st ps = Some (acts, st')"
  shows "reg_inv st'"
  using assms
proof (induction ps arbitrary: st c acts)
  case Nil
  then show ?case by simp
next
  case (Cons p ps)
  obtain act st1 p1 where lb: "load_balancer E st p = Some (act, st1, p1)" and inv: "lb_inv st1"
    using load_balancer_handled [OF Cons.prems(1), of p]
    by (auto simp: handled_def split: option.splits)
  then obtain acts1 where run: "lb_run E st1 ps = Some (acts1, st')"
    using Cons.prems(5) by (auto simp: bind_eq_Some_conv)
  have reg: "reg_inv st1"
    using load_balancer_reg_inv [OF Cons.prems(1-3) _ lb] Cons.prems(4) by simp
  obtain c1 where c1: "server_cnt st1 0 = Some c1" "c1 = c \<or> c1 = c + 1"
    using load_balancer_counter [OF Cons.prems(1,3) lb] by blast
  have "unat c1 \<le> unat c + 1" using c1(2) Cons.prems(4) by (auto simp: unat_word_ariths)
  then show ?case
    using Cons.IH [OF inv reg c1(1) _ run] Cons.prems(4) by simp
qed

end

end
