(* ===== verification/Lb_Scheduler.thy ===== *)
theory Lb_Scheduler
  imports Lb_Correct
begin

text \<open>
  What the load balancer promises, without packets, keys or map helpers: registered backends with a
  number of free threads each, and requests waiting in order of arrival. The handlers of \<open>lb.c\<close> are
  shown to be steps of this scheduler.
\<close>

section \<open>The scheduler\<close>

record sched =
  slots :: "u32 \<rightharpoonup> nat"
  waiting :: "u64 list"

definition free :: "sched \<Rightarrow> u32 \<Rightarrow> nat" where
  "free s k = (case slots s k of None \<Rightarrow> 0 | Some n \<Rightarrow> n)"

text \<open>The backend with the most free threads, the first one of them; none when all are busy.\<close>

definition most_free :: "sched \<Rightarrow> nat" where
  "most_free s = Max (free s ` {0, 1, 2})"

definition pick :: "sched \<Rightarrow> u32 option" where
  "pick s = (if most_free s = 0 then None
             else find (\<lambda>k. free s k = most_free s) [0, 1, 2])"

definition assign :: "sched \<Rightarrow> u32 \<Rightarrow> sched" where
  "assign s k = s\<lparr>slots := (slots s)(k \<mapsto> free s k - 1)\<rparr>"

definition sched_request :: "u64 \<Rightarrow> sched \<Rightarrow> sched" where
  "sched_request v s = (case pick s of
     None \<Rightarrow> if length (waiting s) < 100 then s\<lparr>waiting := waiting s @ [v]\<rparr> else s
   | Some k \<Rightarrow> assign s k)"

definition sched_complete :: "u32 \<Rightarrow> sched \<Rightarrow> sched" where
  "sched_complete k s =
     (let s = s\<lparr>slots := (slots s)(k \<mapsto> min 5 (free s k + 1))\<rparr>
      in case (waiting s, pick s) of
           (v # vs, Some j) \<Rightarrow> assign (s\<lparr>waiting := vs\<rparr>) j
         | _ \<Rightarrow> s)"

definition sched_register :: "u32 \<Rightarrow> sched \<Rightarrow> sched" where
  "sched_register k s = s\<lparr>slots := (slots s)(k \<mapsto> 5)\<rparr>"

text \<open>No backend is idle while a request waits.\<close>

definition work_conserving :: "sched \<Rightarrow> bool" where
  "work_conserving s \<longleftrightarrow> waiting s = [] \<or> pick s = None"

section \<open>The load balancer as a scheduler\<close>

definition sched_of :: "lb_state \<Rightarrow> sched" where
  "sched_of st = \<lparr>slots = (\<lambda>k. case servers st k of
       None \<Rightarrow> None
     | Some info \<Rightarrow> if saddr info = 0 then None else Some (unat (free_threads info))),
     waiting = queue st\<rparr>"

lemma waiting_sched_of [simp]: "waiting (sched_of st) = queue st"
  by (simp add: sched_of_def)

lemma free_sched_of: "free (sched_of st) k = unat (load st k)"
  by (simp add: free_def sched_of_def load_def split: option.splits)

lemma pick_cong: "slots s = slots s' \<Longrightarrow> pick s = pick s'"
  by (simp add: pick_def most_free_def free_def)

lemma pick_sched_of:
  "pick (sched_of st) =
    (if get_available_backend st = - 1 then None else Some (get_available_backend st))"
proof (cases st rule: best_backend_cases)
  case none
  then have "most_free (sched_of st) = 0" by (simp add: most_free_def free_sched_of)
  with none show ?thesis by (simp add: pick_def get_available_backend_eq)
next
  case some
  let ?b = "best_backend st"
  have ne: "?b \<noteq> - 1" using some(1) by auto
  have m: "most_free (sched_of st) = unat (load st ?b)"
    unfolding most_free_def
    by (rule Max_eqI) (use some in \<open>auto simp: free_sched_of word_le_nat_alt\<close>)
  have pos: "unat (load st ?b) \<noteq> 0" using some(2) by (simp add: word_less_nat_alt)
  have less: "unat (load st j) \<noteq> unat (load st ?b)" if "j < ?b" for j
    using some(6) [OF that] by (simp add: word_less_nat_alt)
  have "?b = 0 \<or> ?b = 1 \<or> ?b = 2" using some(1) by blast
  then have "find (\<lambda>k. unat (load st k) = unat (load st ?b)) [0, 1, 2] = Some ?b"
    using less [of 0] less [of 1] by (elim disjE) simp_all
  then show ?thesis
    using ne pos by (simp add: pick_def m free_sched_of get_available_backend_eq)
qed

lemma sched_of_take:
  assumes "servers st k = Some info" "saddr info \<noteq> 0" "0 < free_threads info"
  shows "sched_of (st\<lparr>servers := (servers st)(k \<mapsto> take_thread info)\<rparr>) = assign (sched_of st) k"
proof -
  have "unat (free_threads info - 1) = unat (free_threads info) - 1"
    using assms(3) by (simp add: unat_sub word_le_nat_alt word_less_nat_alt)
  then show ?thesis
    using assms by (auto simp: sched_of_def assign_def free_def take_thread_def)
qed

lemma sched_of_give:
  assumes "servers st k = Some info" "saddr info \<noteq> 0" "info_ok info"
  shows "sched_of (st\<lparr>servers := (servers st)(k \<mapsto> give_thread info)\<rparr>) =
    (sched_of st)\<lparr>slots := (slots (sched_of st))(k \<mapsto> min 5 (free (sched_of st) k + 1))\<rparr>"
proof -
  have le: "unat (free_threads info) \<le> 5" using assms(3) by (simp add: info_ok_def word_le_nat_alt)
  then have "unat (free_threads info + 1) = unat (free_threads info) + 1"
    by (simp add: unat_word_ariths)
  then have "unat (free_threads (give_thread info)) = min 5 (unat (free_threads info) + 1)"
    by (simp add: give_thread_def word_less_nat_alt)
  then show ?thesis
    using assms by (auto simp: sched_of_def free_def give_thread_def)
qed

lemma sched_of_queue: "sched_of (st\<lparr>queue := q\<rparr>) = (sched_of st)\<lparr>waiting := q\<rparr>"
  by (simp add: sched_of_def)

lemma sched_of_dispatch:
  assumes "servers st k = Some info" "saddr info \<noteq> 0" "0 < free_threads info"
  shows "sched_of (st\<lparr>queue := q, servers := (servers st)(k \<mapsto> take_thread info)\<rparr>) =
    (assign (sched_of st) k)\<lparr>waiting := q\<rparr>"
  using sched_of_take [of "st\<lparr>queue := q\<rparr>" k info] assms
  by (simp add: sched_of_queue assign_def free_def)

context lb_kernel
begin

lemma client_refines:
  assumes "lb_inv st" "client_request p" "load_balancer E st p = Some (act, st', p')"
  shows "sched_of st' = sched_request (request_value p) (sched_of st)"
    "act = (if pick (sched_of st) = None then XDP_ABORTED else XDP_TX)"
proof -
  define k where "k = get_available_backend st"
  have "sched_of st' = sched_request (request_value p) (sched_of st) \<and>
    act = (if pick (sched_of st) = None then XDP_ABORTED else XDP_TX)"
  proof (cases "k = - 1")
    case True
    then have "pick (sched_of st) = None" by (simp add: pick_sched_of k_def)
    moreover have "get_available_backend st = - 1" using True by (simp add: k_def)
    from client_queued [OF assms(2) this] assms(3)
    have "act = XDP_ABORTED" "st' = st\<lparr>queue := (if length (queue st) < 100
        then queue st @ [request_value p] else queue st)\<rparr>"
      by (simp_all add: queue_map_def)
    ultimately show ?thesis by (simp add: sched_request_def sched_of_queue)
  next
    case False
    obtain info q where "servers st k = Some info" "0 < free_threads info" "saddr info \<noteq> 0"
      "load_balancer E st p = Some (XDP_TX, st\<lparr>servers := (servers st)(k \<mapsto> take_thread info)\<rparr>, q)"
      using client_sent [OF assms(1,2) k_def [symmetric] False] by metis
    with assms(3) False show ?thesis
      by (auto simp: sched_request_def pick_sched_of k_def [symmetric] sched_of_take)
  qed
  then show "sched_of st' = sched_request (request_value p) (sched_of st)"
    "act = (if pick (sched_of st) = None then XDP_ABORTED else XDP_TX)" by simp_all
qed

lemma completion_refines:
  assumes "lb_inv st" "backend_message p" "ip_to_key st (sender p) = Some k"
    "servers st k = Some info" "saddr info \<noteq> 0" "fst (adjust_tail E p 7) = 0"
    and res: "load_balancer E st p = Some (act, st', p')"
  shows "sched_of st' = sched_complete k (sched_of st)"
proof -
  let ?st = "st\<lparr>servers := (servers st)(k \<mapsto> give_thread info)\<rparr>"
  have inv: "lb_inv ?st"
    using assms(1,4) by (intro inv_servers info_ok_give lb_inv_info lb_inv_servers_key)
  have give: "sched_of ?st = (sched_of st)\<lparr>slots :=
      (slots (sched_of st))(k \<mapsto> min 5 (free (sched_of st) k + 1))\<rparr>"
    using sched_of_give [OF assms(4,5) lb_inv_info [OF assms(1,4)]] .
  have avail: "get_available_backend ?st \<noteq> - 1"
    using assms(1,4,5) by (rule completion_available)
  then have pick: "pick (sched_of ?st) = Some (get_available_backend ?st)"
    by (simp add: pick_sched_of)
  note eq = completion_eq [OF assms(1-5), unfolded Let_def]
  have complete: "sched_complete k (sched_of st) =
      (case (queue st, pick (sched_of ?st)) of
         (v # vs, Some j) \<Rightarrow> assign ((sched_of ?st)\<lparr>waiting := vs\<rparr>) j
       | _ \<Rightarrow> sched_of ?st)"
    unfolding sched_complete_def Let_def give [symmetric] by simp
  show ?thesis
  proof (cases "queue st")
    case Nil
    with res eq have "st' = ?st" by simp
    then show ?thesis
      using Nil by (simp only: complete waiting_sched_of lb_state.select_convs list.case prod.case)
  next
    case (Cons x xs)
    have len: "length p = 43" using assms(2) by (simp add: backend_message_def)
    have q: "queue ?st = x # xs" using Cons by simp
    obtain i t where i: "servers ?st (get_available_backend ?st) = Some i" "0 < free_threads i"
      "saddr i \<noteq> 0" and r: "serve_queue E ?st p = Some (XDP_TX, ?st\<lparr>queue := xs, servers :=
        (servers ?st)(get_available_backend ?st \<mapsto> take_thread i)\<rparr>, t)"
      using serve_queue_sent [OF inv q len assms(6) refl avail] by metis
    have "st' = ?st\<lparr>queue := xs, servers :=
        (servers ?st)(get_available_backend ?st \<mapsto> take_thread i)\<rparr>"
      using res eq r Cons by simp
    then have "sched_of st' = (assign (sched_of ?st) (get_available_backend ?st))\<lparr>waiting := xs\<rparr>"
      using sched_of_dispatch [OF i(1,3,2), of xs] by simp
    moreover have "sched_complete k (sched_of st) =
        assign ((sched_of ?st)\<lparr>waiting := xs\<rparr>) (get_available_backend ?st)"
      using pick Cons by (simp add: complete)
    ultimately show ?thesis by (simp add: assign_def free_def)
  qed
qed


lemma register_refines:
  assumes "lb_inv st" "backend_message p" "ip_to_key st (sender p) = None"
    "card (dom (ip_to_key st)) < 3" "server_cnt st 0 = Some c" "unat c < 3"
    "servers st (ucast c) = Some info" "saddr info = 0" "sender p \<noteq> 0"
    "load_balancer E st p = Some (act, st', p')"
  shows "sched_of st' = sched_register (ucast c) (sched_of st)"
proof -
  have "st' = st\<lparr>ip_to_key := (ip_to_key st)(sender p \<mapsto> ucast c),
       servers := (servers st)(ucast c \<mapsto> new_server p),
       server_cnt := (server_cnt st)(0 \<mapsto> c + 1)\<rparr>"
    using registration_eq [OF assms(1-8)] assms(10) by simp
  then show ?thesis
    using assms(9) by (auto simp: sched_of_def sched_register_def new_server_def)
qed

end

section \<open>Work conservation\<close>

lemma pick_None_iff: "pick s = None \<longleftrightarrow> free s 0 = 0 \<and> free s 1 = 0 \<and> free s 2 = 0"
proof -
  have mem: "most_free s \<in> free s ` {0, 1, 2}" unfolding most_free_def by (rule Max_in) simp_all
  have "pick s = None \<longleftrightarrow> most_free s = 0"
    using mem by (auto simp: pick_def)
  also have "\<dots> \<longleftrightarrow> free s 0 = 0 \<and> free s 1 = 0 \<and> free s 2 = 0"
    by (auto simp: most_free_def max_def)
  finally show ?thesis .
qed

lemma pick_sole:
  assumes "free s k \<noteq> 0" "k \<in> {0, 1, 2}" "\<And>j. j \<in> {0, 1, 2} \<Longrightarrow> j \<noteq> k \<Longrightarrow> free s j = 0"
  shows "pick s = Some k"
proof -
  have "most_free s = free s k"
    unfolding most_free_def
  proof (rule Max_eqI)
    fix n assume "n \<in> free s ` {0, 1, 2}"
    then obtain j where "j \<in> {0, 1, 2}" "n = free s j" by blast
    then show "n \<le> free s k" using assms(3) by (cases "j = k") simp_all
  qed (use assms(2) in auto)
  moreover have "k = 0 \<or> k = 1 \<or> k = 2" using assms(2) by blast
  ultimately show ?thesis
    using assms(1) assms(3) [of 0] assms(3) [of 1] by (elim disjE) (simp_all add: pick_def)
qed

lemma request_work_conserving: "work_conserving s \<Longrightarrow> work_conserving (sched_request v s)"
  by (auto simp: work_conserving_def sched_request_def pick_None_iff free_def assign_def
      split: option.splits)

lemma complete_work_conserving:
  assumes "work_conserving s" "k \<in> {0, 1, 2}"
  shows "work_conserving (sched_complete k s)"
proof (cases "waiting s")
  case Nil
  then show ?thesis by (simp add: work_conserving_def sched_complete_def Let_def)
next
  case (Cons v vs)
  let ?s = "s\<lparr>slots := (slots s)(k \<mapsto> min 5 (free s k + 1))\<rparr>"
  have free0: "free s j = 0" if "j \<in> {0, 1, 2}" for j
    using assms(1) Cons that by (auto simp: work_conserving_def pick_None_iff)
  have free: "free ?s j = (if j = k then 1 else 0)" if "j \<in> {0, 1, 2}" for j
    using free0 [OF that] free0 [OF assms(2)] by (auto simp: free_def split: option.splits)
  have pick: "pick ?s = Some k"
    by (rule pick_sole) (use assms(2) free in auto)
  have "free (assign (?s\<lparr>waiting := vs\<rparr>) k) j = 0" if "j \<in> {0, 1, 2}" for j
    using free [OF that] free [OF assms(2)] by (auto simp: assign_def free_def)
  then have "pick (assign (?s\<lparr>waiting := vs\<rparr>) k) = None" by (simp add: pick_None_iff)
  moreover have "sched_complete k s = assign (?s\<lparr>waiting := vs\<rparr>) k"
    using Cons pick by (simp add: sched_complete_def Let_def)
  ultimately show ?thesis by (simp add: work_conserving_def)
qed

lemma register_not_work_conserving:
  assumes "waiting s \<noteq> []" "k \<in> {0, 1, 2}"
  shows "\<not> work_conserving (sched_register k s)"
  using assms by (auto simp: work_conserving_def sched_register_def pick_None_iff free_def)

end
