(* ===== verification/Lb_Theorems.thy ===== *)
theory Lb_Theorems
  imports Lb_Registry Lb_Scheduler
begin

text \<open>
  The properties of the load balancer, over every kernel that keeps the contracts of
  \<open>Bpf_Kernel\<close>, each with an instance on concrete packets and the reference kernel \<open>ref_env\<close>.
\<close>

section \<open>Packets and states for the instances\<close>

text \<open>A UDP packet to port 8080 of 10.0.0.1 from an address and hardware address given.\<close>

definition sample_packet :: "bytes \<Rightarrow> bytes \<Rightarrow> bytes \<Rightarrow> bytes" where
  "sample_packet mac src payload =
     [2, 0, 0, 0, 0, 1] @ mac @ [8, 0, 69, 0, 0, of_nat (28 + length payload), 0, 0, 0, 0, 64, 17, 0, 0]
     @ src @ [10, 0, 0, 1, 48, 57, 31, 144, 0, of_nat (8 + length payload), 0, 0] @ payload"

definition sample_request :: bytes where
  "sample_request = sample_packet [2, 0, 0, 0, 0, 9] [10, 0, 0, 9] [0, 0, 0, 0, 0, 0, 0, 5]"

definition sample_message :: "u8 \<Rightarrow> bytes" where
  "sample_message n = sample_packet [2, 0, 0, 0, 0, n] [10, 0, 0, n] [0]"

text \<open>Server \<open>n\<close> of the instances, with some threads free, and states that know one or three.\<close>

definition sample_server :: "u8 \<Rightarrow> u16 \<Rightarrow> dest_info" where
  "sample_server n t = \<lparr>saddr = of_nat (le_val [10, 0, 0, n]), daddr = of_nat (le_val [10, 0, 0, 1]),
     dmac = [2, 0, 0, 0, 0, n], free_threads = t\<rparr>"

definition one_server :: "u16 \<Rightarrow> u64 list \<Rightarrow> lb_state" where
  "one_server t q = lb_init\<lparr>ip_to_key := [of_nat (le_val [10, 0, 0, 2]) \<mapsto> 0],
     servers := (servers lb_init)(0 \<mapsto> sample_server 2 t), server_cnt := [0 \<mapsto> 1], queue := q\<rparr>"

definition three_servers :: "u64 list \<Rightarrow> lb_state" where
  "three_servers q = lb_init\<lparr>
     ip_to_key := [of_nat (le_val [10, 0, 0, 2]) \<mapsto> 0, of_nat (le_val [10, 0, 0, 3]) \<mapsto> 1,
       of_nat (le_val [10, 0, 0, 4]) \<mapsto> 2],
     servers := (servers lb_init)(0 \<mapsto> sample_server 2 0, 1 \<mapsto> sample_server 3 0, 2 \<mapsto> sample_server 4 0),
     server_cnt := [0 \<mapsto> 3], queue := q\<rparr>"

lemma sample_request: "client_request sample_request" "request_value sample_request = 0x500000000000000"
  by (simp_all add: client_request_def is_udp_8080_def sample_request_def sample_packet_def ldn_def
      request_value_def)

lemma sample_message:
  "backend_message (sample_message n)" "sender (sample_message n) = of_nat (le_val [10, 0, 0, n])"
  by (simp_all add: backend_message_def is_udp_8080_def sample_message_def sample_packet_def ldn_def
      sender_def)

lemma sample_server_address [simp]: "saddr (sample_server n t) \<noteq> 0"
proof
  assume "saddr (sample_server n t) = 0"
  then have "unat (of_nat (le_val [10, 0, 0, n]) :: u32) = 0" by (simp add: sample_server_def)
  then show False using unat_of_nat_le_val [of "[10, 0, 0, n]", where 'a = 32] by simp
qed

lemma sample_server_ok [simp]:
  "t \<le> 5 \<Longrightarrow> info_ok (sample_server n t)" "free_threads (sample_server n t) = t"
  by (simp_all add: info_ok_def sample_server_def)

lemma array_keys_cnt: "array_keys server_cnt_map = {0}"
  by (auto simp: array_keys_def server_cnt_map_def unat_eq_zero)

lemma lb_inv_samples:
  "t \<le> 5 \<Longrightarrow> length q \<le> 100 \<Longrightarrow> lb_inv (one_server t q)"
  "length q \<le> 100 \<Longrightarrow> lb_inv (three_servers q)"
  using lb_inv_init card_insert_le_m1
  by (auto simp: lb_inv_def one_server_def three_servers_def ran_def array_keys_cnt
      servers_map_keys ip_to_key_map_def queue_map_def card_insert_if simp del: array_keys_iff split: if_splits)
lemma one_server_available: "0 < t \<Longrightarrow> get_available_backend (one_server t q) = 0"
  by (simp add: get_available_backend_eq best_backend_def load_def one_server_def lb_init_def
      zero_info_def)

lemma three_servers_busy: "get_available_backend (three_servers q) = - 1"
  by (simp add: get_available_backend_eq best_backend_def load_def three_servers_def lb_init_def
      zero_info_def)

section \<open>Memory safety and the shape of the maps\<close>

text \<open>
  C1. Whatever bytes arrive and whatever the maps hold within their shape, the program returns a
  verdict without touching memory outside the packet, and the maps keep their shape: the array
  maps stay full, at most three addresses and 100 requests are stored, and no backend is credited
  with more than its five threads.
\<close>

theorem load_balancer_safe:
  assumes "lb_kernel E" "lb_inv st"
  shows "\<exists>act st' p'. load_balancer E st p = Some (act, st', p') \<and> lb_inv st'"
  using lb_kernel.load_balancer_handled [OF assms, of p]
  by (auto simp: handled_def split: option.splits)

theorem load_balancer_safe_witness:
  "\<exists>act st' p'. load_balancer ref_env (one_server 5 []) sample_request = Some (act, st', p') \<and>
     lb_inv st'"
  by (rule load_balancer_safe [OF ref_lb.lb_kernel_axioms lb_inv_samples(1)]) simp_all

text \<open>
  From the maps as they are loaded, every sequence of packets is handled, one verdict each, and
  ends in maps of the right shape.
\<close>

theorem lb_run_safe:
  assumes "lb_kernel E"
  shows "\<exists>acts st'. lb_run E lb_init ps = Some (acts, st') \<and> length acts = length ps \<and> lb_inv st'"
  by (rule lb_kernel.lb_run_handled [OF assms lb_inv_init])

theorem lb_run_safe_witness:
  "\<exists>acts st'. lb_run ref_env lb_init [sample_message 2, sample_request] = Some (acts, st') \<and>
     length acts = length [sample_message 2, sample_request] \<and> lb_inv st'"
  by (rule lb_run_safe [OF ref_lb.lb_kernel_axioms])

text \<open>
  A packet that is not an IPv4 UDP datagram to port 8080 with one or eight bytes of payload
  leaves maps and packet as they are; it is passed on, or aborted when it is cut short in a header.
\<close>

theorem other_packets_pass:
  assumes "length p < 2 ^ 32" "\<not> client_request p" "\<not> backend_message p"
  shows "load_balancer E st p = Some (XDP_PASS, st, p) \<or>
    length p < 42 \<and> load_balancer E st p = Some (XDP_ABORTED, st, p)"
proof -
  have small: "(of_nat n :: u32) = 1 \<longleftrightarrow> n = 1" "(of_nat n :: u32) = 8 \<longleftrightarrow> n = 8" if "n < 2 ^ 32" for n
    using that word_of_nat_eq_iff [of n 1, where 'a = 32] word_of_nat_eq_iff [of n 8, where 'a = 32]
    by (simp_all add: take_bit_nat_eq_self)
  have "(of_nat (length p - 42) :: u32) = 1 \<longleftrightarrow> length p - 42 = 1"
    "(of_nat (length p - 42) :: u32) = 8 \<longleftrightarrow> length p - 42 = 8"
    using assms(1) by (simp_all only: small diff_le_self [THEN le_less_trans])
  then show ?thesis
    using assms(2,3)
    unfolding load_balancer_eq client_request_def backend_message_def is_udp_8080_def by auto
qed

theorem other_packets_pass_witness:
  "load_balancer ref_env lb_init [1, 2, 3] = Some (XDP_PASS, lb_init, [1, 2, 3]) \<or>
    length ([1, 2, 3] :: bytes) < 42 \<and>
    load_balancer ref_env lb_init [1, 2, 3] = Some (XDP_ABORTED, lb_init, [1, 2, 3])"
  by (rule other_packets_pass) (simp_all add: client_request_def backend_message_def)

section \<open>Client requests\<close>

text \<open>
  C9. The chosen backend is a registered one with a free thread, with as many free threads as any
  other and more than those before it; no backend is chosen only when none has a free thread.
\<close>

theorem backend_choice:
  "if get_available_backend st = - 1
   then \<not> available st 0 \<and> \<not> available st 1 \<and> \<not> available st 2
   else get_available_backend st \<in> {0, 1, 2} \<and> available st (get_available_backend st) \<and>
     (\<forall>j \<in> {0, 1, 2}. load st j \<le> load st (get_available_backend st) \<and>
       (j < get_available_backend st \<longrightarrow> load st j < load st (get_available_backend st)))"
  by (cases st rule: best_backend_cases) (auto simp: get_available_backend_eq available_load)

theorem backend_choice_witness:
  "get_available_backend (one_server 3 []) = 0 \<and> available (one_server 3 []) 0 \<and>
    load (one_server 3 []) 2 \<le> load (one_server 3 []) 0"
  using backend_choice [of "one_server 3 []"] by (simp add: one_server_available)

text \<open>
  C2. A client's request is sent on to the chosen backend: the verdict is \<open>XDP_TX\<close>, the backend has
  one free thread less and nothing else of the maps changes, and the packet carries the backend's
  hardware and IP addresses, the backend's own view of the balancer as its source, its lengths, a
  valid IP header checksum, and the ports and payload of the request.
\<close>

theorem request_forwarded:
  assumes "lb_kernel E" "lb_inv st" "client_request p" "get_available_backend st \<noteq> - 1"
  shows "\<exists>info p'. servers st (get_available_backend st) = Some info \<and>
    0 < free_threads info \<and>
    load_balancer E st p = Some (XDP_TX, st\<lparr>servers := (servers st)(get_available_backend st \<mapsto>
      info\<lparr>free_threads := free_threads info - 1\<rparr>)\<rparr>, p') \<and>
    forwarded p info p'"
  using lb_kernel.client_sent [OF assms(1-3) refl assms(4)] by (metis take_thread_def)

theorem request_forwarded_witness:
  "\<exists>info p'. servers (one_server 3 []) (get_available_backend (one_server 3 [])) = Some info \<and>
    0 < free_threads info \<and>
    load_balancer ref_env (one_server 3 []) sample_request = Some (XDP_TX, (one_server 3 [])
      \<lparr>servers := (servers (one_server 3 []))(get_available_backend (one_server 3 []) \<mapsto>
      info\<lparr>free_threads := free_threads info - 1\<rparr>)\<rparr>, p') \<and>
    forwarded sample_request info p'"
  by (rule request_forwarded [OF ref_lb.lb_kernel_axioms lb_inv_samples(1) sample_request(1)])
    (simp_all add: one_server_available)

text \<open>
  C13. While every backend is busy a request joins the end of the waiting queue, its eight bytes as
  they are in the packet; when 100 requests wait already it is lost. The packet is aborted.
\<close>

theorem request_queued:
  assumes "lb_kernel E" "client_request p" "get_available_backend st = - 1"
  shows "load_balancer E st p = Some (XDP_ABORTED, st\<lparr>queue :=
      (if length (queue st) < 100 then queue st @ [request_value p] else queue st)\<rparr>, p) \<and>
    le_bytes 8 (unat (request_value p)) = drop 42 p"
  using lb_kernel.client_queued [OF assms] request_value_bytes [OF assms(2)]
  by (simp add: queue_map_def)

theorem request_queued_witness:
  "load_balancer ref_env (three_servers []) sample_request = Some (XDP_ABORTED, (three_servers [])
     \<lparr>queue := (if length (queue (three_servers [])) < 100
       then queue (three_servers []) @ [request_value sample_request] else queue (three_servers []))\<rparr>,
     sample_request) \<and>
   le_bytes 8 (unat (request_value sample_request)) = drop 42 sample_request"
  by (rule request_queued [OF ref_lb.lb_kernel_axioms sample_request(1) three_servers_busy])
section \<open>Messages from backends\<close>

text \<open>
  A completion message of a registered backend gives it one free thread back, never more than
  five; with no request waiting nothing else changes and the packet is dropped.
\<close>

theorem completion_frees_thread:
  assumes "lb_kernel E" "lb_inv st" "backend_message p" "ip_to_key st (sender p) = Some k"
    "servers st k = Some info" "saddr info \<noteq> 0" "queue st = []"
  shows "load_balancer E st p = Some (XDP_DROP, st\<lparr>servers := (servers st)(k \<mapsto>
      info\<lparr>free_threads := min 5 (free_threads info + 1)\<rparr>)\<rparr>, p)"
proof -
  have "give_thread info = info\<lparr>free_threads := min 5 (free_threads info + 1)\<rparr>"
    by (simp add: give_thread_def min_def not_less)
  then show ?thesis
    using lb_kernel.completion_eq [OF assms(1-6)] assms(7) by (simp add: Let_def)
qed

lemma one_server_slot:
  "ip_to_key (one_server t q) (sender (sample_message 2)) = Some 0"
  "servers (one_server t q) 0 = Some (sample_server 2 t)" "queue (one_server t q) = q"
  "server_cnt (one_server t q) 0 = Some 1"
  by (simp_all add: one_server_def sample_message)

theorem completion_frees_thread_witness:
  "load_balancer ref_env (one_server 3 []) (sample_message 2) = Some (XDP_DROP,
     (one_server 3 [])\<lparr>servers := (servers (one_server 3 []))(0 \<mapsto>
       (sample_server 2 3)\<lparr>free_threads := min 5 (free_threads (sample_server 2 3) + 1)\<rparr>)\<rparr>,
     sample_message 2)"
  by (rule completion_frees_thread [OF ref_lb.lb_kernel_axioms lb_inv_samples(1) sample_message(1)
        one_server_slot(1,2)]) (simp_all add: one_server_slot)

text \<open>
  C3. When requests wait, a completion message is turned into the oldest of them: the backend is
  credited first, the packet grows to 50 bytes, keeps the headers of the message up to the payload,
  carries the queued value as its payload, and goes to the backend then chosen, which pays a thread
  for it. The queue loses exactly that request.
\<close>

theorem completion_serves_oldest:
  assumes "lb_kernel E" "lb_inv st" "backend_message p" "ip_to_key st (sender p) = Some k"
    "servers st k = Some info" "saddr info \<noteq> 0" "queue st = x # xs" "fst (adjust_tail E p 7) = 0"
  shows "\<exists>j i q p'. let st' = st\<lparr>servers := (servers st)(k \<mapsto> give_thread info)\<rparr> in
    get_available_backend st' = j \<and> servers st' j = Some i \<and> 0 < free_threads i \<and>
    load_balancer E st p =
      Some (XDP_TX, st\<lparr>queue := xs, servers := (servers st')(j \<mapsto> take_thread i)\<rparr>, p') \<and>
    length q = 50 \<and> take 42 q = take 42 p \<and> forwarded q i p' \<and> drop 42 p' = le_bytes 8 (unat x)"
proof -
  let ?st = "st\<lparr>servers := (servers st)(k \<mapsto> give_thread info)\<rparr>"
  have inv: "lb_inv ?st"
    using assms(2,5) by (intro lb_kernel.inv_servers [OF assms(1)] info_ok_give lb_inv_info
        lb_inv_servers_key)
  have avail: "get_available_backend ?st \<noteq> - 1"
    by (rule lb_kernel.completion_available [OF assms(1,2,5,6)])
  have len: "length p = 43" using assms(3) by (simp add: backend_message_def)
  have q: "queue ?st = x # xs" using assms(7) by simp
  have "load_balancer E st p = serve_queue E ?st p"
    using lb_kernel.completion_eq [OF assms(1-6)] assms(7) by (simp add: Let_def)
  moreover obtain i t p' where "servers ?st (get_available_backend ?st) = Some i"
      "0 < free_threads i" "serve_queue E ?st p = Some (XDP_TX, ?st\<lparr>queue := xs,
        servers := (servers ?st)(get_available_backend ?st \<mapsto> take_thread i)\<rparr>, p')"
      "length t = 50" "take 42 t = take 42 p" "forwarded t i p'" "drop 42 p' = le_bytes 8 (unat x)"
    by (rule lb_kernel.serve_queue_sent [OF assms(1) inv q len assms(8) refl avail])
  ultimately show ?thesis
    unfolding Let_def
    by (intro exI [of _ "get_available_backend ?st"] exI [of _ i] exI [of _ t] exI [of _ p'] conjI)
      (simp_all only: simp_thms, simp)
qed

lemma ref_tail_ok: "fst (adjust_tail ref_env p 7) = 0"
  by (simp add: ref_env_def ref_adjust_tail_def)

theorem completion_serves_oldest_witness:
  "\<exists>j i q p'. let st' = (one_server 0 [7])\<lparr>servers := (servers (one_server 0 [7]))(0 \<mapsto>
      give_thread (sample_server 2 0))\<rparr> in
    get_available_backend st' = j \<and> servers st' j = Some i \<and> 0 < free_threads i \<and>
    load_balancer ref_env (one_server 0 [7]) (sample_message 2) = Some (XDP_TX,
      (one_server 0 [7])\<lparr>queue := [], servers := (servers st')(j \<mapsto> take_thread i)\<rparr>, p') \<and>
    length q = 50 \<and> take 42 q = take 42 (sample_message 2) \<and> forwarded q i p' \<and>
    drop 42 p' = le_bytes 8 (unat (7 :: u64))"
  by (rule completion_serves_oldest [OF ref_lb.lb_kernel_axioms lb_inv_samples(1) sample_message(1)
        one_server_slot(1,2)]) (simp_all add: one_server_slot ref_tail_ok)

text \<open>
  C12. If the kernel cannot grow the packet, the oldest request is taken off the queue and sent
  nowhere: it is lost, with the backend credited and the packet aborted.
\<close>

theorem completion_loses_request:
  assumes "lb_kernel E" "lb_inv st" "backend_message p" "ip_to_key st (sender p) = Some k"
    "servers st k = Some info" "saddr info \<noteq> 0" "queue st = x # xs" "fst (adjust_tail E p 7) \<noteq> 0"
  shows "load_balancer E st p = Some (XDP_ABORTED,
    st\<lparr>queue := xs, servers := (servers st)(k \<mapsto> give_thread info)\<rparr>, p)"
proof -
  let ?st = "st\<lparr>servers := (servers st)(k \<mapsto> give_thread info)\<rparr>"
  have step: "load_balancer E st p = serve_queue E ?st p"
    using lb_kernel.completion_eq [OF assms(1-6)] assms(7) by (simp add: Let_def)
  have avail: "get_available_backend ?st \<noteq> - 1"
    by (rule lb_kernel.completion_available [OF assms(1,2,5,6)])
  have len: "length p = 43" using assms(3) by (simp add: backend_message_def)
  have q: "queue ?st = x # xs" using assms(7) by simp
  show ?thesis
    using avail lb_kernel.tail_stays [OF assms(1,8)]
    by (simp add: step serve_queue_def Let_def len lb_kernel.dequeue_eq [OF assms(1) q])
qed

definition stuck_env :: lb_env where
  "stuck_env = ref_env\<lparr>adjust_tail := \<lambda>p d. (- 12, p)\<rparr>"

lemma stuck_kernel: "lb_kernel stuck_env"
  by (simp add: lb_kernel_def stuck_env_def ref_env_def ref_hash_map ref_array_map ref_queue_map
      xdp_tail_def)

theorem completion_loses_request_witness:
  "load_balancer stuck_env (one_server 0 [7]) (sample_message 2) = Some (XDP_ABORTED,
    (one_server 0 [7])\<lparr>queue := [], servers := (servers (one_server 0 [7]))(0 \<mapsto>
      give_thread (sample_server 2 0))\<rparr>, sample_message 2)"
  by (rule completion_loses_request [OF stuck_kernel lb_inv_samples(1)
        sample_message(1) one_server_slot(1,2)]) (simp_all add: one_server_slot stuck_env_def)
section \<open>Registration\<close>

text \<open>
  C14. The first message of an unknown host, while fewer than three are known, registers it in the
  next slot with its addresses and five free threads, and advances the counter; nothing waiting is
  sent, and the packet is dropped.
\<close>

theorem registration:
  assumes "lb_kernel E" "lb_inv st" "backend_message p" "ip_to_key st (sender p) = None"
    "card (dom (ip_to_key st)) < 3" "server_cnt st 0 = Some c" "unat c < 3"
    "servers st (ucast c) = Some info" "saddr info = 0"
  shows "load_balancer E st p = Some (XDP_DROP,
    st\<lparr>ip_to_key := (ip_to_key st)(sender p \<mapsto> ucast c),
       servers := (servers st)(ucast c \<mapsto> \<lparr>saddr = sender p, daddr = receiver p,
         dmac = take 6 (drop 6 p), free_threads = 5\<rparr>),
       server_cnt := (server_cnt st)(0 \<mapsto> c + 1)\<rparr>, p)"
  using lb_kernel.registration_eq [OF assms] by (simp add: new_server_def)

theorem registration_witness:
  "load_balancer ref_env lb_init (sample_message 2) = Some (XDP_DROP,
    lb_init\<lparr>ip_to_key := (ip_to_key lb_init)(sender (sample_message 2) \<mapsto> ucast (0 :: u16)),
       servers := (servers lb_init)(ucast (0 :: u16) \<mapsto> \<lparr>saddr = sender (sample_message 2),
         daddr = receiver (sample_message 2), dmac = take 6 (drop 6 (sample_message 2)),
         free_threads = 5\<rparr>),
       server_cnt := (server_cnt lb_init)(0 \<mapsto> 0 + 1)\<rparr>, sample_message 2)"
  by (rule registration [OF ref_lb.lb_kernel_axioms lb_inv_init sample_message(1),
        where info = zero_info]) (simp_all add: lb_init_def zero_info_def)

text \<open>
  A message of a fourth host advances the server counter, although nothing is registered for it.
\<close>

theorem stranger_counts:
  assumes "lb_kernel E" "lb_inv st" "backend_message p" "ip_to_key st (sender p) = None"
    "card (dom (ip_to_key st)) = 3" "server_cnt st 0 = Some c" "3 \<le> unat c"
  shows "load_balancer E st p =
    Some (XDP_DROP, st\<lparr>server_cnt := (server_cnt st)(0 \<mapsto> c + 1)\<rparr>, p)"
  by (rule lb_kernel.stranger_eq [OF assms])

lemma of_nat_le_val_inj:
  assumes "length bs = 4" "length cs = 4"
  shows "(of_nat (le_val bs) :: u32) = of_nat (le_val cs) \<longleftrightarrow> bs = cs"
proof
  assume "(of_nat (le_val bs) :: u32) = of_nat (le_val cs)"
  then have "unat (of_nat (le_val bs) :: u32) = unat (of_nat (le_val cs) :: u32)" by simp
  then have "le_val bs = le_val cs"
    using unat_of_nat_le_val [of bs, where 'a = 32] unat_of_nat_le_val [of cs, where 'a = 32] assms
    by simp
  then have "le_bytes (length bs) (le_val bs) = le_bytes (length cs) (le_val cs)"
    by (simp only: assms)
  then show "bs = cs" by (simp only: le_bytes_le_val)
qed simp

lemma three_servers_slots:
  "ip_to_key (three_servers q) (sender (sample_message 5)) = None"
  "card (dom (ip_to_key (three_servers q))) = 3" "queue (three_servers q) = q"
  "server_cnt (three_servers q) 0 = Some 3" "servers (three_servers q) 0 = Some (sample_server 2 0)"
  by (simp_all add: three_servers_def sample_message of_nat_le_val_inj del: le_val.simps)

theorem stranger_counts_witness:
  "load_balancer ref_env (three_servers []) (sample_message 5) = Some (XDP_DROP, (three_servers [])
    \<lparr>server_cnt := (server_cnt (three_servers []))(0 \<mapsto> 3 + 1)\<rparr>, sample_message 5)"
  by (rule stranger_counts [OF ref_lb.lb_kernel_axioms lb_inv_samples(2) sample_message(1)])
    (simp_all add: three_servers_slots)

lemma lb_run_append:
  "lb_run E st ps = Some (acts, st') \<Longrightarrow> lb_run E st' qs = Some (acts', st'') \<Longrightarrow>
    lb_run E st (ps @ qs) = Some (acts @ acts', st'')"
  by (induction ps arbitrary: st acts) (auto simp: bind_eq_Some_conv)

text \<open>
  C10. The counter has 16 bits: after a fourth host has sent enough messages it is back at zero, and
  the host's next message counts as a completion of the first backend, which is credited a thread
  for it.
\<close>

theorem stranger_credited:
  assumes "lb_kernel E" "lb_inv st" "backend_message p" "ip_to_key st (sender p) = None"
    "card (dom (ip_to_key st)) = 3" "server_cnt st 0 = Some c" "3 \<le> unat c"
    "servers st 0 = Some info" "saddr info \<noteq> 0" "queue st = []"
  shows "\<exists>acts. lb_run E st (replicate (65536 - unat c) p @ [p]) = Some (acts,
    st\<lparr>servers := (servers st)(0 \<mapsto> give_thread info), server_cnt := (server_cnt st)(0 \<mapsto> 0)\<rparr>)"
proof -
  let ?n = "65536 - unat c"
  let ?st = "st\<lparr>server_cnt := (server_cnt st)(0 \<mapsto> 0)\<rparr>"
  have less: "unat c < 65536" using unsigned_less [of c] by simp
  then have wrap: "c + of_nat ?n = 0" and le: "unat c + ?n \<le> 65536"
    by (simp_all add: word_unat_eq_iff unat_word_ariths unsigned_of_nat take_bit_eq_mod)
  obtain acts where run: "lb_run E st (replicate ?n p) = Some (acts, ?st)"
    using lb_kernel.stranger_run [OF assms(1-7) le] unfolding wrap by blast
  have inv: "lb_inv ?st" using assms(2) by (rule lb_kernel.inv_cnt [OF assms(1)])
  have len: "42 \<le> length p" using assms(3) by (simp add: backend_message_def)
  have full: "snd (update_u32 E ip_to_key_map (ip_to_key st) (sender p) 0 BPF_ANY) = ip_to_key st"
    using lb_kernel.ip_to_key_full [OF assms(1,2,4,5)] .
  have "load_balancer E ?st p = job_complete E ?st 0 info p"
    using lb_kernel.backend_packet_eq [OF assms(1) inv len, of 0] assms(4,8,9) full
    by (simp add: load_balancer_backend [OF assms(3)])
  also have "\<dots> = Some (XDP_DROP, ?st\<lparr>servers := (servers st)(0 \<mapsto> give_thread info)\<rparr>, p)"
    using lb_kernel.job_complete_eq [OF assms(1) inv, of 0 info p] assms(8,10) by (simp add: Let_def)
  finally have "lb_run E ?st [p] = Some ([XDP_DROP], ?st\<lparr>servers := (servers st)(0 \<mapsto> give_thread info)\<rparr>)"
    by simp
  from lb_run_append [OF run this] show ?thesis by auto
qed

theorem stranger_credited_witness:
  "\<exists>acts. lb_run ref_env (three_servers []) (replicate (65536 - unat (3 :: u16)) (sample_message 5) @
      [sample_message 5]) = Some (acts, (three_servers [])
    \<lparr>servers := (servers (three_servers []))(0 \<mapsto> give_thread (sample_server 2 0)),
     server_cnt := (server_cnt (three_servers []))(0 \<mapsto> 0)\<rparr>)"
  by (rule stranger_credited [OF ref_lb.lb_kernel_axioms lb_inv_samples(2) sample_message(1)])
    (simp_all add: three_servers_slots)

text \<open>
  C6. As long as the counter cannot have wrapped around, who is who is right: after at most 65535
  packets from the loaded maps, a slot that an address is mapped to holds this address, so two
  addresses never share a slot and a message is credited to its sender only.
\<close>

theorem registry_is_right:
  assumes "lb_kernel E" "length ps \<le> 65535" "lb_run E lb_init ps = Some (acts, st)"
    "ip_to_key st ip = Some k" "servers st k = Some info"
  shows "saddr info = ip"
proof -
  have cnt: "server_cnt lb_init 0 = Some 0" by (simp add: lb_init_def)
  have "reg_inv st"
    using lb_kernel.lb_run_reg_inv [OF assms(1) lb_inv_init reg_inv_init cnt _ assms(3)] assms(2)
    by simp
  with assms(4,5) show ?thesis by (auto simp: reg_inv_def)
qed

theorem registry_is_right_witness:
  "saddr (new_server (sample_message 2)) = sender (sample_message 2)"
proof (rule registry_is_right [OF ref_lb.lb_kernel_axioms, where k = 0])
  show "lb_run ref_env lb_init [sample_message 2] = Some ([XDP_DROP],
    lb_init\<lparr>ip_to_key := (ip_to_key lb_init)(sender (sample_message 2) \<mapsto> ucast (0 :: u16)),
       servers := (servers lb_init)(ucast (0 :: u16) \<mapsto> new_server (sample_message 2)),
       server_cnt := (server_cnt lb_init)(0 \<mapsto> 0 + 1)\<rparr>)"
    using ref_lb.registration_eq [OF lb_inv_init sample_message(1), of 2 0 zero_info]
    by (simp add: lb_init_def zero_info_def)
qed simp_all
section \<open>The UDP checksum of forwarded requests\<close>

lemma le_sum_append_ge: "even (length xs) \<Longrightarrow> le_sum ys \<le> le_sum (xs @ ys)"
  by (simp add: le_sum_append)

lemma udp_words_sum_payload:
  assumes "42 \<le> length p"
  shows "le_sum (drop 42 p) \<le> udp_words_sum p"
proof -
  have "udp_words_sum p = le_sum ((pseudo_header p 14 34 @ take 6 (drop 34 p) @ [0, 0]) @ drop 42 p)"
    by (simp add: udp_words_sum_def)
  moreover have "even (length (pseudo_header p 14 34 @ take 6 (drop 34 p) @ [0, 0]))"
    using assms by (simp add: pseudo_header_def)
  ultimately show ?thesis using le_sum_append_ge by metis
qed

text \<open>
  C8. The UDP checksum the program fills in is accepted by a receiver exactly when the sum of the
  16-bit words it covers does not exceed 16 bits, since the loop in \<open>udp_checksum\<close> drops the
  carries. So a request whose payload alone sums up to more leaves with a wrong checksum.
\<close>

theorem request_udp_checksum:
  assumes "lb_kernel E" "lb_inv st" "client_request p" "get_available_backend st \<noteq> - 1"
  shows "\<exists>st' p'. load_balancer E st p = Some (XDP_TX, st', p') \<and>
    (udp_checksum_ok p' \<longleftrightarrow> udp_words_sum p' < 65536) \<and>
    (65536 \<le> le_sum (drop 42 p) \<longrightarrow> \<not> udp_checksum_ok p')"
proof -
  obtain info p' where lb: "load_balancer E st p = Some (XDP_TX,
      st\<lparr>servers := (servers st)(get_available_backend st \<mapsto> take_thread info)\<rparr>, p')"
    and fwd: "forwarded p info p'" and ok: "udp_checksum_ok p' \<longleftrightarrow> udp_words_sum p' < 65536"
    using lb_kernel.client_sent [OF assms(1-3) refl assms(4)] by metis
  have "42 \<le> length p'" "drop 42 p' = drop 42 p"
    using fwd assms(3) by (simp_all add: forwarded_def client_request_def)
  then have "65536 \<le> le_sum (drop 42 p) \<longrightarrow> \<not> udp_checksum_ok p'"
    using ok udp_words_sum_payload [of p'] by simp
  with lb ok show ?thesis by blast
qed

definition heavy_request :: bytes where
  "heavy_request = sample_packet [2, 0, 0, 0, 0, 9] [10, 0, 0, 9] [255, 255, 255, 255, 255, 255, 255, 255]"

theorem request_udp_checksum_witness:
  "\<exists>st' p'. load_balancer ref_env (one_server 3 []) heavy_request = Some (XDP_TX, st', p') \<and>
    \<not> udp_checksum_ok p'"
proof -
  have "client_request heavy_request"
    by (simp add: client_request_def is_udp_8080_def heavy_request_def sample_packet_def ldn_def)
  from request_udp_checksum [OF ref_lb.lb_kernel_axioms lb_inv_samples(1) this]
  have "\<exists>st' p'. load_balancer ref_env (one_server 3 []) heavy_request = Some (XDP_TX, st', p') \<and>
    (udp_checksum_ok p' \<longleftrightarrow> udp_words_sum p' < 65536) \<and>
    (65536 \<le> le_sum (drop 42 heavy_request) \<longrightarrow> \<not> udp_checksum_ok p')"
    by (simp add: one_server_available)
  moreover have "65536 \<le> le_sum (drop 42 heavy_request)"
    by (simp add: heavy_request_def sample_packet_def)
  ultimately show ?thesis by blast
qed

section \<open>The scheduler\<close>

text \<open>
  C5. A client's request is the \<open>request\<close> step of the abstract scheduler: on a free backend, or in
  the waiting queue; the verdict tells which.
\<close>

theorem request_refines_scheduler:
  assumes "lb_kernel E" "lb_inv st" "client_request p" "load_balancer E st p = Some (act, st', p')"
  shows "sched_of st' = sched_request (request_value p) (sched_of st) \<and>
    act = (if pick (sched_of st) = None then XDP_ABORTED else XDP_TX)"
  using lb_kernel.client_refines [OF assms] by blast

theorem request_refines_scheduler_witness:
  "sched_of ((three_servers [])\<lparr>queue := [request_value sample_request]\<rparr>) =
     sched_request (request_value sample_request) (sched_of (three_servers [])) \<and>
   XDP_ABORTED = (if pick (sched_of (three_servers [])) = None then XDP_ABORTED else XDP_TX)"
proof (rule request_refines_scheduler [OF ref_lb.lb_kernel_axioms lb_inv_samples(2) sample_request(1)])
  show "load_balancer ref_env (three_servers []) sample_request = Some (XDP_ABORTED,
      (three_servers [])\<lparr>queue := [request_value sample_request]\<rparr>, sample_request)"
    using ref_lb.client_queued [OF sample_request(1) three_servers_busy, of "[]"]
    by (simp add: three_servers_slots queue_map_def)
qed simp

text \<open>
  C4. A completion message is the \<open>complete\<close> step of the scheduler for the sender's slot: one more
  free thread up to five, and the request that has waited longest on the backend that is then best.
\<close>

theorem completion_refines_scheduler:
  assumes "lb_kernel E" "lb_inv st" "backend_message p" "ip_to_key st (sender p) = Some k"
    "servers st k = Some info" "saddr info \<noteq> 0" "fst (adjust_tail E p 7) = 0"
    "load_balancer E st p = Some (act, st', p')"
  shows "sched_of st' = sched_complete k (sched_of st)"
  by (rule lb_kernel.completion_refines [OF assms])

theorem completion_refines_scheduler_witness:
  "sched_of ((one_server 3 [])\<lparr>servers := (servers (one_server 3 []))(0 \<mapsto>
     give_thread (sample_server 2 3))\<rparr>) = sched_complete 0 (sched_of (one_server 3 []))"
proof (rule completion_refines_scheduler [OF ref_lb.lb_kernel_axioms lb_inv_samples(1)
      sample_message(1) one_server_slot(1,2)])
  show "load_balancer ref_env (one_server 3 []) (sample_message 2) = Some (XDP_DROP,
    (one_server 3 [])\<lparr>servers := (servers (one_server 3 []))(0 \<mapsto> give_thread (sample_server 2 3))\<rparr>,
    sample_message 2)"
    using ref_lb.completion_eq [OF lb_inv_samples(1) sample_message(1) one_server_slot(1,2)]
    by (simp add: one_server_slot Let_def)
qed (simp_all add: ref_tail_ok)

text \<open>
  C7. No backend is idle while a request waits: requests and completions keep it so.
\<close>

theorem work_conservation:
  assumes "lb_kernel E" "lb_inv st" "work_conserving (sched_of st)"
    "client_request p \<or> backend_message p \<and> fst (adjust_tail E p 7) = 0 \<and>
      (\<exists>k info. ip_to_key st (sender p) = Some k \<and> servers st k = Some info \<and> saddr info \<noteq> 0)"
    "load_balancer E st p = Some (act, st', p')"
  shows "work_conserving (sched_of st')"
  using assms(4)
proof (elim disjE conjE exE)
  assume "client_request p"
  then show ?thesis
    using lb_kernel.client_refines(1) [OF assms(1,2) _ assms(5)] request_work_conserving assms(3)
    by simp
next
  fix k info assume a: "backend_message p" "fst (adjust_tail E p 7) = 0"
    "ip_to_key st (sender p) = Some k" "servers st k = Some info" "saddr info \<noteq> 0"
  have "unat k < 3" using lb_inv_servers_key [OF assms(2) a(4)] by (simp only: servers_map_keys)
  then have "k \<in> {0, 1, 2}" by (simp add: word_unat_eq_iff) arith
  then show ?thesis
    using lb_kernel.completion_refines [OF assms(1,2) a(1,3-5,2) assms(5)]
      complete_work_conserving [OF assms(3)] by simp
qed

theorem work_conservation_witness:
  "work_conserving (sched_of ((three_servers [])\<lparr>queue := [request_value sample_request]\<rparr>))"
proof (rule work_conservation [OF ref_lb.lb_kernel_axioms lb_inv_samples(2)])
  show "load_balancer ref_env (three_servers []) sample_request = Some (XDP_ABORTED,
      (three_servers [])\<lparr>queue := [request_value sample_request]\<rparr>, sample_request)"
    using ref_lb.client_queued [OF sample_request(1) three_servers_busy, of "[]"]
    by (simp add: three_servers_slots queue_map_def)
qed (simp_all add: work_conserving_def three_servers_slots sample_request)

text \<open>
  C11. A registration breaks it: a server that registers while requests wait gets none of them, and
  stands idle beside them until some server completes a request.
\<close>

theorem registration_leaves_queue:
  assumes "lb_kernel E" "lb_inv st" "backend_message p" "ip_to_key st (sender p) = None"
    "card (dom (ip_to_key st)) < 3" "server_cnt st 0 = Some c" "unat c < 3"
    "servers st (ucast c) = Some info" "saddr info = 0" "sender p \<noteq> 0" "queue st \<noteq> []"
    "load_balancer E st p = Some (act, st', p')"
  shows "sched_of st' = sched_register (ucast c) (sched_of st) \<and>
    queue st' = queue st \<and> \<not> work_conserving (sched_of st')"
proof -
  have reg: "sched_of st' = sched_register (ucast c) (sched_of st)"
    by (rule lb_kernel.register_refines [OF assms(1-10,12)])
  have "unat (ucast c :: u32) < 3"
    using assms(7) by (simp add: unsigned_ucast_eq take_bit_nat_eq_self order_less_trans [OF unsigned_less])
  then have "ucast c \<in> {0, 1, 2 :: u32}" by (simp add: word_unat_eq_iff) arith
  then have "\<not> work_conserving (sched_of st')"
    unfolding reg by (intro register_not_work_conserving) (simp_all add: assms(11))
  moreover have "queue st' = queue st"
    using arg_cong [OF reg, of waiting] by (simp add: sched_register_def)
  ultimately show ?thesis using reg by blast
qed

theorem registration_leaves_queue_witness:
  "\<exists>act st' p'. load_balancer ref_env (lb_init\<lparr>queue := [7]\<rparr>) (sample_message 2) = Some (act, st', p') \<and>
     queue st' = [7] \<and> \<not> work_conserving (sched_of st')"
proof -
  let ?st = "lb_init\<lparr>queue := [7]\<rparr>"
  have inv: "lb_inv ?st" using lb_inv_init by (simp add: lb_inv_def queue_map_def)
  have sender: "sender (sample_message 2) \<noteq> 0"
    using sample_server_address [of 2 0] by (simp add: sample_message sample_server_def)
  have fresh: "ip_to_key ?st (sender (sample_message 2)) = None" "card (dom (ip_to_key ?st)) < 3"
    "server_cnt ?st 0 = Some 0" "unat (0 :: u16) < 3" "servers ?st (ucast (0 :: u16)) = Some zero_info"
    "saddr zero_info = 0"
    by (simp_all add: lb_init_def zero_info_def)
  have waits: "queue ?st \<noteq> []" by simp
  obtain act st' p' where lb: "load_balancer ref_env ?st (sample_message 2) = Some (act, st', p')"
    using ref_lb.registration_eq [OF inv sample_message(1) fresh] by blast
  have "queue st' = queue ?st \<and> \<not> work_conserving (sched_of st')"
    using registration_leaves_queue [OF ref_lb.lb_kernel_axioms inv sample_message(1) fresh sender
        waits lb] by blast
  with lb show ?thesis by auto
qed

end
