(* ===== verification/Udp_Dropper.thy ===== *)
theory Udp_Dropper
  imports Bpf_Kernel Xdp_Packet
begin

text \<open>
  The XDP program \<open>A2-A/server/xdp_dropper.c\<close>: requests with an even number are dropped before the
  server sees them. It has no maps and does not write the packet, so its model is the verdict, or
  \<open>None\<close> for a read outside the packet.
\<close>

definition udp_dropper :: "bytes \<Rightarrow> xdp_action option" where
  "udp_dropper p =
     (let eth = 0
      in if eth + ethhdr_size > length p then Some XDP_ABORTED
      else do {
        h_proto \<leftarrow> eth_h_proto p eth;
        if bpf_ntohs False h_proto \<noteq> ETH_P_IP then Some XDP_PASS
        else let iph = ethhdr_size
        in if ethhdr_size + iphdr_size > length p then Some XDP_ABORTED
        else do {
          protocol \<leftarrow> ip_protocol p iph;
          if protocol \<noteq> IPPROTO_UDP then Some XDP_PASS
          else let udph = ethhdr_size + iphdr_size
          in if ethhdr_size + iphdr_size + udphdr_size > length p then Some XDP_ABORTED
          else do {
            dest \<leftarrow> udp_dest p udph;
            if bpf_ntohs False dest \<noteq> 8080 then Some XDP_PASS
            else let payload = ethhdr_size + iphdr_size + udphdr_size
            in if payload + 8 > length p then Some XDP_ABORTED
            else do {
              value \<leftarrow> ld64 p payload;
              let value = builtin_bswap64 value;
              if value mod 2 = 1 then Some XDP_PASS
              else Some XDP_DROP
            }
          }
        }
      })"

lemma odd_of_nat_le_val:
  "bs \<noteq> [] \<Longrightarrow> length bs = 8 \<Longrightarrow> (of_nat (le_val bs) :: u64) mod 2 = 1 \<longleftrightarrow> odd (unat (hd bs))"
proof -
  assume bs: "bs \<noteq> []" "length bs = 8"
  have "(of_nat (le_val bs) :: u64) mod 2 = 1 \<longleftrightarrow> le_val bs mod 2 = 1"
    using unat_of_nat_le_val [of bs, where 'a = 64] bs(2)
    by (simp add: word_unat_eq_iff unat_mod)
  also have "\<dots> \<longleftrightarrow> odd (unat (hd bs))"
    using bs(1) odd_iff_mod_2_eq_one [of "le_val bs"] by (cases bs) simp_all
  finally show ?thesis .
qed

lemma udp_dropper_eq:
  "udp_dropper p = Some
     (if length p < 14 then XDP_ABORTED
      else if ldn p 12 2 \<noteq> Some [8, 0] then XDP_PASS
      else if length p < 34 then XDP_ABORTED
      else if p ! 23 \<noteq> 17 then XDP_PASS
      else if length p < 42 then XDP_ABORTED
      else if ldn p 36 2 \<noteq> Some [31, 144] then XDP_PASS
      else if length p < 50 then XDP_ABORTED
      else if odd (unat (p ! 49)) then XDP_PASS
      else XDP_DROP)"
proof -
  have proto: "eth_h_proto p 0 = Some (of_nat (le_val (take 2 (drop 12 p))))"
    "ldn p 12 2 = Some (take 2 (drop 12 p))" if "14 \<le> length p"
    using that by (simp_all add: eth_h_proto_def ld16_def ldn_def)
  have dest: "udp_dest p 34 = Some (of_nat (le_val (take 2 (drop 36 p))))"
    "ldn p 36 2 = Some (take 2 (drop 36 p))" if "42 \<le> length p"
    using that by (simp_all add: udp_dest_def ld16_def ldn_def)
  have prot: "ip_protocol p 14 = Some (p ! 23)" if "34 \<le> length p"
    using that by (simp add: ip_protocol_def ld8_def)
  have val: "ld64 p 42 = Some (of_nat (le_val (take 8 (drop 42 p))))"
    "builtin_bswap64 (of_nat (le_val (take 8 (drop 42 p)))) mod 2 = 1 \<longleftrightarrow> odd (unat (p ! 49))"
    if "50 \<le> length p"
  proof -
    show "ld64 p 42 = Some (of_nat (le_val (take 8 (drop 42 p))))"
      using that by (simp add: ld64_def ldn_def)
    have len: "length (take 8 (drop 42 p)) = 8" using that by simp
    have "hd (rev (take 8 (drop 42 p))) = p ! 49"
      using len that by (simp add: hd_rev last_conv_nth)
    then show "builtin_bswap64 (of_nat (le_val (take 8 (drop 42 p)))) mod 2 = 1 \<longleftrightarrow> odd (unat (p ! 49))"
      using odd_of_nat_le_val [of "rev (take 8 (drop 42 p))"] len that
      by (simp add: bswap_of_le_val)
  qed
  show ?thesis
    using proto dest prot val be16_eq_iff [of p 12 "take 2 (drop 12 p)" False ETH_P_IP]
      be16_eq_iff [of p 36 "take 2 (drop 36 p)" False 8080]
    by (simp add: udp_dropper_def Let_def le_bytes_ports IPPROTO_UDP_def not_less)
qed

text \<open>
  C15. The program returns a verdict on any packet without reading outside it, and drops exactly the
  UDP datagrams to port 8080 whose first eight bytes of payload are, in network order, an even
  number; datagrams to that port with less payload are aborted.
\<close>

theorem udp_dropper_verdict:
  "udp_dropper p \<noteq> None \<and>
   (udp_dropper p = Some XDP_DROP \<longleftrightarrow>
      is_udp_8080 p \<and> 50 \<le> length p \<and> even (le_val (rev (take 8 (drop 42 p)))))"
proof -
  have "even (le_val (rev (take 8 (drop 42 p)))) \<longleftrightarrow> even (unat (p ! 49))" if "50 \<le> length p"
  proof -
    have "take 8 (drop 42 p) = take 7 (drop 42 p) @ [p ! 49]"
      using that take_Suc_conv_app_nth [of 7 "drop 42 p"] by simp
    then show ?thesis by simp
  qed
  then show ?thesis by (auto simp: udp_dropper_eq is_udp_8080_def)
qed

end
