(* ===== verification/Keyed_Store.thy ===== *)
theory Keyed_Store
  imports Mem_Prelude
begin

text \<open>
  The interface of a store of values under keys, as its clients see it: what each operation does to
  the function from keys to values, and what a client may do in a row. Keys are compared by the
  store's own notion of sameness.
\<close>

datatype ('k, 'v) store_op = Add 'k 'v | Set 'k 'v | Update 'k 'v | Delete 'k

text \<open>The operations on a function from keys to values.\<close>

fun apply_op :: "('k \<Rightarrow> 'k \<Rightarrow> bool) \<Rightarrow> ('k, 'v) store_op \<Rightarrow> ('k \<Rightarrow> 'v option) \<Rightarrow> 'k \<Rightarrow> 'v option" where
  "apply_op same (Add k v) f = (if f k = None then (\<lambda>k'. if same k k' then Some v else f k') else f)"
| "apply_op same (Set k v) f = (\<lambda>k'. if same k k' then Some v else f k')"
| "apply_op same (Update k v) f =
     (if f k = None then f else (\<lambda>k'. if same k k' then Some v else f k'))"
| "apply_op same (Delete k) f = (\<lambda>k'. if same k k' then None else f k')"

definition apply_ops ::
  "('k \<Rightarrow> 'k \<Rightarrow> bool) \<Rightarrow> ('k, 'v) store_op list \<Rightarrow> ('k \<Rightarrow> 'v option) \<Rightarrow> 'k \<Rightarrow> 'v option" where
  "apply_ops same ops f = foldl (\<lambda>f oper. apply_op same oper f) f ops"

fun run_store :: "(('k, 'v) store_op \<Rightarrow> 's \<Rightarrow> 's option) \<Rightarrow> ('k, 'v) store_op list \<Rightarrow> 's \<Rightarrow> 's option" where
  "run_store step [] s = Some s"
| "run_store step (oper # ops) s = Option.bind (step oper s) (run_store step ops)"

locale keyed_store =
  fixes store_ok :: "'s \<Rightarrow> bool"
    and store_abs :: "'s \<Rightarrow> 'k \<Rightarrow> 'v option"
    and same :: "'k \<Rightarrow> 'k \<Rightarrow> bool"
    and count :: "'s \<Rightarrow> nat"
    and limit :: nat
    and lookup :: "'s \<Rightarrow> 'k \<Rightarrow> 'v option option"
    and step :: "('k, 'v) store_op \<Rightarrow> 's \<Rightarrow> 's option"
  assumes store_lookup: "store_ok s \<Longrightarrow> lookup s k = Some (store_abs s k)"
    and store_step: "store_ok s \<Longrightarrow> count s < limit \<Longrightarrow>
      \<exists>s'. step oper s = Some s' \<and> store_ok s' \<and> count s' \<le> count s + 1 \<and>
        store_abs s' = apply_op same oper (store_abs s)"
begin

lemma run_correct:
  "store_ok s \<Longrightarrow> count s + length ops \<le> limit \<Longrightarrow>
    \<exists>s'. run_store step ops s = Some s' \<and> store_ok s' \<and>
      store_abs s' = apply_ops same ops (store_abs s)"
proof (induction ops arbitrary: s)
  case Nil
  then show ?case by (simp add: apply_ops_def)
next
  case (Cons oper ops)
  obtain s' where s': "step oper s = Some s'" "store_ok s'" "count s' \<le> count s + 1"
    "store_abs s' = apply_op same oper (store_abs s)"
    using store_step [of s oper] Cons.prems by auto
  with Cons.IH [of s'] Cons.prems show ?case by (auto simp: apply_ops_def)
qed

lemma lookup_after_run:
  assumes "store_ok s" "count s + length ops \<le> limit"
  shows "\<exists>s'. run_store step ops s = Some s' \<and>
    (\<forall>k. lookup s' k = Some (apply_ops same ops (store_abs s) k))"
  using run_correct [OF assms] store_lookup by fastforce

end

end
