(* ===== verification/Hashmap.thy ===== *)
theory Hashmap
  imports Errno Keyed_Store "HOL-Library.Multiset"
begin

text \<open>
  The hash map of libbpf, \<open>hashmap.h\<close> and \<open>hashmap.c\<close>. A chain of entries is a list, the pointer
  \<open>pprev\<close> to an entry is the split of its chain at the entry. \<open>malloc\<close> and \<open>calloc\<close> may fail: the
  operations take their outcome as arguments. \<open>size_t\<close> has 64 bits.
\<close>

section \<open>Hashing\<close>

definition hash_bits :: "u64 \<Rightarrow> nat \<Rightarrow> u64" where
  "hash_bits h bits = (if bits = 0 then 0 else drop_bit (64 - bits) (h * 11400714819323198485))"

text \<open>The characters of a C string, without its terminator; \<open>char\<close> is signed.\<close>

fun str_hash_loop :: "u64 \<Rightarrow> bytes \<Rightarrow> u64" where
  "str_hash_loop h [] = h"
| "str_hash_loop h (c # s) = str_hash_loop (h * 31 + scast c) s"

definition str_hash :: "bytes \<Rightarrow> u64" where
  "str_hash s = str_hash_loop 0 s"

section \<open>The map\<close>

record ('k, 'v) hashmap_entry =
  e_key :: 'k
  e_value :: 'v

text \<open>\<open>ctx\<close> is what the context pointer points to when an operation is called.\<close>

record ('c, 'k, 'v) hashmap =
  hash_fn :: "'k \<Rightarrow> 'c \<Rightarrow> u64"
  equal_fn :: "'k \<Rightarrow> 'k \<Rightarrow> 'c \<Rightarrow> bool"
  hm_ctx :: 'c
  buckets :: "('k, 'v) hashmap_entry list list option"
  cap :: u64
  cap_bits :: u64
  sz :: u64

datatype hashmap_insert_strategy = HASHMAP_ADD | HASHMAP_SET | HASHMAP_UPDATE | HASHMAP_APPEND

abbreviation (input) HASHMAP_MIN_CAP_BITS :: u64 where "HASHMAP_MIN_CAP_BITS \<equiv> 2"

definition hashmap_add_entry :: "'e list \<Rightarrow> 'e \<Rightarrow> 'e list" where
  "hashmap_add_entry chain entry = entry # chain"

definition hashmap_del_entry :: "'e list \<times> 'e \<times> 'e list \<Rightarrow> 'e list" where
  "hashmap_del_entry at = (case at of (before, entry, after) \<Rightarrow> before @ after)"

definition hashmap_init ::
  "('k \<Rightarrow> 'c \<Rightarrow> u64) \<Rightarrow> ('k \<Rightarrow> 'k \<Rightarrow> 'c \<Rightarrow> bool) \<Rightarrow> 'c \<Rightarrow> ('c, 'k, 'v) hashmap" where
  "hashmap_init h e c = \<lparr>hash_fn = h, equal_fn = e, hm_ctx = c, buckets = None, cap = 0,
     cap_bits = 0, sz = 0\<rparr>"

definition hashmap_new ::
  "bool \<Rightarrow> ('k \<Rightarrow> 'c \<Rightarrow> u64) \<Rightarrow> ('k \<Rightarrow> 'k \<Rightarrow> 'c \<Rightarrow> bool) \<Rightarrow> 'c \<Rightarrow> int + ('c, 'k, 'v) hashmap" where
  "hashmap_new malloc_ok h e c = (if \<not> malloc_ok then Inl (- ENOMEM) else Inr (hashmap_init h e c))"

text \<open>\<open>hashmap__for_each_entry\<close>: the entries in the order of the two loops.\<close>

definition for_each_entry :: "('c, 'k, 'v) hashmap \<Rightarrow> ('k, 'v) hashmap_entry list" where
  "for_each_entry m = (case buckets m of None \<Rightarrow> [] | Some bs \<Rightarrow> concat (take (unat (cap m)) bs))"

definition hashmap_clear :: "('c, 'k, 'v) hashmap \<Rightarrow> ('c, 'k, 'v) hashmap" where
  "hashmap_clear m = m\<lparr>buckets := None, cap := 0, cap_bits := 0, sz := 0\<rparr>"

definition hashmap_size :: "('c, 'k, 'v) hashmap \<Rightarrow> u64" where
  "hashmap_size m = sz m"

definition hashmap_capacity :: "('c, 'k, 'v) hashmap \<Rightarrow> u64" where
  "hashmap_capacity m = cap m"

definition hashmap_needs_to_grow :: "('c, 'k, 'v) hashmap \<Rightarrow> bool" where
  "hashmap_needs_to_grow m \<longleftrightarrow> cap m = 0 \<or> (sz m + 1) * 4 div 3 > cap m"

fun rehash_entries ::
  "('k, 'v) hashmap_entry list \<Rightarrow> ('k \<Rightarrow> u64) \<Rightarrow> ('k, 'v) hashmap_entry list list \<Rightarrow>
    ('k, 'v) hashmap_entry list list option" where
  "rehash_entries [] h new_buckets = Some new_buckets"
| "rehash_entries (cur # es) h new_buckets = do {
     chain \<leftarrow> arr_get new_buckets (unat (h (e_key cur)));
     new_buckets \<leftarrow> arr_set new_buckets (unat (h (e_key cur))) (hashmap_add_entry chain cur);
     rehash_entries es h new_buckets
   }"

definition hashmap_grow :: "bool \<Rightarrow> ('c, 'k, 'v) hashmap \<Rightarrow> (int \<times> ('c, 'k, 'v) hashmap) option" where
  "hashmap_grow calloc_ok m =
     (let new_cap_bits = cap_bits m + 1;
          new_cap_bits = (if new_cap_bits < HASHMAP_MIN_CAP_BITS then HASHMAP_MIN_CAP_BITS
                          else new_cap_bits);
          new_cap = push_bit (unat new_cap_bits) 1
      in if \<not> calloc_ok then Some (- ENOMEM, m)
         else do {
           new_buckets \<leftarrow> rehash_entries (for_each_entry m)
             (\<lambda>k. hash_bits (hash_fn m k (hm_ctx m)) (unat new_cap_bits))
             (replicate (unat new_cap) []);
           Some (0, m\<lparr>cap := new_cap, cap_bits := new_cap_bits, buckets := Some new_buckets\<rparr>)
         })"

fun find_in_chain :: "('e \<Rightarrow> bool) \<Rightarrow> 'e list \<Rightarrow> ('e list \<times> 'e \<times> 'e list) option" where
  "find_in_chain P [] = None"
| "find_in_chain P (cur # rest) =
     (if P cur then Some ([], cur, rest)
      else map_option (\<lambda>(before, e, after). (cur # before, e, after)) (find_in_chain P rest))"

text \<open>The entry with its place in the chain of the bucket, or \<open>Some None\<close> when there is none.\<close>

definition hashmap_find_entry ::
  "('c, 'k, 'v) hashmap \<Rightarrow> 'k \<Rightarrow> u64 \<Rightarrow>
    (('k, 'v) hashmap_entry list \<times> ('k, 'v) hashmap_entry \<times> ('k, 'v) hashmap_entry list) option option"
  where
  "hashmap_find_entry m key hash =
     (case buckets m of
        None \<Rightarrow> Some None
      | Some bs \<Rightarrow> do {
          chain \<leftarrow> arr_get bs (unat hash);
          Some (find_in_chain (\<lambda>cur. equal_fn m (e_key cur) key (hm_ctx m)) chain)
        })"

definition set_chain ::
  "('c, 'k, 'v) hashmap \<Rightarrow> u64 \<Rightarrow> ('k, 'v) hashmap_entry list \<Rightarrow> ('c, 'k, 'v) hashmap option" where
  "set_chain m h chain = do {
     bs \<leftarrow> buckets m;
     bs \<leftarrow> arr_set bs (unat h) chain;
     Some (m\<lparr>buckets := Some bs\<rparr>)
   }"

definition key_hash :: "('c, 'k, 'v) hashmap \<Rightarrow> 'k \<Rightarrow> u64" where
  "key_hash m key = hash_bits (hash_fn m key (hm_ctx m)) (unat (cap_bits m))"

text \<open>The part of \<open>hashmap__insert\<close> after the search: a new entry, in a map grown if need be.\<close>

definition insert_new_entry ::
  "bool \<Rightarrow> bool \<Rightarrow> ('c, 'k, 'v) hashmap \<Rightarrow> 'k \<Rightarrow> 'v \<Rightarrow> (int \<times> ('c, 'k, 'v) hashmap) option" where
  "insert_new_entry calloc_ok malloc_ok m key v = do {
     (err, m) \<leftarrow> (if hashmap_needs_to_grow m then hashmap_grow calloc_ok m else Some (0, m));
     if err \<noteq> 0 then Some (err, m)
     else if \<not> malloc_ok then Some (- ENOMEM, m)
     else do {
       bs \<leftarrow> buckets m;
       chain \<leftarrow> arr_get bs (unat (key_hash m key));
       m \<leftarrow> set_chain m (key_hash m key) (hashmap_add_entry chain \<lparr>e_key = key, e_value = v\<rparr>);
       Some (0, m\<lparr>sz := sz m + 1\<rparr>)
     }
   }"

text \<open>The result is the return value, the old key and value passed back if there are, and the map.\<close>

definition hashmap_insert ::
  "bool \<Rightarrow> bool \<Rightarrow> ('c, 'k, 'v) hashmap \<Rightarrow> 'k \<Rightarrow> 'v \<Rightarrow> hashmap_insert_strategy \<Rightarrow>
    (int \<times> ('k \<times> 'v) option \<times> ('c, 'k, 'v) hashmap) option" where
  "hashmap_insert calloc_ok malloc_ok m key v strategy = do {
     let h = key_hash m key;
     found \<leftarrow> (if strategy \<noteq> HASHMAP_APPEND then hashmap_find_entry m key h else Some None);
     (case found of
        Some (before, entry, after) \<Rightarrow>
          (let old = Some (e_key entry, e_value entry)
           in if strategy = HASHMAP_SET \<or> strategy = HASHMAP_UPDATE then do {
                m \<leftarrow> set_chain m h (before @ \<lparr>e_key = key, e_value = v\<rparr> # after);
                Some (0, old, m)
              }
              else Some (- EEXIST, old, m))
      | None \<Rightarrow>
          if strategy = HASHMAP_UPDATE then Some (- ENOENT, None, m)
          else do {
            (err, m) \<leftarrow> insert_new_entry calloc_ok malloc_ok m key v;
            Some (err, None, m)
          })
   }"

definition hashmap_find :: "('c, 'k, 'v) hashmap \<Rightarrow> 'k \<Rightarrow> 'v option option" where
  "hashmap_find m key = do {
     found \<leftarrow> hashmap_find_entry m key (key_hash m key);
     Some (case found of None \<Rightarrow> None | Some (before, entry, after) \<Rightarrow> Some (e_value entry))
   }"

definition hashmap_delete ::
  "('c, 'k, 'v) hashmap \<Rightarrow> 'k \<Rightarrow> (bool \<times> ('k \<times> 'v) option \<times> ('c, 'k, 'v) hashmap) option" where
  "hashmap_delete m key = do {
     let h = key_hash m key;
     found \<leftarrow> hashmap_find_entry m key h;
     (case found of
        None \<Rightarrow> Some (False, None, m)
      | Some (before, entry, after) \<Rightarrow> do {
          m \<leftarrow> set_chain m h (hashmap_del_entry (before, entry, after));
          Some (True, Some (e_key entry, e_value entry), m\<lparr>sz := sz m - 1\<rparr>)
        })
   }"

definition hashmap_add ::
  "bool \<Rightarrow> bool \<Rightarrow> ('c, 'k, 'v) hashmap \<Rightarrow> 'k \<Rightarrow> 'v \<Rightarrow> (int \<times> ('c, 'k, 'v) hashmap) option" where
  "hashmap_add calloc_ok malloc_ok m key v = do {
     (err, old, m) \<leftarrow> hashmap_insert calloc_ok malloc_ok m key v HASHMAP_ADD;
     Some (err, m)
   }"

definition hashmap_append ::
  "bool \<Rightarrow> bool \<Rightarrow> ('c, 'k, 'v) hashmap \<Rightarrow> 'k \<Rightarrow> 'v \<Rightarrow> (int \<times> ('c, 'k, 'v) hashmap) option" where
  "hashmap_append calloc_ok malloc_ok m key v = do {
     (err, old, m) \<leftarrow> hashmap_insert calloc_ok malloc_ok m key v HASHMAP_APPEND;
     Some (err, m)
   }"

definition hashmap_set ::
  "bool \<Rightarrow> bool \<Rightarrow> ('c, 'k, 'v) hashmap \<Rightarrow> 'k \<Rightarrow> 'v \<Rightarrow>
    (int \<times> ('k \<times> 'v) option \<times> ('c, 'k, 'v) hashmap) option" where
  "hashmap_set calloc_ok malloc_ok m key v = hashmap_insert calloc_ok malloc_ok m key v HASHMAP_SET"

definition hashmap_update ::
  "bool \<Rightarrow> bool \<Rightarrow> ('c, 'k, 'v) hashmap \<Rightarrow> 'k \<Rightarrow> 'v \<Rightarrow>
    (int \<times> ('k \<times> 'v) option \<times> ('c, 'k, 'v) hashmap) option" where
  "hashmap_update calloc_ok malloc_ok m key v =
     hashmap_insert calloc_ok malloc_ok m key v HASHMAP_UPDATE"

text \<open>\<open>hashmap__for_each_key_entry\<close>: the entries of a key, in the order of the loop.\<close>

definition for_each_key_entry :: "('c, 'k, 'v) hashmap \<Rightarrow> 'k \<Rightarrow> ('k, 'v) hashmap_entry list option" where
  "for_each_key_entry m key =
     (case buckets m of
        None \<Rightarrow> Some []
      | Some bs \<Rightarrow> do {
          chain \<leftarrow> arr_get bs (unat (key_hash m key));
          Some (filter (\<lambda>cur. equal_fn m (e_key cur) key (hm_ctx m)) chain)
        })"
section \<open>The shape of the map\<close>

definition hm_inv :: "('c, 'k, 'v) hashmap \<Rightarrow> bool" where
  "hm_inv m \<longleftrightarrow> (case buckets m of
     None \<Rightarrow> cap m = 0 \<and> cap_bits m = 0 \<and> sz m = 0
   | Some bs \<Rightarrow> 0 < cap_bits m \<and> unat (cap_bits m) < 64 \<and> unat (cap m) = 2 ^ unat (cap_bits m) \<and>
       length bs = unat (cap m) \<and> unat (sz m) = length (concat bs) \<and>
       (\<forall>i < length bs. \<forall>e \<in> set (bs ! i). unat (key_hash m (e_key e)) = i))"

text \<open>What the map asks of its callbacks: keys that are equal hash alike.\<close>

definition callbacks_ok :: "('c, 'k, 'v) hashmap \<Rightarrow> bool" where
  "callbacks_ok m \<longleftrightarrow>
     (\<forall>k. equal_fn m k k (hm_ctx m)) \<and>
     (\<forall>k k'. equal_fn m k k' (hm_ctx m) \<longrightarrow> equal_fn m k' k (hm_ctx m)) \<and>
     (\<forall>k k' k''. equal_fn m k k' (hm_ctx m) \<longrightarrow> equal_fn m k' k'' (hm_ctx m) \<longrightarrow>
        equal_fn m k k'' (hm_ctx m)) \<and>
     (\<forall>k k'. equal_fn m k k' (hm_ctx m) \<longrightarrow> hash_fn m k (hm_ctx m) = hash_fn m k' (hm_ctx m))"

abbreviation same_key :: "('c, 'k, 'v) hashmap \<Rightarrow> 'k \<Rightarrow> 'k \<Rightarrow> bool" where
  "same_key m k k' \<equiv> equal_fn m k k' (hm_ctx m)"

abbreviation same_callbacks :: "('c, 'k, 'v) hashmap \<Rightarrow> ('c, 'k, 'v) hashmap \<Rightarrow> bool" where
  "same_callbacks m m' \<equiv> hash_fn m' = hash_fn m \<and> equal_fn m' = equal_fn m \<and> hm_ctx m' = hm_ctx m"

lemma hash_bits_less: "bits \<le> 64 \<Longrightarrow> unat (hash_bits h bits) < 2 ^ bits"
proof -
  assume bits: "bits \<le> 64"
  have "unat (h * 11400714819323198485) < 2 ^ bits * 2 ^ (64 - bits)"
    using unsigned_less [of "h * 11400714819323198485"] bits by (simp flip: power_add)
  then have "unat (h * 11400714819323198485) div 2 ^ (64 - bits) < 2 ^ bits"
    by (rule less_mult_imp_div_less)
  moreover have "unat (drop_bit (64 - bits) (h * 11400714819323198485)) =
      unat (h * 11400714819323198485) div 2 ^ (64 - bits)"
    unfolding unat_drop_bit_eq by (rule drop_bit_eq_div)
  ultimately show ?thesis by (simp only: hash_bits_def split: if_split) simp
qed

lemma hm_inv_init: "hm_inv (hashmap_init h e c)"
  by (simp add: hm_inv_def hashmap_init_def)

lemma hm_inv_buckets:
  assumes "hm_inv m" "buckets m = Some bs"
  shows "0 < cap_bits m" "unat (cap_bits m) < 64" "unat (cap m) = 2 ^ unat (cap_bits m)"
    "length bs = unat (cap m)" "unat (sz m) = length (concat bs)" "for_each_entry m = concat bs"
    "cap m \<noteq> 0"
    "i < length bs \<Longrightarrow> x \<in> set (bs ! i) \<Longrightarrow> unat (key_hash m (e_key x)) = i"
  using assms by (auto simp: hm_inv_def for_each_entry_def unat_eq_zero)

lemma hm_inv_empty: "hm_inv m \<Longrightarrow> buckets m = None \<Longrightarrow> for_each_entry m = [] \<and> cap m = 0 \<and> sz m = 0"
  by (simp add: hm_inv_def for_each_entry_def)

lemma hm_inv_size: "hm_inv m \<Longrightarrow> unat (sz m) = length (for_each_entry m)"
  by (cases "buckets m") (auto simp: hm_inv_buckets hm_inv_empty)

lemma key_hash_in_range:
  assumes "hm_inv m" "buckets m = Some bs"
  shows "unat (key_hash m k) < length bs"
  using hash_bits_less [of "unat (cap_bits m)"] hm_inv_buckets [OF assms]
  by (simp add: key_hash_def)

lemma same_key_hash: "callbacks_ok m \<Longrightarrow> same_key m k k' \<Longrightarrow> key_hash m k = key_hash m k'"
  unfolding callbacks_ok_def key_hash_def by metis

lemma same_key_sym: "callbacks_ok m \<Longrightarrow> same_key m k k' \<longleftrightarrow> same_key m k' k"
  unfolding callbacks_ok_def by blast

lemma same_key_trans:
  "callbacks_ok m \<Longrightarrow> same_key m k k' \<Longrightarrow> same_key m k'' k \<longleftrightarrow> same_key m k'' k'"
  unfolding callbacks_ok_def by blast

lemma find_in_chain_None: "find_in_chain P es = None \<longleftrightarrow> (\<forall>e \<in> set es. \<not> P e)"
  by (induction es) auto

lemma find_in_chain_Some:
  "find_in_chain P es = Some (before, e, after) \<Longrightarrow>
    es = before @ e # after \<and> P e \<and> (\<forall>x \<in> set before. \<not> P x)"
  by (induction es arbitrary: before) (auto split: if_splits)

text \<open>The search meets the bucket's chain only, and there is nothing to find elsewhere.\<close>

lemma find_entry_cases:
  assumes "hm_inv m" "callbacks_ok m"
  obtains (none) "hashmap_find_entry m k (key_hash m k) = Some None"
      "\<forall>e \<in> set (for_each_entry m). \<not> same_key m (e_key e) k"
  | (found) bs before e after A B where "buckets m = Some bs"
      "hashmap_find_entry m k (key_hash m k) = Some (Some (before, e, after))"
      "bs ! unat (key_hash m k) = before @ e # after" "same_key m (e_key e) k"
      "for_each_entry m = A @ (before @ e # after) @ B"
      "\<And>c. concat (bs[unat (key_hash m k) := c]) = A @ c @ B"
      "\<forall>x \<in> set (A @ before). \<not> same_key m (e_key x) k"
proof (cases "buckets m")
  case None
  then show ?thesis
    using hm_inv_empty [OF assms(1) None] by (intro none) (simp_all add: hashmap_find_entry_def)
next
  case (Some bs)
  let ?h = "unat (key_hash m k)"
  define A B where "A = concat (take ?h bs)" and "B = concat (drop (Suc ?h) bs)"
  have h: "?h < length bs" by (rule key_hash_in_range [OF assms(1) Some])
  have elsewhere: "\<not> same_key m (e_key x) k" if "i < length bs" "x \<in> set (bs ! i)" "i \<noteq> ?h" for i x
    using hm_inv_buckets(8) [OF assms(1) Some that(1,2)] that(3) same_key_hash [OF assms(2)] by auto
  have entries: "for_each_entry m = A @ bs ! ?h @ B"
    using concat_nth_split [OF h] hm_inv_buckets(6) [OF assms(1) Some] by (simp add: A_def B_def)
  have before: "\<forall>x \<in> set A. \<not> same_key m (e_key x) k"
  proof
    fix x assume "x \<in> set A"
    then obtain ys where "ys \<in> set (take ?h bs)" "x \<in> set ys" by (auto simp: A_def)
    moreover from this obtain j where "j < ?h" "ys = bs ! j" by (auto simp: in_set_conv_nth)
    ultimately show "\<not> same_key m (e_key x) k" using elsewhere [of j] h by auto
  qed
  have after: "\<forall>x \<in> set B. \<not> same_key m (e_key x) k"
  proof
    fix x assume "x \<in> set B"
    then obtain ys where "ys \<in> set (drop (Suc ?h) bs)" "x \<in> set ys" by (auto simp: B_def)
    moreover from this(1) obtain j where "j < length (drop (Suc ?h) bs)" "ys = drop (Suc ?h) bs ! j"
      by (metis in_set_conv_nth)
    ultimately show "\<not> same_key m (e_key x) k" using elsewhere [of "Suc ?h + j" x] h by simp
  qed
  have find: "hashmap_find_entry m k (key_hash m k) =
      Some (find_in_chain (\<lambda>cur. same_key m (e_key cur) k) (bs ! ?h))"
    using h by (simp add: hashmap_find_entry_def Some)
  show ?thesis
  proof (cases "find_in_chain (\<lambda>cur. same_key m (e_key cur) k) (bs ! ?h)")
    case None
    then have "\<forall>e \<in> set (bs ! ?h). \<not> same_key m (e_key e) k" by (simp add: find_in_chain_None)
    then have "\<forall>e \<in> set (for_each_entry m). \<not> same_key m (e_key e) k"
      unfolding entries using before after by (simp add: ball_Un)
    with None find show ?thesis by (intro none) simp_all
  next
    case (Some a)
    obtain b e c where a: "a = (b, e, c)" by (cases a)
    have chain: "bs ! ?h = b @ e # c" "same_key m (e_key e) k"
      "\<forall>x \<in> set b. \<not> same_key m (e_key x) k"
      using find_in_chain_Some [OF Some [unfolded a]] by simp_all
    show ?thesis
    proof (rule found [OF \<open>buckets m = Some bs\<close> _ chain(1,2)])
      show "hashmap_find_entry m k (key_hash m k) = Some (Some (b, e, c))"
        by (simp only: find Some a)
      show "for_each_entry m = A @ (b @ e # c) @ B" by (simp only: entries chain(1))
      show "concat (bs[?h := c]) = A @ c @ B" for c
        using concat_update_split [OF h] by (simp add: A_def B_def)
      show "\<forall>x \<in> set (A @ b). \<not> same_key m (e_key x) k"
        using before chain(3) by (simp add: ball_Un)
    qed
  qed
qed
section \<open>Growing\<close>

lemma mset_concat_update:
  "i < length xss \<Longrightarrow> mset (concat (xss[i := x # xss ! i])) = add_mset x (mset (concat xss))"
  using concat_update_split [of i xss "x # xss ! i"] concat_nth_split [of i xss] by simp

lemma rehash_entries_spec:
  assumes "\<forall>e \<in> set es. unat (h (e_key e)) < length bs"
  shows "\<exists>bs'. rehash_entries es h bs = Some bs' \<and> length bs' = length bs \<and>
    mset (concat bs') = mset es + mset (concat bs) \<and>
    (\<forall>i < length bs. bs' ! i = rev (filter (\<lambda>e. unat (h (e_key e)) = i) es) @ bs ! i)"
  using assms
proof (induction es arbitrary: bs)
  case Nil
  then show ?case by simp
next
  case (Cons e es)
  let ?i = "unat (h (e_key e))"
  let ?bs = "bs[?i := e # bs ! ?i]"
  have i: "?i < length bs" using Cons.prems by simp
  obtain bs' where bs': "rehash_entries es h ?bs = Some bs'" "length bs' = length bs"
    "mset (concat bs') = mset es + mset (concat ?bs)"
    "\<forall>i < length bs. bs' ! i = rev (filter (\<lambda>e. unat (h (e_key e)) = i) es) @ ?bs ! i"
    using Cons.IH [of ?bs] Cons.prems by auto
  have "bs' ! j = rev (filter (\<lambda>e. unat (h (e_key e)) = j) (e # es)) @ bs ! j" if "j < length bs" for j
    using bs'(4) that by (cases "j = ?i") simp_all
  with i bs' show ?case by (simp add: hashmap_add_entry_def mset_concat_update)
qed

definition grown_bits :: "u64 \<Rightarrow> nat" where
  "grown_bits b = (if b = 0 then 2 else unat b + 1)"

lemma grow_bits:
  assumes "hm_inv m" "unat (sz m) < 2 ^ 60" "hashmap_needs_to_grow m"
  shows "unat (cap_bits m) \<le> 60"
proof (cases "buckets m")
  case None
  with assms(1) show ?thesis by (simp add: hm_inv_def)
next
  case (Some bs)
  have "unat (sz m + 1) = unat (sz m) + 1" using assms(2) by (simp add: unat_word_ariths)
  then have "unat ((sz m + 1) * 4) = (unat (sz m) + 1) * 4"
    using assms(2) by (simp add: unat_word_ariths)
  then have "unat ((sz m + 1) * 4 div 3) = (unat (sz m) + 1) * 4 div 3" by (simp add: unat_div)
  moreover have "cap m < (sz m + 1) * 4 div 3"
    using assms(3) hm_inv_buckets(7) [OF assms(1) Some] by (simp add: hashmap_needs_to_grow_def)
  ultimately have "unat (cap m) < (unat (sz m) + 1) * 4 div 3" by (simp add: word_less_nat_alt)
  also have "\<dots> \<le> 2 ^ 61" using assms(2) by simp
  finally have "(2 :: nat) ^ unat (cap_bits m) < 2 ^ 61"
    using hm_inv_buckets(3) [OF assms(1) Some] by simp
  then have "unat (cap_bits m) < 61" by (rule power_less_imp_less_exp [rotated]) simp
  then show ?thesis by simp
qed

lemma hashmap_grow_spec:
  assumes "hm_inv m" "unat (sz m) < 2 ^ 60" "hashmap_needs_to_grow m"
  shows "\<exists>m'. hashmap_grow True m = Some (0, m') \<and> hm_inv m' \<and> same_callbacks m m' \<and>
    sz m' = sz m \<and> mset (for_each_entry m') = mset (for_each_entry m) \<and>
    (\<exists>bs. buckets m' = Some bs \<and> (\<forall>i < length bs.
       bs ! i = rev (filter (\<lambda>e. unat (key_hash m' (e_key e)) = i) (for_each_entry m))))"
proof -
  define b where "b = (if cap_bits m + 1 < 2 then 2 else cap_bits m + 1)"
  have le: "unat (cap_bits m) \<le> 60" by (rule grow_bits [OF assms])
  then have c1: "unat (cap_bits m + 1) = unat (cap_bits m) + 1" by (simp add: unat_word_ariths)
  have b: "0 < unat b" "unat b \<le> 61"
    using le c1 by (auto simp: b_def word_less_nat_alt)
  define c :: u64 where "c = push_bit (unat b) 1"
  have c: "unat c = 2 ^ unat b"
  proof -
    have "(2 :: nat) ^ unat b < 2 ^ 64" using b by (intro power_strict_increasing) simp_all
    then show ?thesis
      unfolding c_def unsigned_push_bit_eq using b
      by (simp add: push_bit_eq_mult take_bit_nat_eq_self)
  qed
  have c2: "2 ^ unat b = c" by (simp add: c_def)
  let ?h = "\<lambda>k. hash_bits (hash_fn m k (hm_ctx m)) (unat b)"
  obtain bs' where bs': "rehash_entries (for_each_entry m) ?h (replicate (unat c) []) = Some bs'"
    "length bs' = unat c" "mset (concat bs') = mset (for_each_entry m)"
    "\<forall>i < unat c. bs' ! i = rev (filter (\<lambda>e. unat (?h (e_key e)) = i) (for_each_entry m))"
    using rehash_entries_spec [of "for_each_entry m" ?h "replicate (unat c) []"] b hash_bits_less [of "unat b"]
    by (auto simp: c)
  define m' where "m' = m\<lparr>cap := c, cap_bits := b, buckets := Some bs'\<rparr>"
  have "hashmap_grow True m = Some (0, m')"
    using bs'(1) by (simp add: hashmap_grow_def Let_def b_def [symmetric] c2 m'_def)
  moreover have entries: "for_each_entry m' = concat bs'"
    using bs'(2) by (simp add: for_each_entry_def m'_def)
  moreover have "length (concat bs') = length (for_each_entry m)"
    using bs'(3) by (metis size_mset)
  then have "hm_inv m'"
    using b c bs'(2,4) hm_inv_size [OF assms(1)]
    by (auto simp: hm_inv_def m'_def key_hash_def word_gt_0 unat_gt_0)
  moreover have "\<exists>bs. buckets m' = Some bs \<and> (\<forall>i < length bs.
      bs ! i = rev (filter (\<lambda>e. unat (key_hash m' (e_key e)) = i) (for_each_entry m)))"
    using bs'(2,4) by (simp add: m'_def key_hash_def)
  ultimately show ?thesis using bs'(3) by (intro exI [of _ m']) (simp add: m'_def)
qed
section \<open>The map as a function\<close>

text \<open>The value stored for a key; keys that are equal by the callback are one key.\<close>

definition hm_abs :: "('c, 'k, 'v) hashmap \<Rightarrow> 'k \<Rightarrow> 'v option" where
  "hm_abs m k = map_option e_value (List.find (\<lambda>e. same_key m (e_key e) k) (for_each_entry m))"

definition unique_keys :: "('c, 'k, 'v) hashmap \<Rightarrow> bool" where
  "unique_keys m \<longleftrightarrow>
     (\<forall>k. size (filter_mset (\<lambda>e. same_key m (e_key e) k) (mset (for_each_entry m))) \<le> 1)"

definition hm_ok :: "('c, 'k, 'v) hashmap \<Rightarrow> bool" where
  "hm_ok m \<longleftrightarrow> hm_inv m \<and> callbacks_ok m \<and> unique_keys m"

lemma hm_okD: "hm_ok m \<Longrightarrow> hm_inv m" "hm_ok m \<Longrightarrow> callbacks_ok m" "hm_ok m \<Longrightarrow> unique_keys m"
  by (simp_all add: hm_ok_def)

lemma find_append_none: "\<forall>x \<in> set xs. \<not> P x \<Longrightarrow> List.find P (xs @ ys) = List.find P ys"
  by (induction xs) auto

lemma find_SomeD: "List.find P xs = Some x \<Longrightarrow> x \<in> set xs \<and> P x"
  by (auto simp: find_Some_iff)

lemma hm_abs_None: "hm_abs m k = None \<longleftrightarrow> (\<forall>e \<in> set (for_each_entry m). \<not> same_key m (e_key e) k)"
  by (auto simp: hm_abs_def find_None_iff)

lemma at_most_one: "size M \<le> 1 \<Longrightarrow> x \<in># M \<Longrightarrow> y \<in># M \<Longrightarrow> x = y"
  using size_1_singleton_mset [of M] by (cases "M = {#}") (auto simp: le_Suc_eq)

lemma hm_abs_Some:
  assumes "unique_keys m"
  shows "hm_abs m k = Some v \<longleftrightarrow>
    (\<exists>e. e \<in># mset (for_each_entry m) \<and> same_key m (e_key e) k \<and> e_value e = v)"
proof
  assume "hm_abs m k = Some v"
  then show "\<exists>e. e \<in># mset (for_each_entry m) \<and> same_key m (e_key e) k \<and> e_value e = v"
    by (auto simp: hm_abs_def dest: find_SomeD)
next
  assume "\<exists>e. e \<in># mset (for_each_entry m) \<and> same_key m (e_key e) k \<and> e_value e = v"
  then obtain e where e: "e \<in># mset (for_each_entry m)" "same_key m (e_key e) k" "e_value e = v"
    by blast
  then have "List.find (\<lambda>e. same_key m (e_key e) k) (for_each_entry m) \<noteq> None"
    by (auto simp: find_None_iff)
  then obtain x where x: "List.find (\<lambda>e. same_key m (e_key e) k) (for_each_entry m) = Some x" by blast
  then have "x \<in># mset (for_each_entry m)" "same_key m (e_key x) k" by (auto simp: find_Some_iff)
  with e have "x = e"
    using assms at_most_one [of "filter_mset (\<lambda>e. same_key m (e_key e) k) (mset (for_each_entry m))" x e]
    by (simp add: unique_keys_def)
  with x e(3) show "hm_abs m k = Some v" by (simp add: hm_abs_def)
qed

text \<open>The function depends on the entries, not on their order.\<close>

lemma hm_abs_mset:
  assumes "unique_keys m" "same_callbacks m m'" "mset (for_each_entry m') = mset (for_each_entry m)"
  shows "unique_keys m'" "hm_abs m' = hm_abs m"
proof -
  show u: "unique_keys m'" using assms by (simp add: unique_keys_def)
  have "hm_abs m' k = Some v \<longleftrightarrow> hm_abs m k = Some v" for k v
    unfolding hm_abs_Some [OF u] hm_abs_Some [OF assms(1)] using assms(2,3) by simp
  then show "hm_abs m' = hm_abs m" by (intro ext) (metis not_None_eq)
qed

lemma hm_abs_add:
  assumes cb: "callbacks_ok m" and u0: "unique_keys m" and same: "same_callbacks m m'"
    and N: "mset (for_each_entry m) = N + M" "\<And>e. e \<in># N \<Longrightarrow> same_key m (e_key e) k"
    and M: "mset (for_each_entry m') = add_mset \<lparr>e_key = k, e_value = v\<rparr> M"
      "\<And>e. e \<in># M \<Longrightarrow> \<not> same_key m (e_key e) k"
  shows "unique_keys m'" "hm_abs m' = (\<lambda>k'. if same_key m k k' then Some v else hm_abs m k')"
proof -
  have none: "\<not> same_key m (e_key e) k'" if "same_key m k k'" "e \<in># M" for k' e
    using M(2) [OF that(2)] same_key_trans [OF cb that(1)] by blast
  have some: "same_key m k k'" if "same_key m (e_key e) k'" "e \<in># N" for k' e
    using N(2) [OF that(2)] that(1) same_key_trans [OF cb, of "e_key e" k k'] same_key_sym [OF cb]
      same_key_trans [OF cb] by blast
  have le: "size (filter_mset (\<lambda>e. same_key m (e_key e) k') M) \<le> 1" for k'
  proof -
    have "size (filter_mset (\<lambda>e. same_key m (e_key e) k') (N + M)) \<le> 1"
      using u0 unfolding unique_keys_def N(1) by blast
    then show ?thesis by simp
  qed
  show u: "unique_keys m'"
    unfolding unique_keys_def
  proof
    fix k'
    show "size (filter_mset (\<lambda>e. same_key m' (e_key e) k') (mset (for_each_entry m'))) \<le> 1"
    proof (cases "same_key m k k'")
      case True
      then have "filter_mset (\<lambda>e. same_key m (e_key e) k') M = {#}" using none by simp
      then show ?thesis using same M(1) True by simp
    next
      case False
      then show ?thesis using same M(1) le [of k'] by simp
    qed
  qed
  have "hm_abs m' k' = Some w \<longleftrightarrow> (if same_key m k k' then Some v else hm_abs m k') = Some w" for k' w
  proof (cases "same_key m k k'")
    case True
    then show ?thesis
      unfolding hm_abs_Some [OF u] using none [OF True] same by (auto simp: M(1))
  next
    case False
    then have "\<not> same_key m (e_key e) k'" if "e \<in># N" for e using some that by blast
    then show ?thesis
      using False same by (auto simp: hm_abs_Some [OF u] hm_abs_Some [OF u0] M(1) N(1))
  qed
  then show "hm_abs m' = (\<lambda>k'. if same_key m k k' then Some v else hm_abs m k')"
    by (intro ext) (metis not_None_eq)
qed

section \<open>The operations\<close>

lemma hashmap_find_spec:
  assumes "hm_inv m" "callbacks_ok m"
  shows "hashmap_find m k = Some (hm_abs m k)"
proof (rule find_entry_cases [OF assms, of k], goal_cases)
  case 1
  then show ?thesis using hm_abs_None [of m k] by (simp add: hashmap_find_def)
next
  case (2 bs before e after A B)
  have "List.find (\<lambda>e. same_key m (e_key e) k) ((A @ before) @ e # after @ B) = Some e"
    using 2(4) by (simp only: find_append_none [OF 2(7)]) simp
  then have "hm_abs m k = Some (e_value e)" by (simp add: hm_abs_def 2(5))
  with 2(2) show ?thesis by (simp add: hashmap_find_def)
qed
lemma same_callbacks_ok: "callbacks_ok m \<Longrightarrow> same_callbacks m m' \<Longrightarrow> callbacks_ok m'"
proof -
  assume "same_callbacks m m'"
  then have "callbacks_ok m' = callbacks_ok m" by (simp add: callbacks_ok_def)
  then show "callbacks_ok m \<Longrightarrow> callbacks_ok m'" by simp
qed

text \<open>Writing another chain to the bucket of a key.\<close>

lemma set_chain_spec:
  assumes "hm_inv m" "buckets m = Some bs" "set_chain m (key_hash m k) c = Some m'"
    "\<And>e. e \<in> set c \<Longrightarrow> key_hash m (e_key e) = key_hash m k"
    "m'' = m'\<lparr>sz := n\<rparr>" "unat n = length (concat (bs[unat (key_hash m k) := c]))"
  shows "hm_inv m''" "for_each_entry m'' = concat (bs[unat (key_hash m k) := c])"
    "same_callbacks m m''"
proof -
  have h: "unat (key_hash m k) < length bs" by (rule key_hash_in_range [OF assms(1,2)])
  then have m': "m' = m\<lparr>buckets := Some (bs[unat (key_hash m k) := c])\<rparr>"
    using assms(2,3) by (simp add: set_chain_def)
  note inv = hm_inv_buckets [OF assms(1,2)]
  have kh: "key_hash (m\<lparr>buckets := b, sz := s\<rparr>) x = key_hash m x" for b s x
    by (simp add: key_hash_def)
  show "for_each_entry m'' = concat (bs[unat (key_hash m k) := c])"
    using inv(4) by (simp add: for_each_entry_def assms(5) m')
  have "unat (key_hash m (e_key e)) = i"
    if "i < length bs" "e \<in> set (bs[unat (key_hash m k) := c] ! i)" for i e
    using that assms(4) inv(8) by (cases "i = unat (key_hash m k)") auto
  then show "hm_inv m''"
    using inv assms(6) by (simp add: hm_inv_def assms(5) m' kh)
  show "same_callbacks m m''" by (simp add: assms(5) m')
qed

lemma set_chain_defined:
  "hm_inv m \<Longrightarrow> buckets m = Some bs \<Longrightarrow> \<exists>m'. set_chain m (key_hash m k) c = Some m' \<and> sz m' = sz m"
  using key_hash_in_range [of m bs k] by (simp add: set_chain_def)

lemma chain_hash:
  "hm_inv m \<Longrightarrow> buckets m = Some bs \<Longrightarrow> e \<in> set (bs ! unat (key_hash m k)) \<Longrightarrow>
    key_hash m (e_key e) = key_hash m k"
  using hm_inv_buckets(8) [of m bs "unat (key_hash m k)" e] key_hash_in_range [of m bs k]
  by (simp add: word_unat_eq_iff)

text \<open>A new entry; when an allocation fails the map may have grown but stores the same.\<close>

lemma insert_new_entry_spec:
  assumes "hm_inv m" "unat (sz m) < 2 ^ 60"
  shows "\<exists>err m'. insert_new_entry calloc_ok malloc_ok m k v = Some (err, m') \<and>
    hm_inv m' \<and> same_callbacks m m' \<and>
    (if err = 0 then mset (for_each_entry m') = add_mset \<lparr>e_key = k, e_value = v\<rparr> (mset (for_each_entry m))
     else err = - ENOMEM \<and> mset (for_each_entry m') = mset (for_each_entry m)) \<and>
    (calloc_ok \<and> malloc_ok \<longrightarrow> err = 0)"
proof -
  obtain err m1 where m1: "(if hashmap_needs_to_grow m then hashmap_grow calloc_ok m else Some (0, m)) =
      Some (err, m1)" "hm_inv m1" "same_callbacks m m1" "sz m1 = sz m"
      "mset (for_each_entry m1) = mset (for_each_entry m)"
      "err = 0 \<and> buckets m1 \<noteq> None \<or> err = - ENOMEM \<and> \<not> calloc_ok"
  proof (cases "hashmap_needs_to_grow m")
    case False
    then have "buckets m \<noteq> None" using hm_inv_empty [OF assms(1)] by (auto simp: hashmap_needs_to_grow_def)
    with False show ?thesis using that [of 0 m] assms(1) by simp
  next
    case grow: True
    show ?thesis
    proof (cases calloc_ok)
      case True
      obtain m' where "hashmap_grow True m = Some (0, m') \<and> hm_inv m' \<and> same_callbacks m m' \<and>
          sz m' = sz m \<and> mset (for_each_entry m') = mset (for_each_entry m) \<and> buckets m' \<noteq> None"
        using hashmap_grow_spec [OF assms grow] by fast
      with grow True show ?thesis by (intro that [of 0 m']) simp_all
    next
      case False
      with grow show ?thesis
        using that [of "- ENOMEM" m] assms(1) by (simp add: hashmap_grow_def Let_def)
    qed
  qed
  show ?thesis
  proof (cases "err = 0 \<and> malloc_ok")
    case False
    then show ?thesis using m1 by (auto simp: insert_new_entry_def)
  next
    case True
    then obtain bs where bs: "buckets m1 = Some bs" using m1(6) by auto
    let ?h = "unat (key_hash m1 k)"
    let ?c = "\<lparr>e_key = k, e_value = v\<rparr> # bs ! ?h"
    have h: "?h < length bs" by (rule key_hash_in_range [OF m1(2) bs])
    obtain m2 where m2: "set_chain m1 (key_hash m1 k) ?c = Some m2" "sz m2 = sz m1"
      using set_chain_defined [OF m1(2) bs] by blast
    define m3 where "m3 = m2\<lparr>sz := sz m2 + 1\<rparr>"
    have c: "key_hash m1 (e_key e) = key_hash m1 k" if "e \<in> set ?c" for e
      using that chain_hash [OF m1(2) bs] by auto
    have entries: "for_each_entry m1 = concat bs" by (rule hm_inv_buckets(6) [OF m1(2) bs])
    have mset: "mset (concat (bs[?h := ?c])) = add_mset \<lparr>e_key = k, e_value = v\<rparr> (mset (concat bs))"
      by (rule mset_concat_update [OF h])
    have "length (concat (bs[?h := ?c])) = Suc (unat (sz m1))"
      using arg_cong [OF mset, of size] hm_inv_buckets(5) [OF m1(2) bs] by simp
    then have len: "unat (sz m2 + 1) = length (concat (bs[?h := ?c]))"
      using assms(2) m1(4) m2(2) by (simp add: unat_word_ariths)
    note spec = set_chain_spec [OF m1(2) bs m2(1) c m3_def len]
    have "insert_new_entry calloc_ok malloc_ok m k v = Some (0, m3)"
      using m1(1) True bs h m2(1)
      by (simp add: insert_new_entry_def hashmap_add_entry_def m3_def)
    then show ?thesis using spec mset m1(3,5) entries by simp
  qed
qed

lemma hashmap_insert_found:
  assumes ok: "hm_ok m" and e: "e \<in> set (for_each_entry m)" "same_key m (e_key e) k"
    and s: "strategy \<noteq> HASHMAP_APPEND"
  shows "\<exists>m'. hashmap_insert calloc_ok malloc_ok m k v strategy =
      Some (if strategy = HASHMAP_ADD then - EEXIST else 0, Some (e_key e, e_value e), m') \<and>
    hm_ok m' \<and> same_callbacks m m' \<and> sz m' = sz m \<and>
    (if strategy = HASHMAP_ADD then m' = m
     else hm_abs m' = (\<lambda>k'. if same_key m k k' then Some v else hm_abs m k'))"
proof (rule find_entry_cases [OF hm_okD(1,2) [OF ok], of k], goal_cases)
  case 1
  then show ?case using e by blast
next
  case (2 bs before x after A B)
  have x: "x = e"
  proof (rule at_most_one)
    show "size (filter_mset (\<lambda>e. same_key m (e_key e) k) (mset (for_each_entry m))) \<le> 1"
      using hm_okD(3) [OF ok] by (simp add: unique_keys_def)
  qed (use 2(4,5) e in auto)
  let ?new = "\<lparr>e_key = k, e_value = v\<rparr>"
  let ?c = "before @ ?new # after"
  show ?case
  proof (cases "strategy = HASHMAP_ADD")
    case True
    then show ?thesis using 2(2) ok x by (simp add: hashmap_insert_def)
  next
    case False
    obtain m1 where m1: "set_chain m (key_hash m k) ?c = Some m1" "sz m1 = sz m"
      using set_chain_defined [OF hm_okD(1) [OF ok] 2(1)] by blast
    have ins: "hashmap_insert calloc_ok malloc_ok m k v strategy = Some (0, Some (e_key e, e_value e), m1)"
      using 2(2) m1 s False x by (cases strategy) (simp_all add: hashmap_insert_def)
    have c: "key_hash m (e_key y) = key_hash m k" if "y \<in> set ?c" for y
      using that chain_hash [OF hm_okD(1) [OF ok] 2(1), of y k] 2(3) by auto
    have self: "m1 = m1\<lparr>sz := sz m1\<rparr>" by simp
    have len: "unat (sz m1) = length (concat (bs[unat (key_hash m k) := ?c]))"
      using hm_inv_size [OF hm_okD(1) [OF ok]] m1(2) 2(5) by (simp add: 2(6))
    note spec = set_chain_spec [OF hm_okD(1) [OF ok] 2(1) m1(1) c self len, unfolded 2(6)]
    let ?M = "mset (A @ before @ after @ B)"
    have uniq: "\<not> same_key m (e_key y) k" if "y \<in># ?M" for y
    proof -
      have "size (filter_mset (\<lambda>e. same_key m (e_key e) k) (add_mset e ?M)) \<le> 1"
        using hm_okD(3) [OF ok] 2(5) x by (simp add: unique_keys_def ac_simps)
      then have "filter_mset (\<lambda>e. same_key m (e_key e) k) ?M = {#}" using e(2) by simp
      then show ?thesis using that by (simp only: filter_mset_eq_mempty_iff) blast
    qed
    have "mset (for_each_entry m) = {#e#} + ?M" using 2(5) x by (simp add: ac_simps)
    moreover have "mset (for_each_entry m1) = add_mset ?new ?M" using spec(2) by (simp add: ac_simps)
    ultimately have "unique_keys m1"
      "hm_abs m1 = (\<lambda>k'. if same_key m k k' then Some v else hm_abs m k')"
      using hm_abs_add [OF hm_okD(2,3) [OF ok] spec(3), of "{#e#}" ?M k v] uniq e(2) by auto
    then show ?thesis
      using ins False spec(1,3) m1(2) same_callbacks_ok [OF hm_okD(2) [OF ok] spec(3)]
      by (simp add: hm_ok_def)
  qed
qed

lemma hashmap_insert_fresh:
  assumes ok: "hm_ok m" and fresh: "hm_abs m k = None" and small: "unat (sz m) < 2 ^ 60"
    and s: "strategy = HASHMAP_ADD \<or> strategy = HASHMAP_SET"
  shows "\<exists>err m'. hashmap_insert calloc_ok malloc_ok m k v strategy = Some (err, None, m') \<and>
    hm_ok m' \<and> same_callbacks m m' \<and> (calloc_ok \<and> malloc_ok \<longrightarrow> err = 0) \<and>
    (if err = 0 then unat (sz m') = unat (sz m) + 1 \<and>
       mset (for_each_entry m') = add_mset \<lparr>e_key = k, e_value = v\<rparr> (mset (for_each_entry m)) \<and>
       hm_abs m' = (\<lambda>k'. if same_key m k k' then Some v else hm_abs m k')
     else err = - ENOMEM \<and> sz m' = sz m \<and>
       mset (for_each_entry m') = mset (for_each_entry m) \<and> hm_abs m' = hm_abs m)"
proof -
  note inv = hm_okD(1,2) [OF ok]
  have none: "hashmap_find_entry m k (key_hash m k) = Some None"
    by (rule find_entry_cases [OF inv, of k]) (use fresh [unfolded hm_abs_None] in auto)
  obtain err m' where r: "insert_new_entry calloc_ok malloc_ok m k v = Some (err, m')"
    "hm_inv m'" "same_callbacks m m'"
    "if err = 0 then mset (for_each_entry m') = add_mset \<lparr>e_key = k, e_value = v\<rparr> (mset (for_each_entry m))
     else err = - ENOMEM \<and> mset (for_each_entry m') = mset (for_each_entry m)"
    "calloc_ok \<and> malloc_ok \<longrightarrow> err = 0"
    using insert_new_entry_spec [OF inv(1) small] by blast
  have ins: "hashmap_insert calloc_ok malloc_ok m k v strategy = Some (err, None, m')"
    using none r(1) s by (auto simp: hashmap_insert_def)
  have sz: "unat (sz m') = size (mset (for_each_entry m'))" "unat (sz m) = size (mset (for_each_entry m))"
    using hm_inv_size r(2) inv(1) by auto
  have cb: "callbacks_ok m'" by (rule same_callbacks_ok [OF inv(2) r(3)])
  show ?thesis
  proof (cases "err = 0")
    case True
    then have M: "mset (for_each_entry m') = add_mset \<lparr>e_key = k, e_value = v\<rparr> (mset (for_each_entry m))"
      using r(4) by simp
    have "\<not> same_key m (e_key e) k" if "e \<in># mset (for_each_entry m)" for e
      using fresh that by (simp add: hm_abs_None)
    then have "unique_keys m'" "hm_abs m' = (\<lambda>k'. if same_key m k k' then Some v else hm_abs m k')"
      using hm_abs_add [OF inv(2) hm_okD(3) [OF ok] r(3), of "{#}" _ k v] M by auto
    then show ?thesis
      using ins r(2,3) cb True sz M by (simp add: hm_ok_def)
  next
    case False
    then have M: "err = - ENOMEM" "mset (for_each_entry m') = mset (for_each_entry m)"
      using r(4) by simp_all
    have "unique_keys m'" "hm_abs m' = hm_abs m"
      using hm_abs_mset [OF hm_okD(3) [OF ok] r(3) M(2)] by auto
    then show ?thesis
      using ins r(2,3,5) cb False sz M by (simp add: hm_ok_def word_unat_eq_iff)
  qed
qed

lemma hashmap_delete_spec:
  assumes ok: "hm_ok m"
  shows "\<exists>old m'. hashmap_delete m k = Some (hm_abs m k \<noteq> None, old, m') \<and>
    map_option snd old = hm_abs m k \<and> hm_ok m' \<and> same_callbacks m m' \<and>
    hm_abs m' = (\<lambda>k'. if same_key m k k' then None else hm_abs m k') \<and>
    unat (sz m') = unat (sz m) - (if hm_abs m k = None then 0 else 1)"
proof (rule find_entry_cases [OF hm_okD(1,2) [OF ok], of k], goal_cases)
  case 1
  then have none: "hm_abs m k = None" by (simp add: hm_abs_None)
  have "hm_abs m k' = None" if "same_key m k k'" for k'
    using none same_key_trans [OF hm_okD(2) [OF ok] that] by (simp add: hm_abs_None)
  then have "hm_abs m = (\<lambda>k'. if same_key m k k' then None else hm_abs m k')" by auto
  with none 1 ok show ?case by (simp add: hashmap_delete_def)
next
  case (2 bs before e after A B)
  note inv = hm_okD(1,2) [OF ok]
  have e: "e \<in># mset (for_each_entry m)" using 2(5) by simp
  have abs: "hm_abs m k = Some (e_value e)"
    unfolding hm_abs_Some [OF hm_okD(3) [OF ok]] using e 2(4) by blast
  let ?c = "before @ after"
  obtain m1 where m1: "set_chain m (key_hash m k) ?c = Some m1" "sz m1 = sz m"
    using set_chain_defined [OF inv(1) 2(1)] by blast
  define m2 where "m2 = m1\<lparr>sz := sz m - 1\<rparr>"
  have c: "key_hash m (e_key y) = key_hash m k" if "y \<in> set ?c" for y
    using that chain_hash [OF inv(1) 2(1), of y k] 2(3) by auto
  have pos: "unat (sz m) = length A + length before + length after + length B + 1"
    using hm_inv_size [OF inv(1)] 2(5) by simp
  then have sz: "unat (sz m - 1) = unat (sz m) - 1"
    by (simp add: unat_sub word_le_nat_alt)
  then have len: "unat (sz m - 1) = length (concat (bs[unat (key_hash m k) := ?c]))"
    using pos by (simp add: 2(6))
  note spec = set_chain_spec [OF inv(1) 2(1) m1(1) c m2_def len, unfolded 2(6)]
  let ?M = "mset (A @ before @ after @ B)"
  have M: "mset (for_each_entry m) = add_mset e ?M" using 2(5) by (simp add: ac_simps)
  have M2: "mset (for_each_entry m2) = ?M" using spec(2) by (simp add: ac_simps)
  have sub: "size (filter_mset P ?M) \<le> size (filter_mset P (mset (for_each_entry m)))" for P
    by (simp add: M)
  have u2: "unique_keys m2"
    unfolding unique_keys_def M2
  proof
    fix k'
    have "size (filter_mset (\<lambda>e. same_key m (e_key e) k') (mset (for_each_entry m))) \<le> 1"
      using hm_okD(3) [OF ok] unfolding unique_keys_def by blast
    then show "size (filter_mset (\<lambda>e. same_key m2 (e_key e) k') ?M) \<le> 1"
      using sub [of "\<lambda>e. same_key m (e_key e) k'"] spec(3) by simp
  qed
  have uniq: "\<not> same_key m (e_key y) k" if "y \<in># ?M" for y
  proof -
    have "size (filter_mset (\<lambda>e. same_key m (e_key e) k) (add_mset e ?M)) \<le> 1"
      using hm_okD(3) [OF ok] M by (simp add: unique_keys_def)
    then have "filter_mset (\<lambda>e. same_key m (e_key e) k) ?M = {#}" using 2(4) by simp
    then show ?thesis using that by (simp only: filter_mset_eq_mempty_iff) blast
  qed
  have "hm_abs m2 k' = Some w \<longleftrightarrow> (if same_key m k k' then None else hm_abs m k') = Some w" for k' w
  proof (cases "same_key m k k'")
    case True
    then show ?thesis
      unfolding hm_abs_Some [OF u2] M2
      using uniq same_key_trans [OF inv(2) True] spec(3) by auto
  next
    case False
    then have "\<not> same_key m (e_key e) k'"
      using 2(4) same_key_sym [OF inv(2)] same_key_trans [OF inv(2)] by blast
    then show ?thesis
      unfolding hm_abs_Some [OF u2] M2 using False spec(3)
      by (auto simp: hm_abs_Some [OF hm_okD(3) [OF ok]] M)
  qed
  then have "hm_abs m2 = (\<lambda>k'. if same_key m k k' then None else hm_abs m k')"
    by (intro ext) (metis not_None_eq)
  moreover have "hashmap_delete m k = Some (True, Some (e_key e, e_value e), m2)"
    using 2(2) m1 by (simp add: hashmap_delete_def hashmap_del_entry_def m2_def)
  ultimately show ?case
    using abs spec(1,3) u2 sz same_callbacks_ok [OF inv(2) spec(3)]
    by (simp add: hm_ok_def) (simp add: m2_def)
qed
section \<open>Any sequence of operations\<close>

fun hashmap_step :: "('k, 'v) store_op \<Rightarrow> ('c, 'k, 'v) hashmap \<Rightarrow> ('c, 'k, 'v) hashmap option" where
  "hashmap_step (Add k v) m = do { (err, m) \<leftarrow> hashmap_add True True m k v; Some m }"
| "hashmap_step (Set k v) m = do { (err, old, m) \<leftarrow> hashmap_set True True m k v; Some m }"
| "hashmap_step (Update k v) m = do { (err, old, m) \<leftarrow> hashmap_update True True m k v; Some m }"
| "hashmap_step (Delete k) m = do { (found, old, m) \<leftarrow> hashmap_delete m k; Some m }"

definition hm_ok_for ::
  "('k \<Rightarrow> 'c \<Rightarrow> u64) \<Rightarrow> ('k \<Rightarrow> 'k \<Rightarrow> 'c \<Rightarrow> bool) \<Rightarrow> 'c \<Rightarrow> ('c, 'k, 'v) hashmap \<Rightarrow> bool" where
  "hm_ok_for h e c m \<longleftrightarrow> hm_ok m \<and> hash_fn m = h \<and> equal_fn m = e \<and> hm_ctx m = c"

lemma hashmap_update_fresh:
  assumes "hm_ok m" "hm_abs m k = None"
  shows "hashmap_update a b m k v = Some (- ENOENT, None, m)"
proof -
  have "hashmap_find_entry m k (key_hash m k) = Some None"
    by (rule find_entry_cases [OF hm_okD(1,2) [OF assms(1)], of k])
      (use assms(2) [unfolded hm_abs_None] in auto)
  then show ?thesis by (simp add: hashmap_update_def hashmap_insert_def)
qed

lemma hm_abs_SomeE:
  assumes "hm_ok m" "hm_abs m k \<noteq> None"
  obtains e where "e \<in> set (for_each_entry m)" "same_key m (e_key e) k" "hm_abs m k = Some (e_value e)"
  using assms hm_abs_Some [OF hm_okD(3) [OF assms(1)]] by auto

lemma hashmap_step_spec:
  assumes ok: "hm_ok m" and small: "unat (sz m) < 2 ^ 60"
  shows "\<exists>m'. hashmap_step oper m = Some m' \<and> hm_ok m' \<and> same_callbacks m m' \<and>
    unat (sz m') \<le> unat (sz m) + 1 \<and> hm_abs m' = apply_op (same_key m) oper (hm_abs m)"
proof (cases oper)
  case (Add k v)
  show ?thesis
  proof (cases "hm_abs m k = None")
    case True
    with Add hashmap_insert_fresh [OF ok True small, of HASHMAP_ADD True True v] show ?thesis
      by (auto simp: hashmap_add_def)
  next
    case False
    then obtain e where "e \<in> set (for_each_entry m)" "same_key m (e_key e) k" using ok by (auto elim: hm_abs_SomeE)
    with Add False hashmap_insert_found [OF ok, of e k HASHMAP_ADD True True v] show ?thesis
      by (auto simp: hashmap_add_def)
  qed
next
  case (Set k v)
  show ?thesis
  proof (cases "hm_abs m k = None")
    case True
    with Set hashmap_insert_fresh [OF ok True small, of HASHMAP_SET True True v] show ?thesis
      by (auto simp: hashmap_set_def)
  next
    case False
    then obtain e where "e \<in> set (for_each_entry m)" "same_key m (e_key e) k" using ok by (auto elim: hm_abs_SomeE)
    with Set False hashmap_insert_found [OF ok, of e k HASHMAP_SET True True v] show ?thesis
      by (auto simp: hashmap_set_def)
  qed
next
  case (Update k v)
  show ?thesis
  proof (cases "hm_abs m k = None")
    case True
    with Update ok show ?thesis by (simp add: hashmap_update_fresh)
  next
    case False
    then obtain e where "e \<in> set (for_each_entry m)" "same_key m (e_key e) k" using ok by (auto elim: hm_abs_SomeE)
    with Update False hashmap_insert_found [OF ok, of e k HASHMAP_UPDATE True True v] show ?thesis
      by (auto simp: hashmap_update_def)
  qed
next
  case (Delete k)
  with hashmap_delete_spec [OF ok, of k] show ?thesis by (auto simp: le_SucI)
qed

interpretation hm: keyed_store "hm_ok_for h e c" hm_abs "\<lambda>k k'. e k k' c" "\<lambda>m. unat (sz m)" "2 ^ 60"
  hashmap_find hashmap_step
  for h :: "'k \<Rightarrow> 'c \<Rightarrow> u64" and e c
proof
  fix m :: "('c, 'k, 'v) hashmap" and k
  assume "hm_ok_for h e c m"
  then show "hashmap_find m k = Some (hm_abs m k)"
    by (simp add: hm_ok_for_def hm_ok_def hashmap_find_spec)
next
  fix m :: "('c, 'k, 'v) hashmap" and oper
  assume "hm_ok_for h e c m" "unat (sz m) < 2 ^ 60"
  then show "\<exists>m'. hashmap_step oper m = Some m' \<and> hm_ok_for h e c m' \<and>
      unat (sz m') \<le> unat (sz m) + 1 \<and> hm_abs m' = apply_op (\<lambda>k k'. e k k' c) oper (hm_abs m)"
    using hashmap_step_spec [of m oper] by (auto simp: hm_ok_for_def)
qed

text \<open>The entries of a key before and after growing.\<close>

lemma for_each_key_entry_eq:
  assumes "hm_inv m" "callbacks_ok m"
  shows "for_each_key_entry m k = Some (filter (\<lambda>e. same_key m (e_key e) k) (for_each_entry m))"
proof (cases "buckets m")
  case None
  then show ?thesis using hm_inv_empty [OF assms(1) None] by (simp add: for_each_key_entry_def)
next
  case (Some bs)
  let ?h = "unat (key_hash m k)"
  have h: "?h < length bs" by (rule key_hash_in_range [OF assms(1) Some])
  have "filter (\<lambda>e. same_key m (e_key e) k) xs = []"
    if "i < length bs" "xs = bs ! i" "i \<noteq> ?h" for i xs
  proof -
    have "\<not> same_key m (e_key x) k" if "x \<in> set xs" for x
      using hm_inv_buckets(8) [OF assms(1) Some \<open>i < length bs\<close>, of x] \<open>xs = bs ! i\<close> \<open>i \<noteq> ?h\<close>
        same_key_hash [OF assms(2), of "e_key x" k] that by auto
    then show ?thesis by (simp add: filter_empty_conv)
  qed
  then have none: "concat (map (filter (\<lambda>e. same_key m (e_key e) k)) (take ?h bs)) = []"
    "concat (map (filter (\<lambda>e. same_key m (e_key e) k)) (drop (Suc ?h) bs)) = []"
    using h by (auto simp: in_set_conv_nth)
  have split: "filter P (for_each_entry m) = concat (map (filter P) (take ?h bs)) @ filter P (bs ! ?h) @
      concat (map (filter P) (drop (Suc ?h) bs))" for P
    using hm_inv_buckets(6) [OF assms(1) Some] concat_nth_split [OF h]
    by (simp add: filter_concat)
  have "filter (\<lambda>e. same_key m (e_key e) k) (for_each_entry m) =
      filter (\<lambda>e. same_key m (e_key e) k) (bs ! ?h)"
    unfolding split none by simp
  with h show ?thesis by (simp add: for_each_key_entry_def Some)
qed

lemma grow_reverses:
  assumes "hm_inv m" "callbacks_ok m" "unat (sz m) < 2 ^ 60" "hashmap_needs_to_grow m"
  shows "\<exists>m'. hashmap_grow True m = Some (0, m') \<and>
    (\<forall>k. for_each_key_entry m' k = map_option rev (for_each_key_entry m k))"
proof -
  obtain m' bs where g: "hashmap_grow True m = Some (0, m')" "hm_inv m'" "same_callbacks m m'"
    and bs: "buckets m' = Some bs" "\<And>i. i < length bs \<Longrightarrow>
       bs ! i = rev (filter (\<lambda>e. unat (key_hash m' (e_key e)) = i) (for_each_entry m))"
    using hashmap_grow_spec [OF assms(1,3,4)] by blast
  have cb: "callbacks_ok m'" by (rule same_callbacks_ok [OF assms(2) g(3)])
  have "for_each_key_entry m' k = map_option rev (for_each_key_entry m k)" for k
  proof -
    have h: "unat (key_hash m' k) < length bs" by (rule key_hash_in_range [OF g(2) bs(1)])
    have same: "same_key m' (e_key e) k \<Longrightarrow> unat (key_hash m' (e_key e)) = unat (key_hash m' k)" for e
      using same_key_hash [OF cb] by simp
    have "for_each_key_entry m' k = Some (filter (\<lambda>e. same_key m' (e_key e) k)
        (rev (filter (\<lambda>e. unat (key_hash m' (e_key e)) = unat (key_hash m' k)) (for_each_entry m))))"
      using h by (simp add: for_each_key_entry_def bs(1) bs(2) [OF h])
    also have "\<dots> = Some (rev (filter (\<lambda>e. same_key m (e_key e) k) (for_each_entry m)))"
      using same g(3) by (auto simp: rev_filter [symmetric] intro!: filter_cong)
    finally show ?thesis by (simp add: for_each_key_entry_eq [OF assms(1,2)])
  qed
  with g(1) show ?thesis by blast
qed

section \<open>Properties\<close>

text \<open>
  C17. Any sequence of adds, sets, updates and deletes on a new map, with callbacks that hash equal
  keys alike and allocations that succeed, behaves as on a function from keys to values: it never
  reaches outside the bucket array, and a lookup afterwards finds exactly what the function has.
\<close>

theorem hashmap_sequence_correct:
  fixes ops :: "('k, 'v) store_op list"
  assumes "callbacks_ok (hashmap_init h e c :: ('c, 'k, 'v) hashmap)" "length ops \<le> 2 ^ 60"
  shows "\<exists>m. run_store hashmap_step ops (hashmap_init h e c) = Some m \<and>
    (\<forall>k. hashmap_find m k = Some (apply_ops (\<lambda>k k'. e k k' c) ops (\<lambda>k. None) k))"
proof -
  let ?m = "hashmap_init h e c :: ('c, 'k, 'v) hashmap"
  have "hm_inv ?m" by (rule hm_inv_init)
  moreover have "unique_keys ?m" by (simp add: unique_keys_def for_each_entry_def hashmap_init_def)
  ultimately have "hm_ok_for h e c ?m"
    using assms(1) by (simp add: hm_ok_for_def hm_ok_def) (simp add: hashmap_init_def)
  moreover have "hm_abs ?m = (\<lambda>k. None)" "unat (sz ?m) = 0"
    by (simp_all add: fun_eq_iff hm_abs_def for_each_entry_def hashmap_init_def)
  ultimately show ?thesis
    using hm.lookup_after_run [of h e c ?m ops] assms(2) by simp
qed

definition sample_map :: "(unit, u64, nat) hashmap" where
  "sample_map = hashmap_init (\<lambda>k c. k) (\<lambda>k k' c. k = k') ()"

lemma sample_map_callbacks: "callbacks_ok sample_map"
  by (simp add: callbacks_ok_def sample_map_def hashmap_init_def)

theorem hashmap_sequence_correct_witness:
  "\<exists>m. run_store hashmap_step [Add 7 1, Set 7 2, Add 7 3] sample_map = Some m \<and>
     hashmap_find m 7 = Some (Some 2)"
proof -
  have "length [Add 7 1, Set 7 2, Add (7 :: u64) (3 :: nat)] \<le> 2 ^ 60" by simp
  from hashmap_sequence_correct [OF sample_map_callbacks [unfolded sample_map_def] this]
  show ?thesis by (force simp: sample_map_def apply_ops_def)
qed



text \<open>
  Growing keeps every entry but turns the order of the entries of each key around. So with keys
  appended more than once, a lookup after growing no longer finds the last one inserted.
\<close>

theorem grow_reverses_order:
  assumes "hm_inv m" "callbacks_ok m" "unat (sz m) < 2 ^ 60" "hashmap_needs_to_grow m"
  shows "\<exists>m'. hashmap_grow True m = Some (0, m') \<and>
    mset (for_each_entry m') = mset (for_each_entry m) \<and>
    (\<forall>k. for_each_key_entry m' k = map_option rev (for_each_key_entry m k))"
proof -
  obtain m' where "hashmap_grow True m = Some (0, m')"
    "\<forall>k. for_each_key_entry m' k = map_option rev (for_each_key_entry m k)"
    using grow_reverses [OF assms] by blast
  moreover from this(1) have "mset (for_each_entry m') = mset (for_each_entry m)"
    using hashmap_grow_spec [OF assms(1,3,4)] by auto
  ultimately show ?thesis by blast
qed

definition append_all :: "(u64 \<times> nat) list \<Rightarrow> (unit, u64, nat) hashmap option" where
  "append_all kvs = foldl (\<lambda>m (k, v). m \<bind> (\<lambda>m. map_option snd (hashmap_append True True m k v)))
     (Some sample_map) kvs"

definition doubled_map :: "(unit, u64, nat) hashmap" where
  "doubled_map = sample_map\<lparr>buckets := Some [[\<lparr>e_key = 2, e_value = 0\<rparr>], [],
     [\<lparr>e_key = 1, e_value = 20\<rparr>, \<lparr>e_key = 1, e_value = 10\<rparr>], []], cap := 4, cap_bits := 2, sz := 3\<rparr>"

lemma doubled_map_appended: "append_all [(1, 10), (1, 20), (2, 0)] = Some doubled_map"
  by code_simp

lemma doubled_map_inv: "hm_inv doubled_map"
  by code_simp

lemma doubled_map_grows:
  "callbacks_ok doubled_map" "unat (sz doubled_map) < 2 ^ 60" "hashmap_needs_to_grow doubled_map"
  "for_each_key_entry doubled_map 1 = Some [\<lparr>e_key = 1, e_value = 20\<rparr>, \<lparr>e_key = 1, e_value = 10\<rparr>]"
proof -
  show "callbacks_ok doubled_map"
    by (rule same_callbacks_ok [OF sample_map_callbacks]) (simp add: doubled_map_def)
  show "unat (sz doubled_map) < 2 ^ 60" by (simp add: doubled_map_def)
  show "hashmap_needs_to_grow doubled_map" by code_simp
  show "for_each_key_entry doubled_map 1 =
      Some [\<lparr>e_key = 1, e_value = 20\<rparr>, \<lparr>e_key = 1, e_value = 10\<rparr>]" by code_simp
qed

theorem grow_reverses_order_witness:
  "append_all [(1, 10), (1, 20), (2, 0)] = Some doubled_map \<and>
   hashmap_find doubled_map 1 = Some (Some 20) \<and>
   (\<exists>m'. hashmap_grow True doubled_map = Some (0, m') \<and>
      for_each_key_entry m' 1 = Some [\<lparr>e_key = 1, e_value = 10\<rparr>, \<lparr>e_key = 1, e_value = 20\<rparr>])"
proof (intro conjI)
  show "hashmap_find doubled_map 1 = Some (Some 20)" by code_simp
  show "\<exists>m'. hashmap_grow True doubled_map = Some (0, m') \<and>
      for_each_key_entry m' 1 = Some [\<lparr>e_key = 1, e_value = 10\<rparr>, \<lparr>e_key = 1, e_value = 20\<rparr>]"
    using grow_reverses_order [OF doubled_map_inv doubled_map_grows(1-3)] doubled_map_grows(4) by auto
qed (rule doubled_map_appended)

end
