(* ===== verification/Libbpf_Mem.thy ===== *)
theory Libbpf_Mem
  imports Errno
begin

text \<open>
  Growing arrays of libbpf: \<open>libbpf_reallocarray\<close> of \<open>libbpf_internal.h\<close>, \<open>libbpf_add_mem\<close> and
  \<open>libbpf_ensure_mem\<close> of \<open>btf.c\<close>. A region is the list of its bytes; \<open>realloc\<close> may fail
  (\<open>ok = False\<close>) and leaves the bytes it adds indeterminate (\<open>junk\<close>). A pointer into the region is
  an offset.
\<close>

definition realloc_bytes :: "(nat \<Rightarrow> u8) \<Rightarrow> bytes \<Rightarrow> nat \<Rightarrow> bytes" where
  "realloc_bytes junk ptr n = take n ptr @ map junk [length ptr ..< n]"

definition libbpf_reallocarray :: "bool \<Rightarrow> (nat \<Rightarrow> u8) \<Rightarrow> bytes \<Rightarrow> u64 \<Rightarrow> u64 \<Rightarrow> bytes option" where
  "libbpf_reallocarray ok junk ptr nmemb el_sz =
     (if unat nmemb * unat el_sz \<ge> 2 ^ 64 then None
      else if \<not> ok then None
      else Some (realloc_bytes junk ptr (unat (nmemb * el_sz))))"

text \<open>The new room as an offset, the region and its capacity; \<open>Some None\<close> is the \<open>NULL\<close> return.\<close>

definition libbpf_add_mem ::
  "bool \<Rightarrow> (nat \<Rightarrow> u8) \<Rightarrow> bytes \<Rightarrow> u64 \<Rightarrow> u64 \<Rightarrow> u64 \<Rightarrow> u64 \<Rightarrow> u64 \<Rightarrow> (u64 \<times> bytes \<times> u64) option option" where
  "libbpf_add_mem ok junk data cap_cnt elem_sz cur_cnt max_cnt add_cnt =
     (if cur_cnt + add_cnt \<le> cap_cnt then Some (Some (cur_cnt * elem_sz, data, cap_cnt))
      else if cur_cnt + add_cnt > max_cnt then Some None
      else
        let new_cnt = cap_cnt;
            new_cnt = new_cnt + new_cnt div 4;
            new_cnt = (if new_cnt < 16 then 16 else new_cnt);
            new_cnt = (if new_cnt > max_cnt then max_cnt else new_cnt);
            new_cnt = (if new_cnt < cur_cnt + add_cnt then cur_cnt + add_cnt else new_cnt)
        in (case libbpf_reallocarray ok junk data new_cnt elem_sz of
              None \<Rightarrow> Some None
            | Some new_data \<Rightarrow> do {
                new_data \<leftarrow> stn new_data (unat (cap_cnt * elem_sz))
                  (replicate (unat ((new_cnt - cap_cnt) * elem_sz)) 0);
                Some (Some (cur_cnt * elem_sz, new_data, new_cnt))
              }))"

definition libbpf_ensure_mem ::
  "bool \<Rightarrow> (nat \<Rightarrow> u8) \<Rightarrow> bytes \<Rightarrow> u64 \<Rightarrow> u64 \<Rightarrow> u64 \<Rightarrow> (int \<times> bytes \<times> u64) option" where
  "libbpf_ensure_mem ok junk data cap_cnt elem_sz need_cnt =
     (if need_cnt \<le> cap_cnt then Some (0, data, cap_cnt)
      else do {
        r \<leftarrow> libbpf_add_mem ok junk data cap_cnt elem_sz cap_cnt (- 1) (need_cnt - cap_cnt);
        Some (case r of None \<Rightarrow> (- ENOMEM, data, cap_cnt) | Some (p, data, cap) \<Rightarrow> (0, data, cap))
      })"

text \<open>
  Room for more elements in a region of the right size: it is inside the region, what was there
  stays, and what is new is zero.
\<close>

definition region_ok :: "bytes \<Rightarrow> u64 \<Rightarrow> u64 \<Rightarrow> bool" where
  "region_ok data cap_cnt elem_sz \<longleftrightarrow> unat cap_cnt * unat elem_sz = length data \<and> length data < 2 ^ 63"

lemma length_realloc_bytes [simp]: "length (realloc_bytes junk ptr n) = n"
  by (simp add: realloc_bytes_def min_def)

lemma libbpf_add_mem_spec:
  assumes region: "region_ok data cap_cnt elem_sz" "0 < elem_sz"
    and cnt: "cur_cnt \<le> cap_cnt" "unat cur_cnt + unat add_cnt < 2 ^ 62"
  shows "\<exists>r. libbpf_add_mem ok junk data cap_cnt elem_sz cur_cnt max_cnt add_cnt = Some r \<and>
    (case r of
       None \<Rightarrow> cap_cnt < cur_cnt + add_cnt
     | Some (p, data', cap') \<Rightarrow>
         p = cur_cnt * elem_sz \<and> cap_cnt \<le> cap' \<and> cur_cnt + add_cnt \<le> cap' \<and>
         length data' = unat cap' * unat elem_sz \<and>
         data' = data @ replicate (length data' - length data) 0 \<and>
         (cap' = cap_cnt \<or> cap' \<le> max_cnt)) \<and>
    (r = None \<longrightarrow> max_cnt < cur_cnt + add_cnt \<or> \<not> ok \<or> 2 ^ 63 \<le> (unat cap_cnt + 16 + unat add_cnt) * 2 * unat elem_sz)"
proof (cases "cur_cnt + add_cnt \<le> cap_cnt")
  case True
  then show ?thesis
    using region by (simp add: libbpf_add_mem_def region_ok_def)
next
  case False
  have e1: "1 \<le> unat elem_sz" using region(2) by (simp add: word_less_nat_alt)
  have cap_lt: "unat cap_cnt < 2 ^ 63"
    using region e1 by (metis region_ok_def le_less_trans mult.right_neutral mult_le_mono2)
  have add: "unat (cur_cnt + add_cnt) = unat cur_cnt + unat add_cnt"
    using cnt(2) by (simp add: unat_word_ariths)
  show ?thesis
  proof (cases "cur_cnt + add_cnt > max_cnt")
    case True
    with False show ?thesis by (auto simp: libbpf_add_mem_def)
  next
    case le: False
    define n1 where "n1 = cap_cnt + cap_cnt div 4"
    define n2 where "n2 = (if n1 < 16 then 16 else n1)"
    define n3 where "n3 = (if n2 > max_cnt then max_cnt else n2)"
    define n where "n = (if n3 < cur_cnt + add_cnt then cur_cnt + add_cnt else n3)"
    have n1: "unat n1 = unat cap_cnt + unat cap_cnt div 4"
      using cap_lt by (simp add: n1_def unat_word_ariths unat_div)
    have n_le: "n \<le> max_cnt" using le by (auto simp: n_def n3_def not_less)
    have n_ge: "cur_cnt + add_cnt \<le> n" by (simp add: n_def not_less)
    then have cap_n: "cap_cnt \<le> n" using False by simp
    have small: "unat n \<le> (unat cap_cnt + 16 + unat add_cnt) * 2"
      using n1 add cnt(1)
      by (auto simp: n_def n3_def n2_def word_less_nat_alt word_le_nat_alt not_less split: if_splits)
    have unf: "libbpf_add_mem ok junk data cap_cnt elem_sz cur_cnt max_cnt add_cnt =
       (case libbpf_reallocarray ok junk data n elem_sz of
              None \<Rightarrow> Some None
            | Some new_data \<Rightarrow> do {
                new_data \<leftarrow> stn new_data (unat (cap_cnt * elem_sz))
                  (replicate (unat ((n - cap_cnt) * elem_sz)) 0);
                Some (Some (cur_cnt * elem_sz, new_data, n))
              })"
      using False le unfolding libbpf_add_mem_def Let_def n_def n3_def n2_def n1_def
      by (simp only: if_False)
    show ?thesis
    proof (cases "libbpf_reallocarray ok junk data n elem_sz")
      case None
      then have "\<not> ok \<or> 2 ^ 64 \<le> unat n * unat elem_sz"
        by (auto simp: libbpf_reallocarray_def split: if_splits)
      moreover have "unat n * unat elem_sz \<le> (unat cap_cnt + 16 + unat add_cnt) * 2 * unat elem_sz"
        using small by (rule mult_le_mono1)
      moreover have "b \<or> 2 ^ 63 \<le> y" if "b \<or> 2 ^ 64 \<le> x" "x \<le> y" for b and x y :: nat
        using that by auto
      ultimately have "\<not> ok \<or> 2 ^ 63 \<le> (unat cap_cnt + 16 + unat add_cnt) * 2 * unat elem_sz"
        by blast
      then show ?thesis using None unf False by (simp add: not_le)
    next
      case (Some d)
      then have fits: "unat n * unat elem_sz < 2 ^ 64"
        and d: "d = realloc_bytes junk data (unat (n * elem_sz))"
        by (auto simp: libbpf_reallocarray_def split: if_splits)
      have mul: "unat (n * elem_sz) = unat n * unat elem_sz" "unat (cap_cnt * elem_sz) = length data"
        using fits region by (simp_all add: unat_word_ariths region_ok_def)
      have sub: "unat (n - cap_cnt) = unat n - unat cap_cnt" using cap_n by (simp add: unat_sub word_le_nat_alt)
      then have "unat ((n - cap_cnt) * elem_sz) = unat n * unat elem_sz - length data"
        using fits region(1)
        by (simp add: unat_word_ariths region_ok_def diff_mult_distrib less_imp_diff_less)
      moreover have len: "length data \<le> unat n * unat elem_sz"
        using cap_n region(1) by (metis region_ok_def word_le_nat_alt mult_le_mono1)
      ultimately have st: "stn d (unat (cap_cnt * elem_sz)) (replicate (unat ((n - cap_cnt) * elem_sz)) 0) =
          Some (data @ replicate (unat n * unat elem_sz - length data) 0)"
        using mul by (simp add: d stn_overwrite) (simp add: overwrite_def realloc_bytes_def)
      then show ?thesis
        using Some unf n_ge n_le cap_n len by simp
    qed
  qed
qed

end
