(* ===== verification/Strset.thy ===== *)
theory Strset
  imports Hashmap Libbpf_Mem
begin

text \<open>
  The string set of libbpf, \<open>strset.c\<close>: a region of NUL-terminated strings and a hash map from
  offsets to offsets, compared by the strings they point at. A string passed in is the list of its
  characters. The context pointer of the hash map points to the set, so an operation on the hash
  map sees the region as it is at the call.
\<close>

section \<open>The set\<close>

definition c_string :: "bytes \<Rightarrow> nat \<Rightarrow> bytes" where
  "c_string data off = takeWhile (\<lambda>c. c \<noteq> 0) (drop off data)"

record strset =
  strs_data :: bytes
  strs_data_len :: u64
  strs_data_cap :: u64
  strs_data_max_len :: u64
  strs_hash :: "(bytes, u64, u64) hashmap"

definition strset_hash_fn :: "u64 \<Rightarrow> bytes \<Rightarrow> u64" where
  "strset_hash_fn key s = (let str = c_string s (unat key) in str_hash str)"

definition strset_equal_fn :: "u64 \<Rightarrow> u64 \<Rightarrow> bytes \<Rightarrow> bool" where
  "strset_equal_fn key1 key2 s =
     (let str1 = c_string s (unat key1); str2 = c_string s (unat key2) in str1 = str2)"

definition the_hash :: "strset \<Rightarrow> (bytes, u64, u64) hashmap" where
  "the_hash ss = (strs_hash ss)\<lparr>hm_ctx := strs_data ss\<rparr>"

definition strset_data_size :: "strset \<Rightarrow> u64" where
  "strset_data_size ss = strs_data_len ss"

definition strset_data :: "strset \<Rightarrow> bytes" where
  "strset_data ss = strs_data ss"

text \<open>\<open>long\<close> results are cut down to \<open>int\<close>.\<close>

definition to_int :: "u64 \<Rightarrow> int" where
  "to_int off = sint (ucast off :: 32 word)"

definition strset_add_str_mem ::
  "bool \<Rightarrow> (nat \<Rightarrow> u8) \<Rightarrow> strset \<Rightarrow> u64 \<Rightarrow> (u64 option \<times> strset) option" where
  "strset_add_str_mem ok junk ss add_sz = do {
     r \<leftarrow> libbpf_add_mem ok junk (strs_data ss) (strs_data_cap ss) 1 (strs_data_len ss)
       (strs_data_max_len ss) add_sz;
     Some (case r of
       None \<Rightarrow> (None, ss)
     | Some (p, data, cap_cnt) \<Rightarrow> (Some p, ss\<lparr>strs_data := data, strs_data_cap := cap_cnt\<rparr>))
   }"

definition strset_find_str ::
  "bool \<Rightarrow> (nat \<Rightarrow> u8) \<Rightarrow> strset \<Rightarrow> bytes \<Rightarrow> (int \<times> strset) option" where
  "strset_find_str ok junk ss s = do {
     let len = of_nat (length s) + 1;
     (p, ss) \<leftarrow> strset_add_str_mem ok junk ss len;
     (case p of
        None \<Rightarrow> Some (- ENOMEM, ss)
      | Some p \<Rightarrow> do {
          let new_off = strs_data_len ss;
          data \<leftarrow> stn (strs_data ss) (unat p) (s @ [0]);
          let ss = ss\<lparr>strs_data := data\<rparr>;
          found \<leftarrow> hashmap_find (the_hash ss) new_off;
          Some (case found of Some old_off \<Rightarrow> to_int old_off | None \<Rightarrow> - ENOENT, ss)
        })
   }"

definition strset_add_str ::
  "bool \<Rightarrow> (nat \<Rightarrow> u8) \<Rightarrow> bool \<Rightarrow> bool \<Rightarrow> strset \<Rightarrow> bytes \<Rightarrow> (int \<times> strset) option" where
  "strset_add_str ok junk calloc_ok malloc_ok ss s = do {
     let len = of_nat (length s) + 1;
     (p, ss) \<leftarrow> strset_add_str_mem ok junk ss len;
     (case p of
        None \<Rightarrow> Some (- ENOMEM, ss)
      | Some p \<Rightarrow> do {
          let new_off = strs_data_len ss;
          data \<leftarrow> stn (strs_data ss) (unat p) (s @ [0]);
          let ss = ss\<lparr>strs_data := data\<rparr>;
          (err, old, hash) \<leftarrow> hashmap_insert calloc_ok malloc_ok (the_hash ss) new_off new_off HASHMAP_ADD;
          let ss = ss\<lparr>strs_hash := hash\<rparr>;
          if err = - EEXIST then
            Some (case old of Some (old_off, v) \<Rightarrow> to_int old_off | None \<Rightarrow> 0, ss)
          else if err \<noteq> 0 then Some (err, ss)
          else Some (to_int new_off, ss\<lparr>strs_data_len := strs_data_len ss + len\<rparr>)
        })
   }"

text \<open>
  The loop of \<open>strset__new\<close> over the initial data, from the offset \<open>off\<close>; \<open>None\<close> when a string has
  no terminator. The offset grows with every string, so the length of the data is enough fuel.
\<close>

fun strset_index :: "nat \<Rightarrow> bool \<Rightarrow> bool \<Rightarrow> bytes \<Rightarrow> u64 \<Rightarrow> u64 \<Rightarrow> (bytes, u64, u64) hashmap \<Rightarrow>
    (int \<times> (bytes, u64, u64) hashmap) option" where
  "strset_index n calloc_ok malloc_ok data len off hash =
     (if \<not> off < len then Some (0, hash)
      else case n of
        0 \<Rightarrow> None
      | Suc n \<Rightarrow>
          if 0 \<notin> set (drop (unat off) data) then None
          else do {
            (err, hash) \<leftarrow> hashmap_add calloc_ok malloc_ok hash off off;
            if err = - EEXIST \<or> err = 0 then
              strset_index n calloc_ok malloc_ok data len
                (off + of_nat (length (c_string data (unat off))) + 1) hash
            else Some (err, hash)
          })"

definition strset_new ::
  "bool \<Rightarrow> bool \<Rightarrow> bool \<Rightarrow> bool \<Rightarrow> u64 \<Rightarrow> bytes option \<Rightarrow> (int + strset) option" where
  "strset_new set_ok hash_ok data_ok entries_ok max_data_sz init_data =
     (if \<not> set_ok then Some (Inl (- ENOMEM))
      else case hashmap_new hash_ok strset_hash_fn strset_equal_fn [] of
        Inl e \<Rightarrow> Some (Inl (- ENOMEM))
      | Inr hash \<Rightarrow>
          (let ss = \<lparr>strs_data = [], strs_data_len = 0, strs_data_cap = 0,
                      strs_data_max_len = max_data_sz, strs_hash = hash\<rparr>
           in case init_data of
                None \<Rightarrow> Some (Inr ss)
              | Some init \<Rightarrow>
                  if \<not> data_ok then Some (Inl (- ENOMEM))
                  else do {
                    let init_data_sz = of_nat (length init);
                    let ss = ss\<lparr>strs_data := init, strs_data_len := init_data_sz,
                                  strs_data_cap := init_data_sz\<rparr>;
                    (err, hash) \<leftarrow> strset_index (length init) entries_ok entries_ok init init_data_sz 0
                      (the_hash ss);
                    Some (if err \<noteq> 0 then Inl err else Inr (ss\<lparr>strs_hash := hash\<rparr>))
                  }))"
section \<open>The set as a function from strings to offsets\<close>

lemma strset_callbacks_ok:
  "hash_fn m = strset_hash_fn \<Longrightarrow> equal_fn m = strset_equal_fn \<Longrightarrow> callbacks_ok m"
  by (simp add: callbacks_ok_def strset_hash_fn_def strset_equal_fn_def)

text \<open>A string of the first \<open>n\<close> bytes, terminator included.\<close>

definition terminated :: "bytes \<Rightarrow> nat \<Rightarrow> nat \<Rightarrow> bool" where
  "terminated data n off \<longleftrightarrow> 0 \<in> set (drop off (take n data))"

lemma takeWhile_append_stop: "\<exists>x \<in> set xs. \<not> P x \<Longrightarrow> takeWhile P (xs @ ys) = takeWhile P xs"
  by (induction xs) auto

lemma c_string_prefix:
  assumes "terminated data n off"
  shows "c_string data off = c_string (take n data) off"
proof -
  have "off \<le> length (take n data)"
    using assms by (cases "off \<le> length (take n data)") (auto simp: terminated_def)
  then have "drop off data = drop off (take n data) @ drop n data"
    by (metis append_take_drop_id drop_append diff_is_0_eq drop_0)
  moreover have "\<exists>x \<in> set (drop off (take n data)). \<not> x \<noteq> 0" using assms by (auto simp: terminated_def)
  ultimately show ?thesis by (simp add: c_string_def takeWhile_append_stop)
qed

lemma c_string_same:
  "terminated data n off \<Longrightarrow> take n data' = take n data \<Longrightarrow> c_string data' off = c_string data off"
  using c_string_prefix [of data n off] c_string_prefix [of data' n off] by (simp add: terminated_def)

lemma terminated_same:
  "terminated data n off \<Longrightarrow> take n data' = take n data \<Longrightarrow> terminated data' n off"
  by (simp add: terminated_def)

lemma terminated_mono: "terminated data n off \<Longrightarrow> n \<le> n' \<Longrightarrow> terminated data n' off"
proof -
  assume "terminated data n off" "n \<le> n'"
  moreover have "set (drop off (take n data)) \<subseteq> set (drop off (take n' data))" if "n \<le> n'"
    using that by (metis min.absorb1 drop_take set_take_subset take_drop take_take diff_le_mono)
  ultimately show ?thesis by (auto simp: terminated_def)
qed

lemma terminated_less: "terminated data n off \<Longrightarrow> off < n"
  by (cases "off < n") (auto simp: terminated_def)

definition ss_lookup :: "strset \<Rightarrow> bytes \<Rightarrow> u64 option" where
  "ss_lookup ss s = map_option e_value
     (List.find (\<lambda>e. c_string (strs_data ss) (unat (e_key e)) = s) (for_each_entry (strs_hash ss)))"

definition ss_inv :: "strset \<Rightarrow> bool" where
  "ss_inv ss \<longleftrightarrow>
     length (strs_data ss) = unat (strs_data_cap ss) \<and> strs_data_len ss \<le> strs_data_cap ss \<and>
     unat (strs_data_cap ss) < 2 ^ 31 \<and> unat (strs_data_max_len ss) < 2 ^ 31 \<and>
     hash_fn (strs_hash ss) = strset_hash_fn \<and> equal_fn (strs_hash ss) = strset_equal_fn \<and>
     hm_ok (the_hash ss) \<and>
     unat (sz (strs_hash ss)) \<le> unat (strs_data_len ss) \<and>
     (\<forall>e \<in> set (for_each_entry (strs_hash ss)). e_value e = e_key e \<and>
        terminated (strs_data ss) (unat (strs_data_len ss)) (unat (e_key e)))"

lemma for_each_entry_ctx [simp]: "for_each_entry (m\<lparr>hm_ctx := c\<rparr>) = for_each_entry m"
  by (cases "buckets m") (simp_all add: for_each_entry_def)

lemma the_hash_simps [simp]:
  "for_each_entry (the_hash ss) = for_each_entry (strs_hash ss)" "sz (the_hash ss) = sz (strs_hash ss)"
  "hash_fn (the_hash ss) = hash_fn (strs_hash ss)" "equal_fn (the_hash ss) = equal_fn (strs_hash ss)"
  "hm_ctx (the_hash ss) = strs_data ss"
  by (simp_all add: the_hash_def)

lemma hm_abs_lookup:
  "equal_fn (strs_hash ss) = strset_equal_fn \<Longrightarrow>
    hm_abs (the_hash ss) k = ss_lookup ss (c_string (strs_data ss) (unat k))"
  by (simp add: hm_abs_def ss_lookup_def strset_equal_fn_def)

text \<open>Other bytes beyond the strings do not matter to the hash map.\<close>

lemma hm_ok_ctx:
  assumes "hm_ok m" "hash_fn m = strset_hash_fn" "equal_fn m = strset_equal_fn"
    and same: "\<And>e. e \<in> set (for_each_entry m) \<Longrightarrow>
      c_string d (unat (e_key e)) = c_string (hm_ctx m) (unat (e_key e))"
  shows "hm_ok (m\<lparr>hm_ctx := d\<rparr>)"
proof -
  let ?m = "m\<lparr>hm_ctx := d\<rparr>"
  have kh: "key_hash ?m (e_key e) = key_hash m (e_key e)" if "e \<in> set (for_each_entry m)" for e
    using same [OF that] assms(2) by (simp add: key_hash_def strset_hash_fn_def)
  have "hm_inv ?m"
  proof (cases "buckets m")
    case None
    then show ?thesis using hm_okD(1) [OF assms(1)] by (simp add: hm_inv_def)
  next
    case (Some bs)
    note inv = hm_inv_buckets [OF hm_okD(1) [OF assms(1)] Some]
    have "unat (key_hash ?m (e_key e)) = i" if "i < length bs" "e \<in> set (bs ! i)" for i e
    proof -
      have "e \<in> set (for_each_entry m)" using that by (auto simp: inv(6))
      then show ?thesis using kh inv(8) [OF that] by simp
    qed
    then show ?thesis using inv Some by (simp add: hm_inv_def)
  qed
  moreover have "callbacks_ok ?m" using assms(2,3) by (intro strset_callbacks_ok) simp_all
  moreover have "unique_keys ?m"
    unfolding unique_keys_def
  proof
    fix k :: u64
    let ?M = "mset (for_each_entry m)" and ?s = "c_string d (unat k)"
    show "size (filter_mset (\<lambda>e. same_key ?m (e_key e) k) (mset (for_each_entry ?m))) \<le> 1"
    proof (cases "\<exists>e \<in> set (for_each_entry m). c_string d (unat (e_key e)) = ?s")
      case False
      then have "filter_mset (\<lambda>e. same_key ?m (e_key e) k) (mset (for_each_entry ?m)) = {#}"
        using assms(3) by (simp add: strset_equal_fn_def)
      then show ?thesis by (simp only: size_empty le0)
    next
      case True
      then obtain x where x: "x \<in> set (for_each_entry m)" "c_string d (unat (e_key x)) = ?s" by blast
      have "filter_mset (\<lambda>e. same_key ?m (e_key e) k) ?M = filter_mset (\<lambda>e. same_key m (e_key e) (e_key x)) ?M"
        using x same assms(3) by (intro filter_mset_cong) (auto simp: strset_equal_fn_def)
      then show ?thesis
        using hm_okD(3) [OF assms(1)] by (simp add: unique_keys_def)
    qed
  qed
  ultimately show ?thesis by (simp add: hm_ok_def)
qed
text \<open>Room for a string after the strings: they stay, and the map of strings is the same.\<close>

definition same_strings :: "strset \<Rightarrow> strset \<Rightarrow> bool" where
  "same_strings ss ss' \<longleftrightarrow> strs_hash ss' = strs_hash ss \<and> strs_data_len ss' = strs_data_len ss \<and>
     strs_data_max_len ss' = strs_data_max_len ss \<and>
     take (unat (strs_data_len ss)) (strs_data ss') = take (unat (strs_data_len ss)) (strs_data ss)"

lemma same_strings_inv:
  assumes "ss_inv ss" "same_strings ss ss'"
    and cap: "length (strs_data ss') = unat (strs_data_cap ss')" "strs_data_len ss' \<le> strs_data_cap ss'"
      "unat (strs_data_cap ss') < 2 ^ 31"
  shows "ss_inv ss'" "ss_lookup ss' = ss_lookup ss"
proof -
  let ?n = "unat (strs_data_len ss)"
  note inv = assms(1) [unfolded ss_inv_def] and same = assms(2) [unfolded same_strings_def]
  have str: "c_string (strs_data ss') (unat (e_key e)) = c_string (strs_data ss) (unat (e_key e))"
    "terminated (strs_data ss') ?n (unat (e_key e))" if "e \<in> set (for_each_entry (strs_hash ss))" for e
  proof -
    have "terminated (strs_data ss) ?n (unat (e_key e))" using inv that by blast
    moreover have "take ?n (strs_data ss') = take ?n (strs_data ss)" using same by blast
    ultimately show "c_string (strs_data ss') (unat (e_key e)) = c_string (strs_data ss) (unat (e_key e))"
      "terminated (strs_data ss') ?n (unat (e_key e))"
      by (rule c_string_same, rule terminated_same)
  qed
  have "hm_ok ((the_hash ss)\<lparr>hm_ctx := strs_data ss'\<rparr>)"
    using inv str(1) by (intro hm_ok_ctx) simp_all
  moreover have "the_hash ss' = (the_hash ss)\<lparr>hm_ctx := strs_data ss'\<rparr>"
    using same by (simp add: the_hash_def)
  ultimately show "ss_inv ss'"
    using inv same cap str by (simp add: ss_inv_def)
  have "List.find (\<lambda>e. c_string (strs_data ss') (unat (e_key e)) = s) es =
      List.find (\<lambda>e. c_string (strs_data ss) (unat (e_key e)) = s) es"
    if "set es \<subseteq> set (for_each_entry (strs_hash ss))" for s es
    using that str(1) by (induction es) auto
  then show "ss_lookup ss' = ss_lookup ss"
    using same by (simp add: fun_eq_iff ss_lookup_def)
qed

lemma strset_room:
  assumes inv: "ss_inv ss" and s: "length s < 2 ^ 30"
  shows "\<exists>p ss'. strset_add_str_mem ok junk ss (of_nat (length s) + 1) = Some (p, ss') \<and>
    (case p of
       None \<Rightarrow> ss' = ss \<and> (ok \<longrightarrow> unat (strs_data_max_len ss) < unat (strs_data_len ss) + length s + 1)
     | Some q \<Rightarrow> q = strs_data_len ss \<and> same_strings ss ss' \<and> ss_inv ss' \<and> ss_lookup ss' = ss_lookup ss \<and>
         unat (strs_data_len ss) + length s + 1 \<le> length (strs_data ss'))"
proof -
  let ?add = "of_nat (length s) + 1 :: u64"
  note i = inv [unfolded ss_inv_def]
  have add: "unat ?add = length s + 1"
    using s by (simp add: unat_word_ariths unsigned_of_nat take_bit_nat_eq_self)
  have len: "unat (strs_data_len ss) < 2 ^ 31" using i by (auto simp: word_le_nat_alt)
  then have sum: "unat (strs_data_len ss + ?add) = unat (strs_data_len ss) + length s + 1"
    using add s by (simp add: unat_word_ariths)
  have region: "region_ok (strs_data ss) (strs_data_cap ss) 1" using i by (simp add: region_ok_def)
  have small: "unat (strs_data_len ss) + unat ?add < 2 ^ 62" using len add s by simp
  have le: "strs_data_len ss \<le> strs_data_cap ss" using i by blast
  obtain r where r: "libbpf_add_mem ok junk (strs_data ss) (strs_data_cap ss) 1 (strs_data_len ss)
      (strs_data_max_len ss) ?add = Some r"
    and sp: "case r of None \<Rightarrow> strs_data_cap ss < strs_data_len ss + ?add
     | Some (p, data', cap') \<Rightarrow>
         p = strs_data_len ss * 1 \<and> strs_data_cap ss \<le> cap' \<and> strs_data_len ss + ?add \<le> cap' \<and>
         length data' = unat cap' * unat (1 :: u64) \<and>
         data' = strs_data ss @ replicate (length data' - length (strs_data ss)) 0 \<and>
         (cap' = strs_data_cap ss \<or> cap' \<le> strs_data_max_len ss)"
    and none: "r = None \<longrightarrow> strs_data_max_len ss < strs_data_len ss + ?add \<or> \<not> ok \<or>
      2 ^ 63 \<le> (unat (strs_data_cap ss) + 16 + unat ?add) * 2 * unat (1 :: u64)"
    using libbpf_add_mem_spec [OF region _ le small, of ok junk "strs_data_max_len ss"] by auto
  show ?thesis
  proof (cases r)
    case None
    have "\<not> 2 ^ 63 \<le> (unat (strs_data_cap ss) + 16 + unat ?add) * 2 * unat (1 :: u64)"
      using i add s by simp
    then have "ok \<longrightarrow> unat (strs_data_max_len ss) < unat (strs_data_len ss) + length s + 1"
      using none None sum by (auto simp: word_less_nat_alt)
    then show ?thesis using r None by (simp add: strset_add_str_mem_def)
  next
    case (Some a)
    obtain p data' cap' where a: "a = (p, data', cap')" by (cases a)
    define ss' where "ss' = ss\<lparr>strs_data := data', strs_data_cap := cap'\<rparr>"
    have f: "p = strs_data_len ss" "strs_data_cap ss \<le> cap'" "strs_data_len ss + ?add \<le> cap'"
      "length data' = unat cap'" "cap' = strs_data_cap ss \<or> cap' \<le> strs_data_max_len ss"
      and app: "data' = strs_data ss @ replicate (length data' - length (strs_data ss)) 0"
      using sp unfolding Some a option.case prod.case unsigned_1 mult_1_right by blast+
    have "unat cap' < 2 ^ 31" using f(5) i by (auto simp: word_le_nat_alt)
    moreover have "take (unat (strs_data_len ss)) data' = take (unat (strs_data_len ss)) (strs_data ss)"
      using i by (subst app) (simp add: word_le_nat_alt)
    then have same: "same_strings ss ss'" by (simp add: same_strings_def ss'_def)
    moreover have "strs_data_len ss \<le> cap'" using le f(2) by simp
    ultimately have "ss_inv ss'" "ss_lookup ss' = ss_lookup ss"
      using same_strings_inv [OF inv same] f(4) by (simp_all add: ss'_def)
    moreover have "strset_add_str_mem ok junk ss ?add = Some (Some p, ss')"
      using r Some a by (simp add: strset_add_str_mem_def ss'_def)
    moreover have "unat (strs_data_len ss) + length s + 1 \<le> length (strs_data ss')"
      using f(3,4) sum by (simp add: word_le_nat_alt ss'_def)
    ultimately show ?thesis using f(1) same by (intro exI [of _ "Some p"] exI [of _ ss']) simp
  qed
qed
text \<open>The string is copied behind the strings, where the hash map can see it.\<close>

lemma strset_copied:
  assumes inv: "ss_inv ss" and s: "0 \<notin> set s"
    and room: "unat (strs_data_len ss) + length s + 1 \<le> length (strs_data ss)"
  shows "\<exists>data. stn (strs_data ss) (unat (strs_data_len ss)) (s @ [0]) = Some data \<and>
    ss_inv (ss\<lparr>strs_data := data\<rparr>) \<and> ss_lookup (ss\<lparr>strs_data := data\<rparr>) = ss_lookup ss \<and>
    same_strings ss (ss\<lparr>strs_data := data\<rparr>) \<and>
    c_string data (unat (strs_data_len ss)) = s \<and>
    terminated data (unat (strs_data_len ss) + length s + 1) (unat (strs_data_len ss))"
proof -
  let ?n = "unat (strs_data_len ss)"
  define data where "data = overwrite ?n (s @ [0]) (strs_data ss)"
  note i = inv [unfolded ss_inv_def]
  have st: "stn (strs_data ss) ?n (s @ [0]) = Some data"
    using room by (simp add: stn_overwrite data_def)
  have len: "length data = length (strs_data ss)" using room by (simp add: data_def length_overwrite)
  have split: "data = take ?n (strs_data ss) @ s @ [0] @ drop (?n + length s + 1) (strs_data ss)"
    by (simp add: data_def overwrite_def)
  have nlen: "length (take ?n (strs_data ss)) = ?n" using room by simp
  have same: "same_strings ss (ss\<lparr>strs_data := data\<rparr>)"
    using nlen by (simp add: same_strings_def split)
  have "c_string data ?n = s"
  proof -
    have "\<forall>x \<in> set s. x \<noteq> 0" using s by metis
    then show ?thesis using nlen by (simp add: c_string_def split takeWhile_append2)
  qed
  moreover have "terminated data (?n + length s + 1) ?n"
    using nlen by (simp add: terminated_def split)
  moreover have "ss_inv (ss\<lparr>strs_data := data\<rparr>)" "ss_lookup (ss\<lparr>strs_data := data\<rparr>) = ss_lookup ss"
    using same_strings_inv [OF inv same] i len by simp_all
  ultimately show ?thesis using st same by blast
qed

lemma to_int_small: "unat off < 2 ^ 31 \<Longrightarrow> to_int off = int (unat off)"
proof -
  assume "unat off < 2 ^ 31"
  then have "int (unat off) < int (2 ^ 31)" by (simp only: of_nat_less_iff)
  then have "uint off < 2 ^ 31" by (simp only: of_nat_unat of_nat_power of_nat_numeral)
  moreover have "0 \<le> uint off" by simp
  ultimately have "signed_take_bit 31 (uint off) = uint off"
    by (intro signed_take_bit_int_eq_self) linarith+
  then show ?thesis unfolding to_int_def signed_ucast_eq by simp
qed

lemma ss_lookup_Some:
  assumes "ss_inv ss" "ss_lookup ss s = Some off"
  shows "unat off < unat (strs_data_len ss)" "c_string (strs_data ss) (unat off) = s"
    "terminated (strs_data ss) (unat (strs_data_len ss)) (unat off)"
proof -
  obtain e where "e \<in> set (for_each_entry (strs_hash ss))" "c_string (strs_data ss) (unat (e_key e)) = s"
    "e_value e = off"
    using assms(2) find_SomeD by (fastforce simp: ss_lookup_def)
  moreover from this(1) have "e_value e = e_key e"
    "terminated (strs_data ss) (unat (strs_data_len ss)) (unat (e_key e))"
    using assms(1) by (simp_all add: ss_inv_def)
  ultimately show "unat off < unat (strs_data_len ss)" "c_string (strs_data ss) (unat off) = s"
    "terminated (strs_data ss) (unat (strs_data_len ss)) (unat off)"
    using terminated_less by auto
qed
text \<open>The strings after an insertion at the offset of \<open>s\<close>.\<close>

lemma ss_lookup_add:
  assumes "equal_fn (strs_hash ss) = strset_equal_fn" "equal_fn (strs_hash ss') = strset_equal_fn"
    "strs_data ss' = strs_data ss" "c_string (strs_data ss) (unat k) = s"
    and abs: "hm_abs (the_hash ss') =
      (\<lambda>k'. if same_key (the_hash ss) k k' then Some v else hm_abs (the_hash ss) k')"
  shows "ss_lookup ss' = (ss_lookup ss)(s \<mapsto> v)"
proof
  fix s'
  show "ss_lookup ss' s' = ((ss_lookup ss)(s \<mapsto> v)) s'"
  proof (cases "\<exists>k' :: u64. c_string (strs_data ss) (unat k') = s'")
    case True
    then obtain k' :: u64 where k': "c_string (strs_data ss) (unat k') = s'" by blast
    have "ss_lookup ss' s' = hm_abs (the_hash ss') k'" "ss_lookup ss s' = hm_abs (the_hash ss) k'"
      using assms(1-3) k' by (simp_all add: hm_abs_lookup)
    then show ?thesis
      using abs assms(1,4) k' by (auto simp: fun_eq_iff strset_equal_fn_def)
  next
    case False
    then have none: "ss_lookup x s' = None" if "strs_data x = strs_data ss" for x
      using that by (auto simp: ss_lookup_def find_None_iff)
    moreover have "s \<noteq> s'" using False assms(4) by blast
    ultimately show ?thesis using none [of ss'] none [of ss] assms(3) by simp
  qed
qed

lemma ss_lookup_same:
  assumes "equal_fn (strs_hash ss) = strset_equal_fn" "equal_fn (strs_hash ss') = strset_equal_fn"
    "strs_data ss' = strs_data ss" "hm_abs (the_hash ss') = hm_abs (the_hash ss)"
  shows "ss_lookup ss' = ss_lookup ss"
proof
  fix s'
  show "ss_lookup ss' s' = ss_lookup ss s'"
  proof (cases "\<exists>k' :: u64. c_string (strs_data ss) (unat k') = s'")
    case True
    then obtain k' :: u64 where k': "c_string (strs_data ss) (unat k') = s'" by blast
    have "ss_lookup ss' s' = hm_abs (the_hash ss') k'" "ss_lookup ss s' = hm_abs (the_hash ss) k'"
      using assms(1-3) k' by (simp_all add: hm_abs_lookup)
    then show ?thesis using assms(4) by simp
  next
    case False
    then have "ss_lookup x s' = None" if "strs_data x = strs_data ss" for x
      using that by (auto simp: ss_lookup_def find_None_iff)
    then show ?thesis using assms(3) by simp
  qed
qed

lemma strset_find_str_spec:
  assumes inv: "ss_inv ss" and s: "0 \<notin> set s" "length s < 2 ^ 30"
  shows "\<exists>r ss'. strset_find_str ok junk ss s = Some (r, ss') \<and> ss_inv ss' \<and>
    ss_lookup ss' = ss_lookup ss \<and> strs_data_len ss' = strs_data_len ss \<and>
    (r = (case ss_lookup ss s of Some off \<Rightarrow> int (unat off) | None \<Rightarrow> - ENOENT) \<or>
     r = - ENOMEM \<and> (ok \<longrightarrow> unat (strs_data_max_len ss) < unat (strs_data_len ss) + length s + 1))"
proof -
  obtain p ss1 where p: "strset_add_str_mem ok junk ss (of_nat (length s) + 1) = Some (p, ss1)"
    and room: "case p of None \<Rightarrow> ss1 = ss \<and>
        (ok \<longrightarrow> unat (strs_data_max_len ss) < unat (strs_data_len ss) + length s + 1)
     | Some q \<Rightarrow> q = strs_data_len ss \<and> same_strings ss ss1 \<and> ss_inv ss1 \<and> ss_lookup ss1 = ss_lookup ss \<and>
         unat (strs_data_len ss) + length s + 1 \<le> length (strs_data ss1)"
    using strset_room [OF inv s(2)] by blast
  show ?thesis
  proof (cases p)
    case None
    with p room inv show ?thesis by (simp add: strset_find_str_def Let_def)
  next
    case (Some q)
    then have q: "q = strs_data_len ss" "same_strings ss ss1" "ss_inv ss1" "ss_lookup ss1 = ss_lookup ss"
      "strs_data_len ss1 = strs_data_len ss" "unat (strs_data_len ss1) + length s + 1 \<le> length (strs_data ss1)"
      using room by (simp_all add: same_strings_def)
    obtain data where d: "stn (strs_data ss1) (unat (strs_data_len ss1)) (s @ [0]) = Some data"
      "ss_inv (ss1\<lparr>strs_data := data\<rparr>)" "ss_lookup (ss1\<lparr>strs_data := data\<rparr>) = ss_lookup ss1"
      "c_string data (unat (strs_data_len ss1)) = s"
      using strset_copied [OF q(3) s(1) q(6)] by blast
    let ?ss = "ss1\<lparr>strs_data := data\<rparr>"
    have ok: "hm_ok (the_hash ?ss)" "equal_fn (strs_hash ?ss) = strset_equal_fn"
      using d(2) unfolding ss_inv_def by blast+
    have "hashmap_find (the_hash ?ss) (strs_data_len ss) = Some (ss_lookup ss s)"
      using hashmap_find_spec [OF hm_okD(1,2) [OF ok(1)]] hm_abs_lookup [OF ok(2)] d(3,4) q(4,5)
      by simp
    moreover have "to_int off = int (unat off)" if "ss_lookup ss s = Some off" for off
      using ss_lookup_Some(1) [OF inv that] inv
      by (intro to_int_small) (simp add: ss_inv_def word_le_nat_alt)
    ultimately show ?thesis
      using p Some q(1,5) d q(4)
      by (auto simp: strset_find_str_def Let_def split: option.splits)
  qed
qed

lemma uint_neg: "uint (x :: u64) \<noteq> - 12"
proof -
  have "0 \<le> uint x" by simp
  then show ?thesis by linarith
qed

lemma strset_add_str_spec:
  assumes inv: "ss_inv ss" and s: "0 \<notin> set s" "length s < 2 ^ 30"
  shows "\<exists>r ss'. strset_add_str ok junk calloc_ok malloc_ok ss s = Some (r, ss') \<and> ss_inv ss' \<and>
    strs_data_max_len ss' = strs_data_max_len ss \<and>
    take (unat (strs_data_len ss)) (strs_data ss') = take (unat (strs_data_len ss)) (strs_data ss) \<and>
    (case ss_lookup ss s of
       Some off \<Rightarrow> (r = int (unat off) \<or> r = - ENOMEM) \<and> ss_lookup ss' = ss_lookup ss \<and>
         strs_data_len ss' = strs_data_len ss
     | None \<Rightarrow>
         r = int (unat (strs_data_len ss)) \<and> ss_lookup ss' = (ss_lookup ss)(s \<mapsto> strs_data_len ss) \<and>
         unat (strs_data_len ss') = unat (strs_data_len ss) + length s + 1
       \<or> r = - ENOMEM \<and> ss_lookup ss' = ss_lookup ss \<and> strs_data_len ss' = strs_data_len ss) \<and>
    (r = - ENOMEM \<longrightarrow> ok \<and> calloc_ok \<and> malloc_ok \<longrightarrow>
       unat (strs_data_max_len ss) < unat (strs_data_len ss) + length s + 1)"
proof -
  obtain p ss1 where p: "strset_add_str_mem ok junk ss (of_nat (length s) + 1) = Some (p, ss1)"
    and room: "case p of None \<Rightarrow> ss1 = ss \<and>
        (ok \<longrightarrow> unat (strs_data_max_len ss) < unat (strs_data_len ss) + length s + 1)
     | Some q \<Rightarrow> q = strs_data_len ss \<and> same_strings ss ss1 \<and> ss_inv ss1 \<and> ss_lookup ss1 = ss_lookup ss \<and>
         unat (strs_data_len ss) + length s + 1 \<le> length (strs_data ss1)"
    using strset_room [OF inv s(2)] by blast
  show ?thesis
  proof (cases p)
    case None
    with p room inv show ?thesis by (simp add: strset_add_str_def Let_def split: option.splits)
  next
    case (Some q)
    then have q: "q = strs_data_len ss" "same_strings ss ss1" "ss_inv ss1" "ss_lookup ss1 = ss_lookup ss"
      "strs_data_len ss1 = strs_data_len ss" "unat (strs_data_len ss1) + length s + 1 \<le> length (strs_data ss1)"
      using room by (simp_all add: same_strings_def)
    let ?n = "unat (strs_data_len ss)"
    obtain data where d: "stn (strs_data ss1) (unat (strs_data_len ss1)) (s @ [0]) = Some data"
      "ss_inv (ss1\<lparr>strs_data := data\<rparr>)" "ss_lookup (ss1\<lparr>strs_data := data\<rparr>) = ss_lookup ss1"
      "same_strings ss1 (ss1\<lparr>strs_data := data\<rparr>)"
      "c_string data (unat (strs_data_len ss1)) = s"
      "terminated data (unat (strs_data_len ss1) + length s + 1) (unat (strs_data_len ss1))"
      using strset_copied [OF q(3) s(1) q(6)] by blast
    define ss2 where "ss2 = ss1\<lparr>strs_data := data\<rparr>"
    have ss2: "ss_inv ss2" "ss_lookup ss2 = ss_lookup ss" "strs_data_len ss2 = strs_data_len ss"
      "c_string (strs_data ss2) ?n = s" "terminated (strs_data ss2) (?n + length s + 1) ?n"
      "?n + length s + 1 \<le> length (strs_data ss2)"
      "take ?n (strs_data ss2) = take ?n (strs_data ss)" "strs_data_max_len ss2 = strs_data_max_len ss"
      using d(2-6) q(2,4-6) d(2) [unfolded ss_inv_def] q(3) [unfolded ss_inv_def]
      by (simp_all add: ss2_def same_strings_def)
    note i2 = ss2(1) [unfolded ss_inv_def]
    have ok2: "hm_ok (the_hash ss2)" "equal_fn (strs_hash ss2) = strset_equal_fn" using i2 by blast+
    have abs: "hm_abs (the_hash ss2) (strs_data_len ss) = ss_lookup ss s"
      using hm_abs_lookup [OF ok2(2), of "strs_data_len ss"] ss2(2,4) by simp
    have nlen: "?n < 2 ^ 31" using inv by (simp add: ss_inv_def word_le_nat_alt)
    have add: "strset_add_str ok junk calloc_ok malloc_ok ss s =
      do { (err, old, hash) \<leftarrow> hashmap_insert calloc_ok malloc_ok (the_hash ss2) (strs_data_len ss)
             (strs_data_len ss) HASHMAP_ADD;
           let ss' = ss2\<lparr>strs_hash := hash\<rparr>;
           if err = - EEXIST then
             Some (case old of Some (old_off, v) \<Rightarrow> to_int old_off | None \<Rightarrow> 0, ss')
           else if err \<noteq> 0 then Some (err, ss')
           else Some (to_int (strs_data_len ss),
             ss'\<lparr>strs_data_len := strs_data_len ss + (of_nat (length s) + 1)\<rparr>) }"
      using p Some q(1,5) d(1) by (simp add: strset_add_str_def Let_def ss2_def cong: if_cong)
    show ?thesis
    proof (cases "ss_lookup ss s")
      case look: (Some off)
      have "hm_abs (the_hash ss2) (strs_data_len ss) \<noteq> None" using abs look by simp
      then obtain e where e: "e \<in> set (for_each_entry (the_hash ss2))"
        "same_key (the_hash ss2) (e_key e) (strs_data_len ss)"
        "hm_abs (the_hash ss2) (strs_data_len ss) = Some (e_value e)"
        by (rule hm_abs_SomeE [OF ok2(1)])
      have "e_key e = off" using e(1,3) abs look i2 by simp
      moreover have "unat off < 2 ^ 31"
        using ss_lookup_Some(1) [OF inv look] nlen by simp
      moreover obtain m' where m': "hashmap_insert calloc_ok malloc_ok (the_hash ss2) (strs_data_len ss)
          (strs_data_len ss) HASHMAP_ADD = Some (- EEXIST, Some (e_key e, e_value e), m')" "m' = the_hash ss2"
        using hashmap_insert_found [OF ok2(1) e(1,2), of HASHMAP_ADD calloc_ok malloc_ok "strs_data_len ss"]
        by auto
      ultimately have "strset_add_str ok junk calloc_ok malloc_ok ss s =
          Some (int (unat off), ss2\<lparr>strs_hash := the_hash ss2\<rparr>)"
        using add by (simp add: to_int_small Let_def)
      moreover have "ss_inv (ss2\<lparr>strs_hash := the_hash ss2\<rparr>)"
        using i2 by (simp add: ss_inv_def the_hash_def)
      moreover have "ss_lookup (ss2\<lparr>strs_hash := the_hash ss2\<rparr>) = ss_lookup ss"
        using ss2(2) by (simp add: ss_lookup_def fun_eq_iff)
      ultimately show ?thesis using look ss2(3,7,8) uint_neg by simp
    next
      case look: None
      have fresh: "hm_abs (the_hash ss2) (strs_data_len ss) = None" using abs look by simp
      have small: "unat (sz (the_hash ss2)) < 2 ^ 60"
        using i2 ss2(3) nlen by simp
      obtain err m' where m': "hashmap_insert calloc_ok malloc_ok (the_hash ss2) (strs_data_len ss)
          (strs_data_len ss) HASHMAP_ADD = Some (err, None, m')" "hm_ok m'" "same_callbacks (the_hash ss2) m'"
        "calloc_ok \<and> malloc_ok \<longrightarrow> err = 0"
        "if err = 0 then unat (sz m') = unat (sz (the_hash ss2)) + 1 \<and>
           mset (for_each_entry m') = add_mset \<lparr>e_key = strs_data_len ss, e_value = strs_data_len ss\<rparr>
             (mset (for_each_entry (the_hash ss2))) \<and>
           hm_abs m' = (\<lambda>k'. if same_key (the_hash ss2) (strs_data_len ss) k' then Some (strs_data_len ss)
                             else hm_abs (the_hash ss2) k')
         else err = - ENOMEM \<and> sz m' = sz (the_hash ss2) \<and>
           mset (for_each_entry m') = mset (for_each_entry (the_hash ss2)) \<and>
           hm_abs m' = hm_abs (the_hash ss2)"
        using hashmap_insert_fresh [OF ok2(1) fresh small, of HASHMAP_ADD calloc_ok malloc_ok "strs_data_len ss"]
        by blast
      have ctx: "m'\<lparr>hm_ctx := strs_data ss2\<rparr> = m'" using m'(3) by simp
      have cb: "hash_fn m' = strset_hash_fn" "equal_fn m' = strset_equal_fn" using m'(3) i2 by simp_all
      show ?thesis
      proof (cases "err = 0")
        case True
        let ?len = "strs_data_len ss + (of_nat (length s) + 1)"
        define ss3 where "ss3 = ss2\<lparr>strs_hash := m', strs_data_len := ?len\<rparr>"
        have len: "unat ?len = ?n + length s + 1"
          using nlen s(2) by (simp add: unat_word_ariths unsigned_of_nat take_bit_nat_eq_self)
        have res: "strset_add_str ok junk calloc_ok malloc_ok ss s = Some (int ?n, ss3)"
          using add m'(1) True nlen by (simp add: to_int_small ss3_def)
        have hash3: "the_hash ss3 = m'" using ctx by (simp add: the_hash_def ss3_def)
        have M: "mset (for_each_entry m') = add_mset \<lparr>e_key = strs_data_len ss, e_value = strs_data_len ss\<rparr>
            (mset (for_each_entry (strs_hash ss2)))" using m'(5) True by simp
        have "ss_lookup ss3 = (ss_lookup ss2)(s \<mapsto> strs_data_len ss)"
        proof (rule ss_lookup_add [OF ok2(2) _ _ ss2(4)])
          show "hm_abs (the_hash ss3) = (\<lambda>k'. if same_key (the_hash ss2) (strs_data_len ss) k'
              then Some (strs_data_len ss) else hm_abs (the_hash ss2) k')"
            using m'(5) True by (simp add: hash3)
        qed (use cb in \<open>simp_all add: ss3_def\<close>)
        moreover have "ss_inv ss3"
        proof -
          have "set (for_each_entry m') = insert \<lparr>e_key = strs_data_len ss, e_value = strs_data_len ss\<rparr>
              (set (for_each_entry (strs_hash ss2)))" using arg_cong [OF M, of set_mset] by simp
          moreover have "terminated (strs_data ss2) (unat ?len) (unat (e_key e))"
            if "e \<in> set (for_each_entry (strs_hash ss2))" for e
            using i2 that ss2(3) len by (auto intro: terminated_mono [where n = ?n])
          moreover have "?len \<le> strs_data_cap ss2"
            using ss2(6) i2 len by (simp add: word_le_nat_alt)
          moreover have "unat (sz m') \<le> unat ?len"
            using m'(5) True i2 ss2(3) len by simp
          ultimately show ?thesis
            using i2 m'(2) cb ss2(5) len hash3 unfolding ss_inv_def hash3 by (simp add: ss3_def)
        qed
        ultimately show ?thesis
          using res look ss2(2,7,8) len uint_neg by (simp add: ss3_def)
      next
        case False
        then have f: "err = - ENOMEM" "sz m' = sz (strs_hash ss2)"
          "mset (for_each_entry m') = mset (for_each_entry (strs_hash ss2))"
          "hm_abs m' = hm_abs (the_hash ss2)" using m'(5) by simp_all
        define ss3 where "ss3 = ss2\<lparr>strs_hash := m'\<rparr>"
        have res: "strset_add_str ok junk calloc_ok malloc_ok ss s = Some (- ENOMEM, ss3)"
          using add m'(1) f(1) by (simp add: ss3_def)
        have hash3: "the_hash ss3 = m'" using ctx by (simp add: the_hash_def ss3_def)
        have "ss_lookup ss3 = ss_lookup ss2"
          by (rule ss_lookup_same [OF ok2(2)]) (use cb f(4) hash3 in \<open>simp_all add: ss3_def\<close>)
        moreover have "set (for_each_entry m') = set (for_each_entry (strs_hash ss2))"
          using f(3) by (rule mset_eq_setD)
        then have "ss_inv ss3"
          using i2 m'(2) cb f(2) hash3 unfolding ss_inv_def hash3 by (simp add: ss3_def)
        ultimately show ?thesis
          using res look ss2(2,3,7,8) m'(4) f(1) by (auto simp: ss3_def)
      qed
    qed
  qed
qed

section \<open>Creating a set\<close>

lemma ss_inv_empty:
  assumes "strset_new True True data_ok e max_sz None = Some (Inr ss)" "unat max_sz < 2 ^ 31"
  shows "ss_inv ss" "ss_lookup ss = (\<lambda>s. None)" "strs_data_len ss = 0" "strs_data_max_len ss = max_sz"
proof -
  have ss: "ss = \<lparr>strs_data = [], strs_data_len = 0, strs_data_cap = 0, strs_data_max_len = max_sz,
      strs_hash = hashmap_init strset_hash_fn strset_equal_fn []\<rparr>"
    using assms(1) by (simp add: strset_new_def hashmap_new_def)
  have h: "the_hash ss = hashmap_init strset_hash_fn strset_equal_fn []"
    by (simp add: ss the_hash_def hashmap_init_def)
  have "hm_ok (the_hash ss)"
    unfolding h hm_ok_def using hm_inv_init
    by (auto simp: unique_keys_def for_each_entry_def hashmap_init_def intro: strset_callbacks_ok)
  then show "ss_inv ss" "ss_lookup ss = (\<lambda>s. None)" "strs_data_len ss = 0" "strs_data_max_len ss = max_sz"
    using assms(2)
    by (simp_all add: ss_inv_def h ss_lookup_def fun_eq_iff)
      (simp_all add: ss hashmap_init_def for_each_entry_def)
qed

text \<open>The hash map of a set whose strings up to the offset \<open>n\<close> have been entered.\<close>

definition index_ok :: "bytes \<Rightarrow> nat \<Rightarrow> (bytes, u64, u64) hashmap \<Rightarrow> bool" where
  "index_ok data n hash \<longleftrightarrow> hm_ok hash \<and> hash_fn hash = strset_hash_fn \<and> equal_fn hash = strset_equal_fn \<and>
     hm_ctx hash = data \<and> unat (sz hash) \<le> n \<and>
     (\<forall>e \<in> set (for_each_entry hash). e_value e = e_key e \<and> terminated data (length data) (unat (e_key e)))"

lemma zero_ahead: "off < length data \<Longrightarrow> last data = 0 \<Longrightarrow> 0 \<in> set (drop off data)"
  by (metis drop_eq_Nil last_drop last_in_set not_less)

lemma length_takeWhile_less_stop: "\<exists>x \<in> set xs. \<not> P x \<Longrightarrow> length (takeWhile P xs) < length xs"
  by (induction xs) auto

lemma index_entry:
  assumes ok: "index_ok data (unat off) hash" and data: "length data < 2 ^ 31" "unat off < length data" "last data = 0"
  shows "\<exists>err hash'. hashmap_add calloc_ok malloc_ok hash off off = Some (err, hash') \<and>
    (err = 0 \<or> err = - EEXIST \<or> err = - ENOMEM) \<and> index_ok data (Suc (unat off)) hash'"
proof -
  note K = ok [unfolded index_ok_def]
  have hm: "hm_ok hash" using K by blast
  show ?thesis
  proof (cases "hm_abs hash off")
    case None
    have "unat (sz hash) < 2 ^ 60" using K data by simp
    from hashmap_insert_fresh [OF hm None this, of HASHMAP_ADD calloc_ok malloc_ok off]
    obtain err m' where m': "hashmap_insert calloc_ok malloc_ok hash off off HASHMAP_ADD = Some (err, None, m')"
      "hm_ok m'" "same_callbacks hash m'"
      "if err = 0 then unat (sz m') = unat (sz hash) + 1 \<and>
         mset (for_each_entry m') = add_mset \<lparr>e_key = off, e_value = off\<rparr> (mset (for_each_entry hash))
       else err = - ENOMEM \<and> sz m' = sz hash \<and> mset (for_each_entry m') = mset (for_each_entry hash)"
      by (auto split: if_splits)
    have "set (for_each_entry m') \<subseteq> insert \<lparr>e_key = off, e_value = off\<rparr> (set (for_each_entry hash))"
      using m'(4) by (metis set_mset_mset set_mset_add_mset_insert subset_insertI order_refl)
    moreover have "terminated data (length data) (unat off)"
      using zero_ahead [OF data(2,3)] by (simp add: terminated_def)
    ultimately have "index_ok data (Suc (unat off)) m'"
      using K m'(2-4) unfolding index_ok_def by (auto split: if_splits)
    then show ?thesis using m'(1,4) by (auto simp: hashmap_add_def split: if_splits)
  next
    case (Some v)
    then obtain e where e: "e \<in> set (for_each_entry hash)" "same_key hash (e_key e) off"
      using hm_abs_SomeE [OF hm, of off] by auto
    have "hashmap_add calloc_ok malloc_ok hash off off = Some (- EEXIST, hash)"
      using hashmap_insert_found [OF hm e, of HASHMAP_ADD calloc_ok malloc_ok off] by (auto simp: hashmap_add_def)
    moreover have "index_ok data (Suc (unat off)) hash" using K by (auto simp: index_ok_def)
    ultimately show ?thesis by blast
  qed
qed

lemma strset_index_ok:
  assumes "length data < 2 ^ 31" "data \<noteq> [] \<longrightarrow> last data = 0"
  shows "index_ok data (unat off) hash \<Longrightarrow> unat off \<le> length data \<Longrightarrow> length data \<le> n + unat off \<Longrightarrow>
    \<exists>err hash'. strset_index n calloc_ok malloc_ok data (of_nat (length data)) off hash = Some (err, hash') \<and>
      (err = 0 \<and> index_ok data (length data) hash' \<or> err = - ENOMEM)"
proof (induction n arbitrary: off hash)
  case 0
  then have "unat off = length data" by simp
  then show ?case
    using 0 assms(1) by (simp add: word_less_nat_alt unsigned_of_nat take_bit_nat_eq_self)
next
  case (Suc n)
  have len: "unat (of_nat (length data) :: u64) = length data"
    using assms(1) by (simp add: unsigned_of_nat take_bit_nat_eq_self)
  show ?case
  proof (cases "unat off < length data")
    case False
    then show ?thesis using Suc.prems len by (simp add: word_less_nat_alt)
  next
    case True
    then have last: "last data = 0" using assms(2) by auto
    have zero: "0 \<in> set (drop (unat off) data)" by (rule zero_ahead [OF True last])
    let ?s = "c_string data (unat off)" and ?off = "off + of_nat (length (c_string data (unat off))) + 1"
    have s: "length ?s < length data - unat off"
      using length_takeWhile_less_stop [of "drop (unat off) data" "\<lambda>c. c \<noteq> 0"] zero by (auto simp: c_string_def)
    then have off': "unat ?off = unat off + length ?s + 1"
      using assms(1) by (simp add: unat_word_ariths unsigned_of_nat take_bit_nat_eq_self)
    obtain err hash' where e: "hashmap_add calloc_ok malloc_ok hash off off = Some (err, hash')"
      "err = 0 \<or> err = - EEXIST \<or> err = - ENOMEM" "index_ok data (Suc (unat off)) hash'"
      using index_entry [OF Suc.prems(1) assms(1) True last] by blast
    have "index_ok data (unat ?off) hash'" using e(3) off' by (auto simp: index_ok_def)
    note IH = Suc.IH [OF this]
    show ?thesis
    proof (cases "err = - ENOMEM")
      case True
      then show ?thesis using e(1) \<open>unat off < length data\<close> zero len by (simp add: word_less_nat_alt)
    next
      case False
      then have "strset_index (Suc n) calloc_ok malloc_ok data (of_nat (length data)) off hash =
          strset_index n calloc_ok malloc_ok data (of_nat (length data)) ?off hash'"
        using e(1,2) True zero len by (auto simp: word_less_nat_alt)
      then show ?thesis using IH off' s Suc.prems(3) by simp
    qed
  qed
qed

text \<open>A set made from data that end with a terminator.\<close>

lemma strset_new_data:
  assumes "length data < 2 ^ 31" "data \<noteq> [] \<longrightarrow> last data = 0" "unat max_sz < 2 ^ 31"
  shows "\<exists>r. strset_new set_ok hash_ok data_ok e max_sz (Some data) = Some r \<and>
    (case r of Inl err \<Rightarrow> err = - ENOMEM
     | Inr ss \<Rightarrow> ss_inv ss \<and> strs_data ss = data \<and> unat (strs_data_len ss) = length data)"
proof -
  let ?h = "hashmap_init strset_hash_fn strset_equal_fn []\<lparr>hm_ctx := data\<rparr>"
  have "hm_ok ?h"
    unfolding hm_ok_def using hm_inv_init
    by (auto simp: unique_keys_def for_each_entry_def hashmap_init_def hm_inv_def intro: strset_callbacks_ok)
  then have "index_ok data (unat (0 :: u64)) ?h"
    by (simp add: index_ok_def hashmap_init_def for_each_entry_def)
  then obtain err hash' where h: "strset_index (length data) e e data (of_nat (length data)) 0 ?h = Some (err, hash')"
    "err = 0 \<and> index_ok data (length data) hash' \<or> err = - ENOMEM"
    using strset_index_ok [OF assms(1,2), of 0 ?h "length data" e e] by auto
  have len: "unat (of_nat (length data) :: u64) = length data"
    using assms(1) by (simp add: unsigned_of_nat take_bit_nat_eq_self)
  show ?thesis
  proof (cases "set_ok \<and> hash_ok \<and> data_ok")
    case False
    then show ?thesis by (auto simp: strset_new_def hashmap_new_def)
  next
    case True
    let ?ss = "\<lparr>strs_data = data, strs_data_len = of_nat (length data), strs_data_cap = of_nat (length data),
      strs_data_max_len = max_sz, strs_hash = hash'\<rparr>"
    have new: "strset_new set_ok hash_ok data_ok e max_sz (Some data) = Some (if err \<noteq> 0 then Inl err else Inr ?ss)"
      using True h(1) by (simp add: strset_new_def hashmap_new_def the_hash_def Let_def del: strset_index.simps)
    show ?thesis
    proof (cases "err = 0")
      case True
      then have "index_ok data (length data) hash'" using h(2) by simp
      moreover from this have "hash'\<lparr>hm_ctx := data\<rparr> = hash'" by (auto simp: index_ok_def)
      with calculation have "hm_ok (hash'\<lparr>hm_ctx := data\<rparr>)" unfolding index_ok_def by metis
      ultimately have "ss_inv ?ss"
        using assms len by (simp add: ss_inv_def index_ok_def the_hash_def)
      then show ?thesis using new True len by simp
    next
      case False
      then show ?thesis using new h(2) by simp
    qed
  qed
qed

section \<open>Properties\<close>


definition empty_strset :: strset where
  "empty_strset = \<lparr>strs_data = [], strs_data_len = 0, strs_data_cap = 0, strs_data_max_len = 100,
     strs_hash = hashmap_init strset_hash_fn strset_equal_fn []\<rparr>"

lemma empty_strset: "ss_inv empty_strset" "ss_lookup empty_strset = (\<lambda>s. None)"
  "strs_data_len empty_strset = 0" "strs_data_max_len empty_strset = 100"
  using ss_inv_empty [of True True 100 empty_strset]
  by (simp_all add: strset_new_def hashmap_new_def empty_strset_def)


text \<open>
  A string that was added is found: looking it up returns the offset that adding it returned,
  where the string is, with its terminator, within the data.
\<close>

theorem strset_find_added:
  assumes "ss_inv ss" "0 \<notin> set s" "length s < 2 ^ 30"
    "strset_add_str True junk True True ss s = Some (r, ss')" "0 \<le> r"
    "strset_find_str True junk' ss' s = Some (r', ss'')"
    "unat (strs_data_len ss') + length s + 1 \<le> unat (strs_data_max_len ss')"
  shows "r' = r \<and> c_string (strs_data ss'') (nat r) = s \<and>
    terminated (strs_data ss'') (unat (strs_data_len ss'')) (nat r)"
proof -
  obtain r1 ss1 where a: "strset_add_str True junk True True ss s = Some (r1, ss1)" "ss_inv ss1"
    "case ss_lookup ss s of
       Some off \<Rightarrow> (r1 = int (unat off) \<or> r1 = - ENOMEM) \<and> ss_lookup ss1 = ss_lookup ss \<and>
         strs_data_len ss1 = strs_data_len ss
     | None \<Rightarrow>
         r1 = int (unat (strs_data_len ss)) \<and> ss_lookup ss1 = (ss_lookup ss)(s \<mapsto> strs_data_len ss) \<and>
         unat (strs_data_len ss1) = unat (strs_data_len ss) + length s + 1
       \<or> r1 = - ENOMEM \<and> ss_lookup ss1 = ss_lookup ss \<and> strs_data_len ss1 = strs_data_len ss"
    using strset_add_str_spec [OF assms(1-3), of True junk True True] by blast
  have eq: "r1 = r" "ss1 = ss'" using a(1) assms(4) by simp_all
  obtain off where off: "ss_lookup ss' s = Some off" "r = int (unat off)"
    using a(3) assms(5) unfolding eq by (cases "ss_lookup ss s") auto
  obtain r2 ss2 where f: "strset_find_str True junk' ss' s = Some (r2, ss2)" "ss_inv ss2"
    "ss_lookup ss2 = ss_lookup ss'"
    "r2 = (case ss_lookup ss' s of Some off \<Rightarrow> int (unat off) | None \<Rightarrow> - ENOENT) \<or>
     r2 = - ENOMEM \<and> (True \<longrightarrow> unat (strs_data_max_len ss') < unat (strs_data_len ss') + length s + 1)"
    using strset_find_str_spec [OF a(2) [unfolded eq] assms(2,3), of True junk'] by blast
  have eq2: "r2 = r'" "ss2 = ss''" using f(1) assms(6) by simp_all
  have "r' = r" using f(4) assms(7) off unfolding eq2 by auto
  moreover have "ss_lookup ss'' s = Some off" using f(3) off(1) by (simp add: eq2)
  ultimately show ?thesis
    using ss_lookup_Some [OF f(2) [unfolded eq2]] off(2) by simp
qed

theorem strset_find_added_witness:
  "\<exists>ss' ss''. strset_add_str True (\<lambda>i. 0) True True empty_strset [104, 105] = Some (0, ss') \<and>
     strset_find_str True (\<lambda>i. 0) ss' [104, 105] = Some (0, ss'')"
proof -
  obtain r ss' where a: "strset_add_str True (\<lambda>i. 0) True True empty_strset [104, 105] = Some (r, ss')"
    "ss_inv ss'" "r = 0" "unat (strs_data_len ss') = 3"
    "ss_lookup ss' = (ss_lookup empty_strset)([104, 105] \<mapsto> 0)" "strs_data_max_len ss' = 100"
    using strset_add_str_spec [OF empty_strset(1), of "[104, 105]" True "\<lambda>i. 0" True True]
    by (auto simp: empty_strset)
  obtain r' ss'' where f: "strset_find_str True (\<lambda>i. 0) ss' [104, 105] = Some (r', ss'')"
    using strset_find_str_spec [OF a(2), of "[104, 105]" True "\<lambda>i. 0"] by auto
  have "r' = r"
    using strset_find_added [OF empty_strset(1) _ _ a(1) _ f] a(3,4,6) by simp
  with a f show ?thesis by auto
qed

end
