(* ===== verification/Nlattr.thy ===== *)
theory Nlattr
  imports Errno Bpf_Endian
begin

text \<open>
  Netlink attributes, \<open>nlattr.h\<close> and \<open>nlattr.c\<close>: requests are built with \<open>nlattr_add\<close> and answers
  taken apart with \<open>libbpf_nla_parse\<close>. Memory is a list of bytes, a pointer to a structure in it is
  its offset, the fields are at the offsets of the C structures in \<open>uapi/linux/netlink.h\<close>. \<open>int\<close>
  values that stay small are integers; comparisons between \<open>int\<close> and \<open>size_t\<close> are made in \<open>size_t\<close>.
\<close>

section \<open>Structures\<close>

abbreviation (input) nlattr_size :: nat where "nlattr_size \<equiv> 4"

definition NLA_ALIGN :: "int \<Rightarrow> int" where
  "NLA_ALIGN len = (len + 4 - 1) AND NOT (4 - 1)"

definition NLA_HDRLEN :: int where
  "NLA_HDRLEN = NLA_ALIGN (int nlattr_size)"

definition NLMSG_ALIGN :: "u32 \<Rightarrow> u32" where
  "NLMSG_ALIGN len = (len + 4 - 1) AND NOT (4 - 1)"

definition NLA_F_NESTED :: u16 where "NLA_F_NESTED = 0x8000"
definition NLA_TYPE_MASK :: u16 where "NLA_TYPE_MASK = NOT (0x8000 OR 0x4000)"
definition NLMSG_HDRLEN :: int where "NLMSG_HDRLEN = uint (NLMSG_ALIGN 16)"
definition NLM_F_CAPPED :: u16 where "NLM_F_CAPPED = 0x100"
definition NLM_F_ACK_TLVS :: u16 where "NLM_F_ACK_TLVS = 0x200"

definition get_nla_len :: "bytes \<Rightarrow> nat \<Rightarrow> u16 option" where "get_nla_len m nla = ld16 m nla"
definition get_nla_type :: "bytes \<Rightarrow> nat \<Rightarrow> u16 option" where "get_nla_type m nla = ld16 m (nla + 2)"
definition set_nla_len :: "bytes \<Rightarrow> nat \<Rightarrow> u16 \<Rightarrow> bytes option" where
  "set_nla_len m nla w = st16 m nla w"
definition set_nla_type :: "bytes \<Rightarrow> nat \<Rightarrow> u16 \<Rightarrow> bytes option" where
  "set_nla_type m nla w = st16 m (nla + 2) w"
definition get_nlmsg_len :: "bytes \<Rightarrow> nat \<Rightarrow> u32 option" where "get_nlmsg_len m nlh = ld32 m nlh"
definition set_nlmsg_len :: "bytes \<Rightarrow> nat \<Rightarrow> u32 \<Rightarrow> bytes option" where
  "set_nlmsg_len m nlh w = st32 m nlh w"
definition get_nlmsg_flags :: "bytes \<Rightarrow> nat \<Rightarrow> u16 option" where
  "get_nlmsg_flags m nlh = ld16 m (nlh + 6)"

section \<open>Attributes\<close>

text \<open>\<open>uint16_t\<close> types of the validation policy.\<close>

abbreviation (input) LIBBPF_NLA_UNSPEC :: u16 where "LIBBPF_NLA_UNSPEC \<equiv> 0"
abbreviation (input) LIBBPF_NLA_U8 :: u16 where "LIBBPF_NLA_U8 \<equiv> 1"
abbreviation (input) LIBBPF_NLA_U16 :: u16 where "LIBBPF_NLA_U16 \<equiv> 2"
abbreviation (input) LIBBPF_NLA_U32 :: u16 where "LIBBPF_NLA_U32 \<equiv> 3"
abbreviation (input) LIBBPF_NLA_U64 :: u16 where "LIBBPF_NLA_U64 \<equiv> 4"
abbreviation (input) LIBBPF_NLA_STRING :: u16 where "LIBBPF_NLA_STRING \<equiv> 5"
abbreviation (input) LIBBPF_NLA_TYPE_MAX :: u16 where "LIBBPF_NLA_TYPE_MAX \<equiv> 8"

record libbpf_nla_policy =
  pol_type :: u16
  pol_minlen :: u16
  pol_maxlen :: u16

definition libbpf_nla_data :: "nat \<Rightarrow> nat" where
  "libbpf_nla_data nla = nla + nat NLA_HDRLEN"

definition libbpf_nla_len :: "bytes \<Rightarrow> nat \<Rightarrow> int option" where
  "libbpf_nla_len m nla = map_option (\<lambda>l. uint l - NLA_HDRLEN) (get_nla_len m nla)"

definition libbpf_nla_getattr_u8 :: "bytes \<Rightarrow> nat \<Rightarrow> u8 option" where
  "libbpf_nla_getattr_u8 m nla = ld8 m (libbpf_nla_data nla)"

definition libbpf_nla_getattr_u32 :: "bytes \<Rightarrow> nat \<Rightarrow> u32 option" where
  "libbpf_nla_getattr_u32 m nla = ld32 m (libbpf_nla_data nla)"

definition libbpf_nla_getattr_str :: "nat \<Rightarrow> nat" where
  "libbpf_nla_getattr_str nla = libbpf_nla_data nla"

definition nla_attr_minlen :: "u16 list" where
  "nla_attr_minlen = [0, 1, 2, 4, 8, 1, 0, 0, 0]"

definition nla_next :: "bytes \<Rightarrow> nat \<Rightarrow> int \<Rightarrow> (nat \<times> int) option" where
  "nla_next m nla remaining = do {
     len \<leftarrow> get_nla_len m nla;
     let totlen = NLA_ALIGN (uint len);
     let remaining = remaining - totlen;
     Some (nla + nat totlen, remaining)
   }"

definition nla_ok :: "bytes \<Rightarrow> nat \<Rightarrow> int \<Rightarrow> bool option" where
  "nla_ok m nla remaining =
     (if \<not> (of_int remaining :: u64) \<ge> of_nat nlattr_size then Some False
      else do {
        len \<leftarrow> get_nla_len m nla;
        Some ((ucast len :: u64) \<ge> of_nat nlattr_size \<and> uint len \<le> remaining)
      })"

definition nla_type :: "bytes \<Rightarrow> nat \<Rightarrow> nat option" where
  "nla_type m nla = map_option (\<lambda>t. unat (t AND NLA_TYPE_MASK)) (get_nla_type m nla)"

definition validate_nla :: "bytes \<Rightarrow> nat \<Rightarrow> nat \<Rightarrow> libbpf_nla_policy list \<Rightarrow> int option" where
  "validate_nla m nla maxtype policy = do {
     type \<leftarrow> nla_type m nla;
     if type > maxtype then Some 0
     else do {
       pt \<leftarrow> arr_get policy type;
       if pol_type pt > LIBBPF_NLA_TYPE_MAX then Some 0
       else do {
         minlen \<leftarrow> (if pol_minlen pt \<noteq> 0 then Some (ucast (pol_minlen pt) :: u32)
                   else if pol_type pt \<noteq> LIBBPF_NLA_UNSPEC
                        then map_option ucast (arr_get nla_attr_minlen (unat (pol_type pt)))
                   else Some 0);
         len \<leftarrow> libbpf_nla_len m nla;
         if (of_int len :: u32) < minlen then Some (- 1)
         else if pol_maxlen pt \<noteq> 0 \<and> len > uint (pol_maxlen pt) then Some (- 1)
         else if pol_type pt = LIBBPF_NLA_STRING then do {
           c \<leftarrow> ld8 m (nat (int (libbpf_nla_data nla) + len - 1));
           Some (if c \<noteq> 0 then - 1 else 0)
         }
         else Some 0
       }
     }
   }"

section \<open>Parsing\<close>

lemma uint_ucast_16: "uint (ucast (x :: u16) :: u64) = uint x"
  by (simp add: unsigned_ucast_eq take_bit_int_eq_self order_less_le_trans [OF unsigned_less])

lemma and_not_3: "(x :: int) AND NOT 3 = x div 4 * 4"
proof -
  have "x AND NOT (mask 2) = push_bit 2 (drop_bit 2 x)"
  proof (rule bit_eqI)
    fix n
    have "Suc (Suc (n - 2)) = n" if "2 \<le> n" using that by arith
    then show "bit (x AND NOT (mask 2)) n = bit (push_bit 2 (drop_bit 2 x)) n"
      by (cases "2 \<le> n") (simp_all add: bit_simps)
  qed
  moreover have "(mask 2 :: int) = 3" by (simp add: mask_eq_exp_minus_1)
  ultimately show ?thesis by (simp add: push_bit_eq_mult drop_bit_eq_div)
qed

lemma NLA_ALIGN_eq: "NLA_ALIGN len = (len + 3) div 4 * 4"
  using and_not_3 [of "len + 3"] by (simp add: NLA_ALIGN_def add.commute)

lemma NLA_HDRLEN_eq [simp]: "NLA_HDRLEN = 4"
  by (simp add: NLA_HDRLEN_def NLA_ALIGN_eq)

lemma NLA_ALIGN_bounds: "len \<le> NLA_ALIGN len" "NLA_ALIGN len \<le> len + 3"
  by (simp_all add: NLA_ALIGN_eq)

lemma nla_ok_eq:
  assumes "- (2 ^ 31) \<le> rem" "rem < 2 ^ 31"
  shows "nla_ok m nla rem =
    (if 0 \<le> rem \<and> rem < 4 then Some False
     else map_option (\<lambda>len. 4 \<le> uint len \<and> uint len \<le> rem) (get_nla_len m nla))"
proof -
  have "(of_int rem :: u64) \<ge> of_nat nlattr_size \<longleftrightarrow> rem < 0 \<or> 4 \<le> rem"
  proof (cases "0 \<le> rem")
    case True
    then have "uint (of_int rem :: u64) = rem"
      using assms by (simp add: unsigned_of_int take_bit_int_eq_self)
    then show ?thesis using True by (simp add: word_le_def)
  next
    case False
    then have "uint (of_int rem :: u64) = 2 ^ 64 + rem"
    proof -
      have "(rem + 2 ^ 64) mod 2 ^ 64 = rem + 2 ^ 64"
        using False assms by (intro mod_pos_pos_trivial) simp_all
      then have "rem mod 2 ^ 64 = 2 ^ 64 + rem" by simp
      then show ?thesis by (simp add: unsigned_of_int take_bit_eq_mod)
    qed
    then show ?thesis using False assms by (simp add: word_le_def)
  qed
  then show ?thesis
    by (cases "get_nla_len m nla") (auto simp: nla_ok_def word_le_def uint_ucast_16)
qed

lemma nla_ok_True:
  assumes "nla_ok m nla rem = Some True"
  obtains len where "get_nla_len m nla = Some len" "4 \<le> uint len" "uint len \<le> rem"
proof -
  obtain len where "get_nla_len m nla = Some len" "(ucast len :: u64) \<ge> 4" "uint len \<le> rem"
    using assms by (auto simp: nla_ok_def bind_eq_Some_conv split: if_splits)
  moreover from this(2) have "4 \<le> uint len" by (simp add: word_le_def uint_ucast_16)
  ultimately show ?thesis using that by blast
qed

lemma nla_next_smaller:
  assumes "nla_ok m nla rem = Some True" "nla_next m nla rem = Some (nla', rem')"
  shows "rem' < rem" "0 < rem"
proof -
  obtain len where "get_nla_len m nla = Some len" "4 \<le> uint len" "uint len \<le> rem"
    using assms(1) by (rule nla_ok_True)
  moreover from this have "rem' = rem - NLA_ALIGN (uint len)"
    using assms(2) by (simp add: nla_next_def Let_def)
  ultimately show "rem' < rem" "0 < rem" using NLA_ALIGN_bounds(1) [of "uint len"] by linarith+
qed

text \<open>The loop of \<open>libbpf_nla_parse\<close>: the attributes left, and the index filled so far.\<close>

function nla_parse_loop :: "bytes \<Rightarrow> nat \<Rightarrow> libbpf_nla_policy list option \<Rightarrow> nat \<Rightarrow> int \<Rightarrow>
    nat option list \<Rightarrow> (int \<times> nat option list) option" where
  "nla_parse_loop m maxtype policy nla rem tb = do {
     okay \<leftarrow> nla_ok m nla rem;
     if \<not> okay then Some (0, tb)
     else do {
       type \<leftarrow> nla_type m nla;
       if type > maxtype then do {
         (nla, rem) \<leftarrow> nla_next m nla rem;
         nla_parse_loop m maxtype policy nla rem tb
       }
       else do {
         err \<leftarrow> (case policy of None \<Rightarrow> Some 0 | Some policy \<Rightarrow> validate_nla m nla maxtype policy);
         if err < 0 then Some (err, tb)
         else do {
           tb \<leftarrow> arr_set tb type (Some nla);
           (nla, rem) \<leftarrow> nla_next m nla rem;
           nla_parse_loop m maxtype policy nla rem tb
         }
       }
     }
   }"
  by pat_completeness auto

termination
  by (relation "measure (\<lambda>(m, maxtype, policy, nla, rem, tb). nat rem)")
    (use nla_next_smaller in fastforce)+

declare nla_parse_loop.simps [simp del]

definition libbpf_nla_parse :: "bytes \<Rightarrow> nat \<Rightarrow> nat \<Rightarrow> int \<Rightarrow> libbpf_nla_policy list option \<Rightarrow>
    (int \<times> nat option list) option" where
  "libbpf_nla_parse m maxtype head len policy =
     nla_parse_loop m maxtype policy head len (replicate (maxtype + 1) None)"

definition libbpf_nla_parse_nested :: "bytes \<Rightarrow> nat \<Rightarrow> nat \<Rightarrow> libbpf_nla_policy list option \<Rightarrow>
    (int \<times> nat option list) option" where
  "libbpf_nla_parse_nested m maxtype nla policy = do {
     len \<leftarrow> libbpf_nla_len m nla;
     libbpf_nla_parse m maxtype (libbpf_nla_data nla) len policy
   }"

text \<open>
  The error message of the kernel: where \<open>pr_warn\<close> is given it, \<open>None\<close> for \<open>NULL\<close>; the outer
  \<open>None\<close> when nothing is printed about it.
\<close>

definition nlmsg_len :: "bytes \<Rightarrow> nat \<Rightarrow> int option" where
  "nlmsg_len m nlh = map_option (\<lambda>l. sint (l - of_int NLMSG_HDRLEN)) (get_nlmsg_len m nlh)"

definition libbpf_nla_dump_errormsg :: "bytes \<Rightarrow> nat \<Rightarrow> nat option option option" where
  "libbpf_nla_dump_errormsg m nlh = do {
     flags \<leftarrow> get_nlmsg_flags m nlh;
     if flags AND NLM_F_ACK_TLVS = 0 then Some None
     else do {
       let err = nlh + nat NLMSG_HDRLEN;
       let hlen = 20;
       flags \<leftarrow> get_nlmsg_flags m nlh;
       hlen \<leftarrow> (if flags AND NLM_F_CAPPED = 0 then map_option (\<lambda>l. hlen + l) (nlmsg_len m (err + 4))
               else Some hlen);
       let attr = nat (int err + hlen);
       len \<leftarrow> get_nlmsg_len m nlh;
       let alen = sint (len - of_int hlen);
       (r, tb) \<leftarrow> libbpf_nla_parse m 3 attr alen (Some
         [\<lparr>pol_type = LIBBPF_NLA_UNSPEC, pol_minlen = 0, pol_maxlen = 0\<rparr>,
          \<lparr>pol_type = LIBBPF_NLA_STRING, pol_minlen = 0, pol_maxlen = 0\<rparr>,
          \<lparr>pol_type = LIBBPF_NLA_U32, pol_minlen = 0, pol_maxlen = 0\<rparr>,
          \<lparr>pol_type = LIBBPF_NLA_UNSPEC, pol_minlen = 0, pol_maxlen = 0\<rparr>]);
       if r \<noteq> 0 then Some None
       else do {
         msg \<leftarrow> arr_get tb 1;
         Some (Some (map_option libbpf_nla_data msg))
       }
     }
   }"

section \<open>Requests\<close>

text \<open>\<open>struct libbpf_nla_req\<close>: a message header, the larger of two family headers, and the buffer.\<close>

definition libbpf_nla_req_size :: nat where
  "libbpf_nla_req_size = 16 + 20 + 128"

definition req_tail :: "bytes \<Rightarrow> nat option" where
  "req_tail req = map_option (\<lambda>l. unat (NLMSG_ALIGN l)) (get_nlmsg_len req 0)"

text \<open>\<open>data\<close> is \<open>None\<close> for a null pointer, else the \<open>len\<close> bytes it points to.\<close>

definition nlattr_add :: "bytes \<Rightarrow> u16 \<Rightarrow> bytes option \<Rightarrow> int \<Rightarrow> (int \<times> bytes) option" where
  "nlattr_add req type data len = do {
     msg_len \<leftarrow> get_nlmsg_len req 0;
     if unat (NLMSG_ALIGN msg_len + of_int (NLA_ALIGN (NLA_HDRLEN + len))) > libbpf_nla_req_size
     then Some (- EMSGSIZE, req)
     else if (data \<noteq> None) \<noteq> (len \<noteq> 0) then Some (- EINVAL, req)
     else do {
       nla \<leftarrow> req_tail req;
       req \<leftarrow> set_nla_type req nla type;
       req \<leftarrow> set_nla_len req nla (of_int (NLA_HDRLEN + len));
       req \<leftarrow> (case data of None \<Rightarrow> Some req
              | Some d \<Rightarrow> stn req (libbpf_nla_data nla) (take (nat len) d));
       msg_len \<leftarrow> get_nlmsg_len req 0;
       nla_len \<leftarrow> get_nla_len req nla;
       req \<leftarrow> set_nlmsg_len req 0 (NLMSG_ALIGN msg_len + of_int (NLA_ALIGN (uint nla_len)));
       Some (0, req)
     }
   }"

definition nlattr_begin_nested :: "bytes \<Rightarrow> u16 \<Rightarrow> (nat option \<times> bytes) option" where
  "nlattr_begin_nested req type = do {
     tail \<leftarrow> req_tail req;
     (err, req) \<leftarrow> nlattr_add req (type OR NLA_F_NESTED) None 0;
     Some (if err \<noteq> 0 then (None, req) else (Some tail, req))
   }"

definition nlattr_end_nested :: "bytes \<Rightarrow> nat \<Rightarrow> bytes option" where
  "nlattr_end_nested req tail = do {
     t \<leftarrow> req_tail req;
     set_nla_len req tail (of_int (int t - int tail))
   }"
section \<open>Parsing stays inside the buffer\<close>

lemma get_nla_len_in_range: "nla + 2 \<le> length m \<Longrightarrow> \<exists>l. get_nla_len m nla = Some l"
  by (simp add: get_nla_len_def ld16_def ldn_def)

lemma get_nla_type_in_range: "nla + 4 \<le> length m \<Longrightarrow> \<exists>t. get_nla_type m nla = Some t"
  by (simp add: get_nla_type_def ld16_def ldn_def)

lemma validate_nla_defined:
  assumes "get_nla_len m nla = Some len" "4 \<le> uint len" "int nla + uint len \<le> int (length m)"
    "maxtype < length policy"
  shows "\<exists>err. validate_nla m nla maxtype policy = Some err"
proof -
  have "nla + 4 \<le> length m" using assms(2,3) by linarith
  then obtain t where t: "get_nla_type m nla = Some t" using get_nla_type_in_range by blast
  have len: "libbpf_nla_len m nla = Some (uint len - 4)" by (simp add: libbpf_nla_len_def assms(1))
  have "nat (int (libbpf_nla_data nla) + (uint len - 4) - 1) < length m"
    using assms(2,3) by (simp add: libbpf_nla_data_def nat_less_iff)
  then have "\<exists>c. ld8 m (nat (int (libbpf_nla_data nla) + (uint len - 4) - 1)) = Some c"
    by (simp add: ld8_def)
  then obtain c where c: "ld8 m (nat (int (libbpf_nla_data nla) + (uint len - 4) - 1)) = Some c"
    by blast
  let ?type = "unat (t AND NLA_TYPE_MASK)"
  let ?pt = "policy ! ?type"
  have type: "nla_type m nla = Some ?type" by (simp add: nla_type_def t)
  show ?thesis
  proof (cases "?type > maxtype \<or> pol_type ?pt > LIBBPF_NLA_TYPE_MAX")
    case True
    then show ?thesis using type assms(4) by (auto simp: validate_nla_def)
  next
    case False
    then have pt: "arr_get policy ?type = Some ?pt" "unat (pol_type ?pt) < length nla_attr_minlen"
      using assms(4) by (simp_all add: nla_attr_minlen_def word_less_nat_alt)
    then have "\<exists>minlen. (if pol_minlen ?pt \<noteq> 0 then Some (ucast (pol_minlen ?pt) :: u32)
        else if pol_type ?pt \<noteq> LIBBPF_NLA_UNSPEC
             then map_option ucast (arr_get nla_attr_minlen (unat (pol_type ?pt)))
        else Some 0) = Some minlen" by simp
    then obtain minlen where min: "(if pol_minlen ?pt \<noteq> 0 then Some (ucast (pol_minlen ?pt) :: u32)
        else if pol_type ?pt \<noteq> LIBBPF_NLA_UNSPEC
             then map_option ucast (arr_get nla_attr_minlen (unat (pol_type ?pt)))
        else Some 0) = Some minlen" by blast
    show ?thesis
      unfolding validate_nla_def type len bind.simps
      using False by (simp add: pt(1) min c [simplified])
  qed
qed

lemma nla_parse_loop_defined:
  assumes "int nla + rem + 5 \<le> int (length m)" "- 3 \<le> rem" "rem < 2 ^ 31"
    "length tb = maxtype + 1" "case policy of None \<Rightarrow> True | Some pol \<Rightarrow> maxtype < length pol"
  shows "\<exists>err tb'. nla_parse_loop m maxtype policy nla rem tb = Some (err, tb') \<and> length tb' = maxtype + 1"
  using assms
proof (induction m maxtype policy nla rem tb rule: nla_parse_loop.induct)
  case (1 m maxtype policy nla rem tb)
  have "nla + 2 \<le> length m" using "1.prems"(1,2) by linarith
  then obtain len where len: "get_nla_len m nla = Some len" using get_nla_len_in_range by blast
  have ok: "nla_ok m nla rem = Some (\<not> (0 \<le> rem \<and> rem < 4) \<and> 4 \<le> uint len \<and> uint len \<le> rem)"
    using "1.prems"(2,3) len by (simp add: nla_ok_eq)
  show ?case
  proof (cases "4 \<le> uint len \<and> uint len \<le> rem")
    case False
    with ok "1.prems"(4) show ?thesis by (simp add: nla_parse_loop.simps)
  next
    case True
    then have okT: "nla_ok m nla rem = Some True" using ok by simp
    have "nla + 4 \<le> length m" using True "1.prems"(1) by linarith
    then obtain t where t: "get_nla_type m nla = Some t" using get_nla_type_in_range by blast
    then have type: "nla_type m nla = Some (unat (t AND NLA_TYPE_MASK))" by (simp add: nla_type_def)
    let ?tot = "NLA_ALIGN (uint len)"
    have nxt: "nla_next m nla rem = Some (nla + nat ?tot, rem - ?tot)"
      by (simp add: nla_next_def len Let_def)
    have tot: "uint len \<le> ?tot" "?tot \<le> uint len + 3" by (rule NLA_ALIGN_bounds)+
    have inv: "int (nla + nat ?tot) + (rem - ?tot) + 5 \<le> int (length m)" "- 3 \<le> rem - ?tot" "rem - ?tot < 2 ^ 31"
      using "1.prems"(1,3) True tot by simp_all
    show ?thesis
    proof (cases "unat (t AND NLA_TYPE_MASK) > maxtype")
      case big: True
      show ?thesis
        using "1.IH"(1) [OF okT _ type big nxt refl inv "1.prems"(4,5)] okT type big nxt
        by (simp add: nla_parse_loop.simps [of m maxtype policy nla rem tb])
    next
      case small: False
      have fits: "int nla + uint len \<le> int (length m)" using True "1.prems"(1) by linarith
      obtain err where err: "(case policy of None \<Rightarrow> Some 0 | Some policy \<Rightarrow> validate_nla m nla maxtype policy) = Some err"
        using "1.prems"(5) validate_nla_defined [OF len _ fits] True by (cases policy) auto
      show ?thesis
      proof (cases "err < 0")
        case True
        then show ?thesis
          using okT type small err "1.prems"(4)
          by (simp add: nla_parse_loop.simps [of m maxtype policy nla rem tb])
      next
        case False
        let ?tb = "tb[unat (t AND NLA_TYPE_MASK) := Some nla]"
        have set: "arr_set tb (unat (t AND NLA_TYPE_MASK)) (Some nla) = Some ?tb"
          using small "1.prems"(4) by simp
        have "length ?tb = maxtype + 1" using "1.prems"(4) by simp
        from "1.IH"(2) [OF okT _ type small err False set nxt refl inv this "1.prems"(5)]
        show ?thesis
          using okT type small err False set nxt
          by (simp add: nla_parse_loop.simps [of m maxtype policy nla rem tb])
      qed
    qed
  qed
qed

text \<open>
  C21. Taking apart a stream of attributes ends for every content, and stays inside a buffer that
  has at least five bytes behind the stream.
\<close>

theorem nla_parse_in_bounds:
  assumes "head + nat len + 5 \<le> length m" "0 \<le> len" "len < 2 ^ 31"
    "case policy of None \<Rightarrow> True | Some pol \<Rightarrow> maxtype < length pol"
  shows "\<exists>err tb. libbpf_nla_parse m maxtype head len policy = Some (err, tb) \<and> length tb = maxtype + 1"
  unfolding libbpf_nla_parse_def by (rule nla_parse_loop_defined) (use assms in simp_all)

theorem nla_parse_in_bounds_witness:
  "\<exists>err tb. libbpf_nla_parse (replicate 20 1) 3 2 10 None = Some (err, tb) \<and> length tb = 4"
  using nla_parse_in_bounds [where head = 2 and len = 10 and m = "replicate 20 1" and maxtype = 3 and policy = None] by simp

text \<open>
  C22. Without these bytes it does not: a stream at the end of the buffer whose last attribute has
  a length that is not a multiple of four makes the loop look for the next attribute behind the
  buffer, because the negative number of bytes left is compared as an unsigned number.
\<close>

theorem nla_parse_overrun:
  assumes "get_nla_len m nla = Some len" "4 \<le> uint len" "uint len mod 4 \<noteq> 0"
    "int (length m) = int nla + uint len"
  shows "libbpf_nla_parse m maxtype nla (uint len) None = None"
proof -
  have small: "uint len < 2 ^ 16" using uint_lt2p [of len] by simp
  have ok: "nla_ok m nla (uint len) = Some True"
    using assms(1,2) small by (simp add: nla_ok_eq)
  let ?tot = "NLA_ALIGN (uint len)"
  have nxt: "nla_next m nla (uint len) = Some (nla + nat ?tot, uint len - ?tot)"
    by (simp add: nla_next_def assms(1) Let_def)
  have gt: "uint len < ?tot" using assms(3) by (simp add: NLA_ALIGN_eq) presburger
  have "get_nla_len m (nla + nat ?tot) = None"
    using gt assms(2,4) by (simp add: get_nla_len_def ld16_def ldn_def)
  moreover have "\<not> (0 \<le> uint len - ?tot \<and> uint len - ?tot < 4)" using gt by simp
  ultimately have "nla_ok m (nla + nat ?tot) (uint len - ?tot) = None"
    using small gt NLA_ALIGN_bounds [of "uint len"] by (simp add: nla_ok_eq)
  then have stuck: "nla_parse_loop m maxtype None (nla + nat ?tot) (uint len - ?tot) tb = None" for tb
    by (simp add: nla_parse_loop.simps)
  show ?thesis
    unfolding libbpf_nla_parse_def
    by (subst nla_parse_loop.simps) (simp add: ok nxt stuck split: option.splits bind_splits)
qed

theorem nla_parse_overrun_witness:
  "libbpf_nla_parse [5, 0, 1, 0, 7] 3 0 (uint (5 :: u16)) None = None"
  by (rule nla_parse_overrun) (simp_all add: get_nla_len_def ld16_def ldn_def)
section \<open>Building a request and taking it apart\<close>

definition pad4 :: "nat \<Rightarrow> nat" where
  "pad4 n = (n + 3) div 4 * 4"

lemma NLA_ALIGN_pad4: "NLA_ALIGN (int n) = int (pad4 n)"
  by (simp add: NLA_ALIGN_eq pad4_def zdiv_int)

lemma le_pad4: "n \<le> pad4 n" "pad4 n \<le> n + 3"
  by (simp_all add: pad4_def)

lemma pad4_aligned: "n mod 4 = 0 \<Longrightarrow> pad4 n = n"
  by (simp add: pad4_def) presburger

lemma pad4_mod [simp]: "pad4 n mod 4 = 0"
  by (simp add: pad4_def)

lemma NLMSG_ALIGN_pad4:
  assumes "unat l < 2 ^ 31"
  shows "unat (NLMSG_ALIGN l) = pad4 (unat l)"
proof -
  have l3: "unat (l + 3) = unat l + 3" using assms by (simp add: unat_word_ariths)
  have "(l + 3) AND NOT (mask 2) = push_bit 2 (drop_bit 2 (l + 3))"
  proof (rule bit_word_eqI)
    fix n assume "n < LENGTH(32)"
    moreover have "Suc (Suc (n - 2)) = n" if "2 \<le> n" using that by arith
    ultimately show "bit ((l + 3) AND NOT (mask 2)) n = bit (push_bit 2 (drop_bit 2 (l + 3))) n"
      by (cases "2 \<le> n") (simp_all add: bit_simps)
  qed
  moreover have "(mask 2 :: u32) = 3" by (simp add: mask_eq_exp_minus_1)
  ultimately have "NLMSG_ALIGN l = push_bit 2 (drop_bit 2 (l + 3))"
    by (simp add: NLMSG_ALIGN_def add.commute)
  then have "unat (NLMSG_ALIGN l) = take_bit 32 (push_bit 2 (drop_bit 2 (unat l + 3)))"
    by (simp only: unsigned_push_bit_eq unat_drop_bit_eq l3) simp
  also have "\<dots> = pad4 (unat l)"
    using assms by (simp add: push_bit_eq_mult drop_bit_eq_div pad4_def take_bit_nat_eq_self)
  finally show ?thesis .
qed

lemma ld16_st16_same [mem_simps]:
  "i + 2 \<le> length m \<Longrightarrow> ld16 (overwrite i (le_bytes 2 (unat w)) m) i = Some w"
  by (simp add: ld16_def mem_simps of_nat_le_val_le_bytes)

lemma ld16_overwrite_other [mem_simps]:
  "i + length bs \<le> length m \<Longrightarrow> j + 2 \<le> i \<or> i + length bs \<le> j \<Longrightarrow> ld16 (overwrite i bs m) j = ld16 m j"
  by (simp add: ld16_def mem_simps)

lemma ld32_st32_same [mem_simps]:
  "i + 4 \<le> length m \<Longrightarrow> ld32 (overwrite i (le_bytes 4 (unat w)) m) i = Some w"
  by (simp add: ld32_def mem_simps of_nat_le_val_le_bytes)

lemma ld32_overwrite_other [mem_simps]:
  "i + length bs \<le> length m \<Longrightarrow> j + 4 \<le> i \<or> i + length bs \<le> j \<Longrightarrow> ld32 (overwrite i bs m) j = ld32 m j"
  by (simp add: ld32_def mem_simps)

text \<open>Attributes laid out in memory one behind the other, each at a multiple of four.\<close>

definition attr_at :: "bytes \<Rightarrow> nat \<Rightarrow> u16 \<Rightarrow> bytes \<Rightarrow> bool" where
  "attr_at m off type data \<longleftrightarrow> length data < 65000 \<and>
     get_nla_len m off = Some (of_nat (4 + length data)) \<and> get_nla_type m off = Some type \<and>
     ldn m (off + 4) (length data) = Some data"

fun attrs_at :: "bytes \<Rightarrow> nat \<Rightarrow> (u16 \<times> bytes) list \<Rightarrow> nat \<Rightarrow> bool" where
  "attrs_at m off [] e \<longleftrightarrow> off = e"
| "attrs_at m off ((type, data) # as) e \<longleftrightarrow>
     attr_at m off type data \<and> attrs_at m (off + pad4 (4 + length data)) as e"

lemma attrs_at_le: "attrs_at m off as e \<Longrightarrow> off \<le> e"
  by (induction m off as e rule: attrs_at.induct) (auto intro: add_leD1)

lemma attrs_at_append:
  "attrs_at m off (as @ bs) e \<longleftrightarrow> (\<exists>mid. attrs_at m off as mid \<and> attrs_at m mid bs e)"
  by (induction m off as e rule: attrs_at.induct) auto

lemma attr_at_frame:
  assumes "attr_at m off type data" "off + 4 + length data \<le> e"
    "\<And>j n. off \<le> j \<Longrightarrow> j + n \<le> e \<Longrightarrow> ldn m' j n = ldn m j n"
  shows "attr_at m' off type data"
  using assms(1,2) assms(3) [of off 2] assms(3) [of "off + 2" 2] assms(3) [of "off + 4" "length data"]
  by (simp add: attr_at_def get_nla_len_def get_nla_type_def ld16_def)

lemma attrs_at_frame:
  "attrs_at m off as e \<Longrightarrow> (\<And>j n. off \<le> j \<Longrightarrow> j + n \<le> e \<Longrightarrow> ldn m' j n = ldn m j n) \<Longrightarrow>
    attrs_at m' off as e"
proof (induction as arbitrary: off)
  case (Cons a as)
  obtain type data where a: "a = (type, data)" by (cases a)
  have here: "attr_at m off type data" and rest: "attrs_at m (off + pad4 (4 + length data)) as e"
    using Cons.prems(1) a by simp_all
  have "off + 4 + length data \<le> e"
    using attrs_at_le [OF rest] le_pad4(1) [of "4 + length data"] by linarith
  then have "attr_at m' off type data" by (rule attr_at_frame [OF here]) (rule Cons.prems(2))
  moreover have "attrs_at m' (off + pad4 (4 + length data)) as e"
    by (rule Cons.IH [OF rest]) (rule Cons.prems(2), simp_all)
  ultimately show ?case using a by simp
qed simp

text \<open>The loop over such a stream: the last attribute of each type is the one in the index.\<close>

definition type_of :: "u16 \<Rightarrow> nat" where
  "type_of t = unat (t AND NLA_TYPE_MASK)"

definition indexed :: "bytes \<Rightarrow> nat option list \<Rightarrow> nat \<Rightarrow> bytes \<Rightarrow> bool" where
  "indexed m tb type data \<longleftrightarrow> (\<exists>nla. tb ! type = Some nla \<and>
     libbpf_nla_len m nla = Some (int (length data)) \<and>
     ldn m (libbpf_nla_data nla) (length data) = Some data)"

fun last_attr :: "(u16 \<times> bytes) list \<Rightarrow> nat \<Rightarrow> bytes option" where
  "last_attr [] type = None"
| "last_attr ((t, data) # as) type =
     (case last_attr as type of
        Some d \<Rightarrow> Some d
      | None \<Rightarrow> if type_of t = type then Some data else None)"

lemma uint_of_nat_u16: "n < 2 ^ 16 \<Longrightarrow> uint (of_nat n :: u16) = int n"
  unfolding unsigned_of_nat by (simp add: take_bit_nat_eq_self)

lemma attr_at_step:
  assumes "attr_at m off t data" "rem < 2 ^ 31" "4 + int (length data) \<le> rem"
  shows "nla_ok m off rem = Some True" "nla_type m off = Some (type_of t)"
    "nla_next m off rem = Some (off + pad4 (4 + length data), rem - int (pad4 (4 + length data)))"
    "libbpf_nla_len m off = Some (int (length data))"
proof -
  obtain len where len: "get_nla_len m off = Some len" and "len = of_nat (4 + length data)"
    using assms(1) by (simp add: attr_at_def)
  moreover have "length data < 65000" using assms(1) by (simp add: attr_at_def)
  ultimately have u: "uint len = int (4 + length data)"
    by (simp only:) (rule uint_of_nat_u16, simp)
  show "nla_ok m off rem = Some True"
    using assms(2,3) len u by (simp add: nla_ok_eq)
  show "nla_type m off = Some (type_of t)"
    using assms(1) by (simp add: attr_at_def nla_type_def type_of_def)
  show "nla_next m off rem = Some (off + pad4 (4 + length data), rem - int (pad4 (4 + length data)))"
    using NLA_ALIGN_pad4 [of "4 + length data"] by (simp add: nla_next_def len u Let_def)
  show "libbpf_nla_len m off = Some (int (length data))"
    by (simp add: libbpf_nla_len_def len u)
qed

lemma attr_at_indexed:
  assumes "attr_at m off t data" "tb ! type = Some off"
  shows "indexed m tb type data"
proof -
  have "ldn m (off + 4) (length data) = Some data" using assms(1) by (simp add: attr_at_def)
  moreover have "libbpf_nla_len m off = Some (int (length data))"
    using attr_at_step(4) [OF assms(1), of "4 + int (length data)"] assms(1) by (simp add: attr_at_def)
  ultimately show ?thesis using assms(2) by (simp add: indexed_def libbpf_nla_data_def)
qed

lemma parse_attrs:
  assumes "attrs_at m off as e" "int e < 2 ^ 31" "length tb = maxtype + 1"
  shows "\<exists>tb'. nla_parse_loop m maxtype None off (int e - int off) tb = Some (0, tb') \<and>
    length tb' = maxtype + 1 \<and> (\<forall>type \<le> maxtype.
      case last_attr as type of Some d \<Rightarrow> indexed m tb' type d | None \<Rightarrow> tb' ! type = tb ! type)"
  using assms(1,3)
proof (induction as arbitrary: off tb)
  case Nil
  then show ?case by (simp add: nla_parse_loop.simps nla_ok_def)
next
  case (Cons a as)
  obtain t data where a: "a = (t, data)" by (cases a)
  let ?pad = "pad4 (4 + length data)"
  have here: "attr_at m off t data" and rest: "attrs_at m (off + ?pad) as e"
    using Cons.prems(1) a by simp_all
  have "off + ?pad \<le> e" by (rule attrs_at_le [OF rest])
  then have step: "int e - int off < 2 ^ 31" "4 + int (length data) \<le> int e - int off"
    using assms(2) le_pad4(1) [of "4 + length data"] by linarith+
  note parts = attr_at_step(1-3) [OF here step]
  define tb1 where "tb1 = (if type_of t \<le> maxtype then tb[type_of t := Some off] else tb)"
  have len: "length tb1 = maxtype + 1" using Cons.prems(2) by (simp add: tb1_def)
  have "nla_parse_loop m maxtype None off (int e - int off) tb =
      nla_parse_loop m maxtype None (off + ?pad) (int e - int (off + ?pad)) tb1"
    using Cons.prems(2) parts
    by (subst nla_parse_loop.simps) (auto simp: tb1_def algebra_simps not_less)
  moreover obtain tb' where tb': "nla_parse_loop m maxtype None (off + ?pad) (int e - int (off + ?pad)) tb1 = Some (0, tb')"
      "length tb' = maxtype + 1"
    and idx: "\<And>type. type \<le> maxtype \<Longrightarrow>
      case last_attr as type of Some d \<Rightarrow> indexed m tb' type d | None \<Rightarrow> tb' ! type = tb1 ! type"
    using Cons.IH [OF rest len] by blast
  moreover have "case last_attr (a # as) type of Some d \<Rightarrow> indexed m tb' type d | None \<Rightarrow> tb' ! type = tb ! type"
    if "type \<le> maxtype" for type
  proof (cases "last_attr as type")
    case None
    then have "tb' ! type = tb1 ! type" using idx [OF that] by simp
    then show ?thesis
      using None that Cons.prems(2) attr_at_indexed [OF here, of tb' type] by (auto simp: a tb1_def)
  next
    case (Some d)
    then show ?thesis using idx [OF that] by (simp add: a)
  qed
  ultimately show ?case by auto
qed
text \<open>Adding one attribute to a request.\<close>

definition data_arg :: "bytes \<Rightarrow> bytes option" where
  "data_arg data = (if data = [] then None else Some data)"

lemma nlattr_add_fits:
  assumes "length req = 164" "get_nlmsg_len req 0 = Some l" "16 \<le> unat l" "unat l < 2 ^ 20"
    "pad4 (unat l) + pad4 (4 + length data) \<le> 164"
  obtains req' where "nlattr_add req type (data_arg data) (int (length data)) = Some (0, req')"
    "length req' = 164" "get_nlmsg_len req' 0 = Some (of_nat (pad4 (unat l) + pad4 (4 + length data)))"
    "attr_at req' (pad4 (unat l)) type data"
    "\<And>j n. 4 \<le> j \<Longrightarrow> j + n \<le> pad4 (unat l) \<Longrightarrow> ldn req' j n = ldn req j n"
proof -
  define off tot where "off = pad4 (unat l)" and "tot = pad4 (4 + length data)"
  have al: "unat (NLMSG_ALIGN l) = off" using assms(4) unfolding off_def by (intro NLMSG_ALIGN_pad4) simp
  have alw: "NLMSG_ALIGN l = of_nat off" unfolding al [symmetric] by simp
  have b: "16 \<le> off" "4 + length data \<le> tot" "off + 4 + length data \<le> 164" "off + tot \<le> 164"
    using assms(3,5) le_pad4(1) [of "unat l"] le_pad4(1) [of "4 + length data"]
    unfolding off_def tot_def by linarith+
  have nla: "NLA_ALIGN (4 + int (length data)) = int tot"
    using NLA_ALIGN_pad4 [of "4 + length data"] by (simp add: tot_def)
  have sum: "unat (of_nat off + of_nat tot :: u32) = off + tot"
    unfolding of_nat_add [symmetric] unat_of_nat using b by simp
  define len :: u16 where "len = of_nat (4 + length data)"
  have ulen: "uint len = int (4 + length data)"
    unfolding len_def by (rule uint_of_nat_u16) (use b in simp)
  have wlen: "word_of_int (4 + int (length data)) = len" by (simp add: len_def)
  define r1 where "r1 = overwrite (off + 2) (le_bytes 2 (unat type)) req"
  define r2 where "r2 = overwrite off (le_bytes 2 (unat len)) r1"
  define r3 where "r3 = (if data = [] then r2 else overwrite (off + 4) data r2)"
  define r4 where "r4 = overwrite 0 (le_bytes 4 (unat (of_nat off + of_nat tot :: u32))) r3"
  have l1: "length r1 = 164" using assms(1) b by (simp add: r1_def length_overwrite)
  have l2: "length r2 = 164" using l1 b by (simp add: r2_def length_overwrite)
  have l3: "length r3 = 164" using l2 b by (simp add: r3_def length_overwrite)
  have l4: "length r4 = 164" using l3 b by (simp add: r4_def length_overwrite)
  have keep: "ldn r3 j n = ldn req j n" if "j + n \<le> off" for j n
    using that b l1 l2 assms(1) by (simp add: r1_def r2_def r3_def ldn_overwrite_other)
  have keep4: "ldn r4 j n = ldn r3 j n" if "4 \<le> j" for j n
    using that l3 by (simp add: r4_def ldn_overwrite_other)
  have len2: "ld16 r2 off = Some len" using l1 b by (simp add: r2_def ld16_st16_same)
  have type2: "ld16 r2 (off + 2) = Some type"
    using l1 b assms(1) by (simp add: r2_def ld16_overwrite_other) (simp add: r1_def ld16_st16_same)
  have hd3: "ldn r3 off 2 = ldn r2 off 2" "ldn r3 (off + 2) 2 = ldn r2 (off + 2) 2"
    using l2 b by (simp_all add: r3_def ldn_overwrite_other)
  have dat: "ldn r3 (off + 4) (length data) = Some data"
    using l2 b by (simp add: r3_def ldn_overwrite_same) (simp add: ldn_def)
  have g1: "get_nlmsg_len r3 0 = Some l"
    using assms(2) keep [of 0 4] b by (simp add: get_nlmsg_len_def ld32_def)
  have g2: "get_nla_len r3 off = Some len"
    using len2 hd3 by (simp add: get_nla_len_def ld16_def)
  have s1: "set_nla_type req off type = Some r1"
    using assms(1) b by (simp add: set_nla_type_def st16_def stn_overwrite r1_def)
  have s2: "set_nla_len r1 off len = Some r2"
    using l1 b by (simp add: set_nla_len_def st16_def stn_overwrite r2_def)
  have s3: "(case data_arg data of None \<Rightarrow> Some r2
      | Some d \<Rightarrow> stn r2 (libbpf_nla_data off) (take (nat (int (length data))) d)) = Some r3"
    using l2 b by (simp add: data_arg_def r3_def libbpf_nla_data_def stn_overwrite)
  have s4: "set_nlmsg_len r3 0 (of_nat off + of_nat tot) = Some r4"
    using l3 by (simp add: set_nlmsg_len_def st32_def stn_overwrite r4_def)
  have tail: "req_tail req = Some off" by (simp add: req_tail_def assms(2) al)
  have arg: "(data_arg data \<noteq> None) = (int (length data) \<noteq> 0)" by (simp add: data_arg_def)
  have nla2: "NLA_ALIGN (uint len) = int tot" using nla ulen by simp
  have "nlattr_add req type (data_arg data) (int (length data)) = Some (0, r4)"
    unfolding nlattr_add_def
    using b by (simp only: assms(2) bind.simps nla alw of_int_of_nat_eq sum libbpf_nla_req_size_def arg
        tail s1 s3 s4 g1 g2 nla2 NLA_HDRLEN_eq wlen s2) simp
  moreover note l4
  moreover have "get_nlmsg_len r4 0 = Some (of_nat (off + tot))"
    using l3 by (simp add: r4_def get_nlmsg_len_def ld32_st32_same)
  moreover have "attr_at r4 off type data"
    using b g2 type2 hd3 dat keep4 [of off 2] keep4 [of "off + 2" 2] keep4 [of "off + 4"]
    by (simp add: attr_at_def len_def get_nla_len_def get_nla_type_def ld16_def)
  moreover have "ldn r4 j n = ldn req j n" if "4 \<le> j" "j + n \<le> off" for j n
    using that keep4 [of j n] keep [of j n] by simp
  ultimately show ?thesis using that unfolding off_def tot_def by blast
qed

text \<open>Adding a list of attributes, until one does not fit.\<close>

fun add_all :: "bytes \<Rightarrow> (u16 \<times> bytes) list \<Rightarrow> (int \<times> bytes) option" where
  "add_all req [] = Some (0, req)"
| "add_all req ((type, data) # as) = do {
     (err, req) \<leftarrow> nlattr_add req type (data_arg data) (int (length data));
     if err \<noteq> 0 then Some (err, req) else add_all req as
   }"

fun end_after :: "nat \<Rightarrow> (u16 \<times> bytes) list \<Rightarrow> nat" where
  "end_after off [] = off"
| "end_after off ((type, data) # as) = end_after (pad4 off + pad4 (4 + length data)) as"

lemma end_after_ge: "off \<le> end_after off as"
proof (induction off as rule: end_after.induct)
  case (2 off type data as)
  then show ?case using le_pad4(1) [of off] by (simp add: add_leD1)
qed simp

lemma add_all_fits:
  assumes "length req = 164" "get_nlmsg_len req 0 = Some l" "16 \<le> unat l" "end_after (unat l) as \<le> 164"
  shows "\<exists>req'. add_all req as = Some (0, req') \<and> length req' = 164 \<and>
    get_nlmsg_len req' 0 = Some (of_nat (end_after (unat l) as)) \<and>
    (as \<noteq> [] \<longrightarrow> attrs_at req' (pad4 (unat l)) as (end_after (unat l) as)) \<and>
    (\<forall>j n. 4 \<le> j \<longrightarrow> j + n \<le> pad4 (unat l) \<longrightarrow> ldn req' j n = ldn req j n)"
  using assms
proof (induction as arbitrary: req l)
  case Nil
  then show ?case by simp
next
  case (Cons a as)
  obtain type data where a: "a = (type, data)" by (cases a)
  define nxt where "nxt = pad4 (unat l) + pad4 (4 + length data)"
  have "nxt \<le> end_after nxt as" by (rule end_after_ge)
  moreover have "end_after (unat l) (a # as) = end_after nxt as" by (simp add: a nxt_def)
  ultimately have le: "nxt \<le> 164" "end_after nxt as \<le> 164" using Cons.prems(4) by simp_all
  have "unat l \<le> nxt" using le_pad4(1) [of "unat l"] unfolding nxt_def by linarith
  then have small: "unat l < 2 ^ 20" using le by simp
  obtain req1 where r1: "nlattr_add req type (data_arg data) (int (length data)) = Some (0, req1)"
    "length req1 = 164" "get_nlmsg_len req1 0 = Some (of_nat nxt)" "attr_at req1 (pad4 (unat l)) type data"
    and keep: "\<And>j n. 4 \<le> j \<Longrightarrow> j + n \<le> pad4 (unat l) \<Longrightarrow> ldn req1 j n = ldn req j n"
    using nlattr_add_fits [OF Cons.prems(1-3) small le(1) [unfolded nxt_def]] unfolding nxt_def by metis
  have u: "unat (of_nat nxt :: u32) = nxt" using le by (simp add: unat_of_nat)
  have al: "pad4 nxt = nxt" unfolding nxt_def by (rule pad4_aligned) (simp add: mod_add_eq [symmetric])
  have "16 \<le> nxt" using \<open>unat l \<le> nxt\<close> Cons.prems(3) by simp
  then obtain req' where r: "add_all req1 as = Some (0, req')" "length req' = 164"
    "get_nlmsg_len req' 0 = Some (of_nat (end_after nxt as))"
    "as \<noteq> [] \<Longrightarrow> attrs_at req' nxt as (end_after nxt as)"
    and keep': "\<And>j n. 4 \<le> j \<Longrightarrow> j + n \<le> nxt \<Longrightarrow> ldn req' j n = ldn req1 j n"
    using Cons.IH [OF r1(2,3)] le(2) unfolding u al by blast
  have lo: "16 \<le> pad4 (unat l)" using Cons.prems(3) le_pad4(1) [of "unat l"] by simp
  have "attr_at req' (pad4 (unat l)) type data"
  proof (rule attr_at_frame [OF r1(4)])
    show "pad4 (unat l) + 4 + length data \<le> nxt"
      using le_pad4(1) [of "4 + length data"] unfolding nxt_def by linarith
    show "ldn req' j n = ldn req1 j n" if "pad4 (unat l) \<le> j" "j + n \<le> nxt" for j n
      using keep' that lo by simp
  qed
  moreover have "attrs_at req' nxt as (end_after nxt as)" using r(4) by (cases as) simp_all
  ultimately have "attrs_at req' (pad4 (unat l)) (a # as) (end_after nxt as)"
    by (simp add: a nxt_def)
  moreover have "ldn req' j n = ldn req j n" if "4 \<le> j" "j + n \<le> pad4 (unat l)" for j n
    using keep [OF that] keep' [OF that(1)] that(2) unfolding nxt_def by simp
  ultimately show ?case
    using r1(1) r(1-3) by (simp add: a nxt_def)
qed

text \<open>
  C20. Attributes added to a request come back when it is taken apart: as long as they fit into the
  request, adding them succeeds, and parsing the part behind the old end finds for each type
  the data that was added last under it, and nothing for the types that were not added.
\<close>

theorem nlattr_roundtrip:
  assumes "length req = libbpf_nla_req_size" "get_nlmsg_len req 0 = Some l" "16 \<le> unat l"
    "unat l mod 4 = 0" "end_after (unat l) as \<le> libbpf_nla_req_size"
  shows "\<exists>req' l' tb. add_all req as = Some (0, req') \<and> get_nlmsg_len req' 0 = Some l' \<and>
    libbpf_nla_parse req' maxtype (unat l) (uint l' - uint l) None = Some (0, tb) \<and>
    (\<forall>type \<le> maxtype. case last_attr as type of
       Some d \<Rightarrow> indexed req' tb type d | None \<Rightarrow> tb ! type = None)"
proof -
  let ?e = "end_after (unat l) as"
  have al: "pad4 (unat l) = unat l" by (rule pad4_aligned [OF assms(4)])
  have le: "?e \<le> 164" using assms(5) by (simp add: libbpf_nla_req_size_def)
  obtain req' where r: "add_all req as = Some (0, req')"
    "get_nlmsg_len req' 0 = Some (of_nat ?e)" "as \<noteq> [] \<Longrightarrow> attrs_at req' (unat l) as ?e"
    using add_all_fits [OF _ assms(2,3) le] assms(1) unfolding al libbpf_nla_req_size_def by auto
  have "attrs_at req' (unat l) as ?e" using r(3) by (cases as) simp_all
  from parse_attrs [OF this, of "replicate (maxtype + 1) None" maxtype] le
  obtain tb where tb: "nla_parse_loop req' maxtype None (unat l) (int ?e - int (unat l))
      (replicate (maxtype + 1) None) = Some (0, tb)"
    and idx: "\<And>type. type \<le> maxtype \<Longrightarrow> case last_attr as type of Some d \<Rightarrow> indexed req' tb type d
      | None \<Rightarrow> tb ! type = replicate (maxtype + 1) None ! type"
    by auto
  have "uint (of_nat ?e :: u32) = int ?e" using le by (simp add: unsigned_of_nat take_bit_nat_eq_self)
  then have "libbpf_nla_parse req' maxtype (unat l) (uint (of_nat ?e :: u32) - uint l) None = Some (0, tb)"
    using tb by (simp add: libbpf_nla_parse_def)
  moreover have "case last_attr as type of Some d \<Rightarrow> indexed req' tb type d | None \<Rightarrow> tb ! type = None"
    if "type \<le> maxtype" for type
    using idx [OF that] that by (auto simp: nth_append nth_Cons' split: option.splits simp del: replicate_Suc)
  ultimately show ?thesis using r(1,2) by blast
qed

theorem nlattr_roundtrip_witness:
  "\<exists>req' l' tb. add_all (20 # replicate 163 0) [(1, [7, 8, 9]), (2, []), (1, [5])] = Some (0, req') \<and>
    get_nlmsg_len req' 0 = Some l' \<and>
    libbpf_nla_parse req' 3 (unat (20 :: u32)) (uint l' - uint (20 :: u32)) None = Some (0, tb) \<and>
    (\<forall>type \<le> 3. case last_attr [(1, [7, 8, 9]), (2, []), (1, [5])] type of
       Some d \<Rightarrow> indexed req' tb type d | None \<Rightarrow> tb ! type = None)"
  by (rule nlattr_roundtrip) code_simp+
section \<open>The error message of the kernel\<close>

text \<open>
  \<open>alen\<close> counts the sixteen bytes of the message header, which lie before the attributes: at the end
  of a well-formed message (here one with the attribute \<open>''no''\<close>) the loop goes on behind it.
\<close>

definition errormsg_example :: bytes where
  "errormsg_example = [44, 0, 0, 0, 2, 0, 0, 3, 0, 0, 0, 0, 0, 0, 0, 0] @ replicate 20 0 @
     [7, 0, 1, 0, 110, 111, 0, 0]"
lemma parse_one_then_stuck:
  assumes "nla_ok m 36 24 = Some True" "nla_type m 36 = Some 1" "nla_next m 36 24 = Some (44, 16)"
    "validate_nla m 36 3 pol = Some 0" "nla_ok m 44 16 = None"
  shows "libbpf_nla_parse m 3 36 24 (Some pol) = None"
  unfolding libbpf_nla_parse_def
  using assms by (simp add: nla_parse_loop.simps [of _ _ _ 36] nla_parse_loop.simps [of _ _ _ 44])

lemma errormsg_example_reads_on:
  "get_nlmsg_len errormsg_example 0 = Some (of_nat (length errormsg_example))"
  "attrs_at errormsg_example 36 [(1, [110, 111, 0])] (length errormsg_example)"
  "libbpf_nla_dump_errormsg errormsg_example 0 = None"
proof -
  show "get_nlmsg_len errormsg_example 0 = Some (of_nat (length errormsg_example))" by code_simp
  have "get_nla_len errormsg_example 36 = Some 7" "get_nla_type errormsg_example 36 = Some 1"
    "ldn errormsg_example 40 3 = Some [110, 111, 0]" "length errormsg_example = 44" by code_simp+
  then show "attrs_at errormsg_example 36 [(1, [110, 111, 0])] (length errormsg_example)"
    by (simp add: attr_at_def pad4_def numeral_3_eq_3)
  let ?m = errormsg_example
  let ?pol = "[\<lparr>pol_type = LIBBPF_NLA_UNSPEC, pol_minlen = 0, pol_maxlen = 0\<rparr>,
    \<lparr>pol_type = LIBBPF_NLA_STRING, pol_minlen = 0, pol_maxlen = 0\<rparr>,
    \<lparr>pol_type = LIBBPF_NLA_U32, pol_minlen = 0, pol_maxlen = 0\<rparr>,
    \<lparr>pol_type = LIBBPF_NLA_UNSPEC, pol_minlen = 0, pol_maxlen = 0\<rparr>]"
  have parse: "libbpf_nla_parse ?m 3 36 24 (Some ?pol) = None"
    by (rule parse_one_then_stuck; code_simp)
  have flags: "get_nlmsg_flags ?m 0 = Some 0x300" and len: "get_nlmsg_len ?m 0 = Some 44" by code_simp+
  have vals: "nat NLMSG_HDRLEN = 16" "((0x300 :: u16) AND NLM_F_ACK_TLVS = 0) = False"
    "((0x300 :: u16) AND NLM_F_CAPPED = 0) = False" "sint ((44 :: u32) - of_int 20) = 24"
    "nat (int (0 + 16) + 20) = 36"
    by code_simp+
  show "libbpf_nla_dump_errormsg ?m 0 = None"
    unfolding libbpf_nla_dump_errormsg_def
    by (simp only: flags len vals Let_def bind.simps if_False parse)
qed

end
