(* ===== verification/Btf_Types.thy ===== *)
theory Btf_Types
  imports Errno Bpf_Endian
begin

text \<open>
  BTF types as they lie in memory: \<open>uapi/linux/btf.h\<close> and the inline functions of \<open>btf.h\<close>. A
  type is three 32-bit words, followed for some kinds by arrays of words. A pointer to a type is
  either the address of \<open>btf_void\<close>, a type of zeroes, or a byte offset into a block of memory; what
  lies behind the type is reached from the same pointer. Reading outside the block is \<open>None\<close>.
\<close>

section \<open>Type words\<close>

abbreviation (input) BTF_MAGIC :: u16 where "BTF_MAGIC \<equiv> 0xeB9F"
abbreviation (input) BTF_VERSION :: u8 where "BTF_VERSION \<equiv> 1"

record btf_header =
  h_magic :: u16
  h_version :: u8
  h_flags :: u8
  h_hdr_len :: u32
  h_type_off :: u32
  h_type_len :: u32
  h_str_off :: u32
  h_str_len :: u32

definition BTF_INFO_KIND :: "u32 \<Rightarrow> u32" where
  "BTF_INFO_KIND info = drop_bit 24 info AND 0x1f"

definition BTF_INFO_VLEN :: "u32 \<Rightarrow> u32" where
  "BTF_INFO_VLEN info = info AND 0xffff"

definition BTF_INFO_KFLAG :: "u32 \<Rightarrow> u32" where
  "BTF_INFO_KFLAG info = drop_bit 31 info"

definition btf_type_info :: "u32 \<Rightarrow> u32 \<Rightarrow> u32 \<Rightarrow> u32" where
  "btf_type_info kind vlen kflag = push_bit 31 kflag OR push_bit 24 kind OR vlen"

abbreviation (input) BTF_KIND_UNKN :: u16 where "BTF_KIND_UNKN \<equiv> 0"
abbreviation (input) BTF_KIND_INT :: u16 where "BTF_KIND_INT \<equiv> 1"
abbreviation (input) BTF_KIND_PTR :: u16 where "BTF_KIND_PTR \<equiv> 2"
abbreviation (input) BTF_KIND_ARRAY :: u16 where "BTF_KIND_ARRAY \<equiv> 3"
abbreviation (input) BTF_KIND_STRUCT :: u16 where "BTF_KIND_STRUCT \<equiv> 4"
abbreviation (input) BTF_KIND_UNION :: u16 where "BTF_KIND_UNION \<equiv> 5"
abbreviation (input) BTF_KIND_ENUM :: u16 where "BTF_KIND_ENUM \<equiv> 6"
abbreviation (input) BTF_KIND_FWD :: u16 where "BTF_KIND_FWD \<equiv> 7"
abbreviation (input) BTF_KIND_TYPEDEF :: u16 where "BTF_KIND_TYPEDEF \<equiv> 8"
abbreviation (input) BTF_KIND_VOLATILE :: u16 where "BTF_KIND_VOLATILE \<equiv> 9"
abbreviation (input) BTF_KIND_CONST :: u16 where "BTF_KIND_CONST \<equiv> 10"
abbreviation (input) BTF_KIND_RESTRICT :: u16 where "BTF_KIND_RESTRICT \<equiv> 11"
abbreviation (input) BTF_KIND_FUNC :: u16 where "BTF_KIND_FUNC \<equiv> 12"
abbreviation (input) BTF_KIND_FUNC_PROTO :: u16 where "BTF_KIND_FUNC_PROTO \<equiv> 13"
abbreviation (input) BTF_KIND_VAR :: u16 where "BTF_KIND_VAR \<equiv> 14"
abbreviation (input) BTF_KIND_DATASEC :: u16 where "BTF_KIND_DATASEC \<equiv> 15"
abbreviation (input) BTF_KIND_FLOAT :: u16 where "BTF_KIND_FLOAT \<equiv> 16"

definition BTF_INT_ENCODING :: "u32 \<Rightarrow> u32" where
  "BTF_INT_ENCODING val = drop_bit 24 (val AND 0x0f000000)"

definition BTF_INT_OFFSET :: "u32 \<Rightarrow> u32" where
  "BTF_INT_OFFSET val = drop_bit 16 (val AND 0x00ff0000)"

definition BTF_INT_BITS :: "u32 \<Rightarrow> u32" where
  "BTF_INT_BITS val = val AND 0x000000ff"

abbreviation (input) BTF_INT_SIGNED :: int where "BTF_INT_SIGNED \<equiv> 1"
abbreviation (input) BTF_INT_CHAR :: int where "BTF_INT_CHAR \<equiv> 2"
abbreviation (input) BTF_INT_BOOL :: int where "BTF_INT_BOOL \<equiv> 4"

definition BTF_MEMBER_BITFIELD_SIZE :: "u32 \<Rightarrow> u32" where
  "BTF_MEMBER_BITFIELD_SIZE val = drop_bit 24 val"

definition BTF_MEMBER_BIT_OFFSET :: "u32 \<Rightarrow> u32" where
  "BTF_MEMBER_BIT_OFFSET val = val AND 0xffffff"

text \<open>The structures behind a type; their sizes are four bytes for each field.\<close>

record btf_enum_s =
  en_name_off :: u32
  en_val :: u32

record btf_array_s =
  ar_type :: u32
  ar_index_type :: u32
  ar_nelems :: u32

record btf_member_s =
  mb_name_off :: u32
  mb_type :: u32
  mb_offset :: u32

record btf_param_s =
  pa_name_off :: u32
  pa_type :: u32

record btf_var_s =
  va_linkage :: u32

record btf_var_secinfo_s =
  vs_type :: u32
  vs_offset :: u32
  vs_size :: u32

abbreviation (input) sizeof_btf_type :: nat where "sizeof_btf_type \<equiv> 12"
abbreviation (input) sizeof_btf_enum :: nat where "sizeof_btf_enum \<equiv> 8"
abbreviation (input) sizeof_btf_array :: nat where "sizeof_btf_array \<equiv> 12"
abbreviation (input) sizeof_btf_member :: nat where "sizeof_btf_member \<equiv> 12"
abbreviation (input) sizeof_btf_param :: nat where "sizeof_btf_param \<equiv> 8"
abbreviation (input) sizeof_btf_var :: nat where "sizeof_btf_var \<equiv> 4"
abbreviation (input) sizeof_btf_var_secinfo :: nat where "sizeof_btf_var_secinfo \<equiv> 12"

section \<open>Pointers to types\<close>

datatype btf_ptr = Btf_void | Btf_at bytes nat

fun ptr_ld32 :: "btf_ptr \<Rightarrow> nat \<Rightarrow> u32 option" where
  "ptr_ld32 Btf_void off = ld32 (replicate sizeof_btf_type 0) off"
| "ptr_ld32 (Btf_at m t) off = ld32 m (t + off)"

definition t_name_off :: "btf_ptr \<Rightarrow> u32 option" where "t_name_off t = ptr_ld32 t 0"
definition t_info :: "btf_ptr \<Rightarrow> u32 option" where "t_info t = ptr_ld32 t 4"
definition t_size :: "btf_ptr \<Rightarrow> u32 option" where "t_size t = ptr_ld32 t 8"
definition t_type :: "btf_ptr \<Rightarrow> u32 option" where "t_type t = ptr_ld32 t 8"

definition btf_kind :: "btf_ptr \<Rightarrow> u16 option" where
  "btf_kind t = map_option (\<lambda>info. ucast (BTF_INFO_KIND info)) (t_info t)"

definition btf_vlen :: "btf_ptr \<Rightarrow> u16 option" where
  "btf_vlen t = map_option (\<lambda>info. ucast (BTF_INFO_VLEN info)) (t_info t)"

definition btf_kflag :: "btf_ptr \<Rightarrow> bool option" where
  "btf_kflag t = map_option (\<lambda>info. BTF_INFO_KFLAG info \<noteq> 0) (t_info t)"

definition btf_is_void :: "btf_ptr \<Rightarrow> bool option" where
  "btf_is_void t = map_option (\<lambda>kind. kind = BTF_KIND_UNKN) (btf_kind t)"

definition btf_is_int :: "btf_ptr \<Rightarrow> bool option" where
  "btf_is_int t = map_option (\<lambda>kind. kind = BTF_KIND_INT) (btf_kind t)"

definition btf_is_ptr :: "btf_ptr \<Rightarrow> bool option" where
  "btf_is_ptr t = map_option (\<lambda>kind. kind = BTF_KIND_PTR) (btf_kind t)"

definition btf_is_array :: "btf_ptr \<Rightarrow> bool option" where
  "btf_is_array t = map_option (\<lambda>kind. kind = BTF_KIND_ARRAY) (btf_kind t)"

definition btf_is_struct :: "btf_ptr \<Rightarrow> bool option" where
  "btf_is_struct t = map_option (\<lambda>kind. kind = BTF_KIND_STRUCT) (btf_kind t)"

definition btf_is_union :: "btf_ptr \<Rightarrow> bool option" where
  "btf_is_union t = map_option (\<lambda>kind. kind = BTF_KIND_UNION) (btf_kind t)"

definition btf_is_composite :: "btf_ptr \<Rightarrow> bool option" where
  "btf_is_composite t = map_option (\<lambda>kind. kind = BTF_KIND_STRUCT \<or> kind = BTF_KIND_UNION) (btf_kind t)"

definition btf_is_enum :: "btf_ptr \<Rightarrow> bool option" where
  "btf_is_enum t = map_option (\<lambda>kind. kind = BTF_KIND_ENUM) (btf_kind t)"

definition btf_is_fwd :: "btf_ptr \<Rightarrow> bool option" where
  "btf_is_fwd t = map_option (\<lambda>kind. kind = BTF_KIND_FWD) (btf_kind t)"

definition btf_is_typedef :: "btf_ptr \<Rightarrow> bool option" where
  "btf_is_typedef t = map_option (\<lambda>kind. kind = BTF_KIND_TYPEDEF) (btf_kind t)"

definition btf_is_volatile :: "btf_ptr \<Rightarrow> bool option" where
  "btf_is_volatile t = map_option (\<lambda>kind. kind = BTF_KIND_VOLATILE) (btf_kind t)"

definition btf_is_const :: "btf_ptr \<Rightarrow> bool option" where
  "btf_is_const t = map_option (\<lambda>kind. kind = BTF_KIND_CONST) (btf_kind t)"

definition btf_is_restrict :: "btf_ptr \<Rightarrow> bool option" where
  "btf_is_restrict t = map_option (\<lambda>kind. kind = BTF_KIND_RESTRICT) (btf_kind t)"

definition btf_is_mod :: "btf_ptr \<Rightarrow> bool option" where
  "btf_is_mod t = map_option (\<lambda>kind. kind = BTF_KIND_VOLATILE \<or> kind = BTF_KIND_CONST \<or>
     kind = BTF_KIND_RESTRICT) (btf_kind t)"

definition btf_is_func :: "btf_ptr \<Rightarrow> bool option" where
  "btf_is_func t = map_option (\<lambda>kind. kind = BTF_KIND_FUNC) (btf_kind t)"

definition btf_is_func_proto :: "btf_ptr \<Rightarrow> bool option" where
  "btf_is_func_proto t = map_option (\<lambda>kind. kind = BTF_KIND_FUNC_PROTO) (btf_kind t)"

definition btf_is_var :: "btf_ptr \<Rightarrow> bool option" where
  "btf_is_var t = map_option (\<lambda>kind. kind = BTF_KIND_VAR) (btf_kind t)"

definition btf_is_datasec :: "btf_ptr \<Rightarrow> bool option" where
  "btf_is_datasec t = map_option (\<lambda>kind. kind = BTF_KIND_DATASEC) (btf_kind t)"

definition btf_is_float :: "btf_ptr \<Rightarrow> bool option" where
  "btf_is_float t = map_option (\<lambda>kind. kind = BTF_KIND_FLOAT) (btf_kind t)"

definition btf_int_encoding :: "btf_ptr \<Rightarrow> u8 option" where
  "btf_int_encoding t = map_option (\<lambda>val. ucast (BTF_INT_ENCODING val)) (ptr_ld32 t sizeof_btf_type)"

definition btf_int_offset :: "btf_ptr \<Rightarrow> u8 option" where
  "btf_int_offset t = map_option (\<lambda>val. ucast (BTF_INT_OFFSET val)) (ptr_ld32 t sizeof_btf_type)"

definition btf_int_bits :: "btf_ptr \<Rightarrow> u8 option" where
  "btf_int_bits t = map_option (\<lambda>val. ucast (BTF_INT_BITS val)) (ptr_ld32 t sizeof_btf_type)"

text \<open>
  The pointers to what follows a type are used with an index only, so each of them is modelled
  together with the reading of the element: \<open>btf_array t\<close> is \<open>*btf_array(t)\<close>, \<open>btf_members t i\<close> is
  \<open>btf_members(t)[i]\<close>.
\<close>

definition btf_array :: "btf_ptr \<Rightarrow> btf_array_s option" where
  "btf_array t = do {
     type \<leftarrow> ptr_ld32 t sizeof_btf_type;
     index_type \<leftarrow> ptr_ld32 t (sizeof_btf_type + 4);
     nelems \<leftarrow> ptr_ld32 t (sizeof_btf_type + 8);
     Some \<lparr>ar_type = type, ar_index_type = index_type, ar_nelems = nelems\<rparr>
   }"

definition btf_enum :: "btf_ptr \<Rightarrow> nat \<Rightarrow> btf_enum_s option" where
  "btf_enum t i = do {
     name_off \<leftarrow> ptr_ld32 t (sizeof_btf_type + i * sizeof_btf_enum);
     val \<leftarrow> ptr_ld32 t (sizeof_btf_type + i * sizeof_btf_enum + 4);
     Some \<lparr>en_name_off = name_off, en_val = val\<rparr>
   }"

definition btf_members :: "btf_ptr \<Rightarrow> nat \<Rightarrow> btf_member_s option" where
  "btf_members t i = do {
     name_off \<leftarrow> ptr_ld32 t (sizeof_btf_type + i * sizeof_btf_member);
     type \<leftarrow> ptr_ld32 t (sizeof_btf_type + i * sizeof_btf_member + 4);
     offset \<leftarrow> ptr_ld32 t (sizeof_btf_type + i * sizeof_btf_member + 8);
     Some \<lparr>mb_name_off = name_off, mb_type = type, mb_offset = offset\<rparr>
   }"

definition btf_member_bit_offset :: "btf_ptr \<Rightarrow> nat \<Rightarrow> u32 option" where
  "btf_member_bit_offset t member_idx = do {
     kflag \<leftarrow> btf_kflag t;
     m \<leftarrow> btf_members t member_idx;
     Some (if kflag then BTF_MEMBER_BIT_OFFSET (mb_offset m) else mb_offset m)
   }"

definition btf_member_bitfield_size :: "btf_ptr \<Rightarrow> nat \<Rightarrow> u32 option" where
  "btf_member_bitfield_size t member_idx = do {
     kflag \<leftarrow> btf_kflag t;
     m \<leftarrow> btf_members t member_idx;
     Some (if kflag then BTF_MEMBER_BITFIELD_SIZE (mb_offset m) else 0)
   }"

definition btf_params :: "btf_ptr \<Rightarrow> nat \<Rightarrow> btf_param_s option" where
  "btf_params t i = do {
     name_off \<leftarrow> ptr_ld32 t (sizeof_btf_type + i * sizeof_btf_param);
     type \<leftarrow> ptr_ld32 t (sizeof_btf_type + i * sizeof_btf_param + 4);
     Some \<lparr>pa_name_off = name_off, pa_type = type\<rparr>
   }"

definition btf_var :: "btf_ptr \<Rightarrow> btf_var_s option" where
  "btf_var t = map_option (\<lambda>linkage. \<lparr>va_linkage = linkage\<rparr>) (ptr_ld32 t sizeof_btf_type)"

definition btf_var_secinfos :: "btf_ptr \<Rightarrow> nat \<Rightarrow> btf_var_secinfo_s option" where
  "btf_var_secinfos t i = do {
     type \<leftarrow> ptr_ld32 t (sizeof_btf_type + i * sizeof_btf_var_secinfo);
     offset \<leftarrow> ptr_ld32 t (sizeof_btf_type + i * sizeof_btf_var_secinfo + 4);
     size \<leftarrow> ptr_ld32 t (sizeof_btf_type + i * sizeof_btf_var_secinfo + 8);
     Some \<lparr>vs_type = type, vs_offset = offset, vs_size = size\<rparr>
   }"

section \<open>The info word\<close>

lemma mask_16: "(0xffff :: u32) = mask 16" and mask_5: "(0x1f :: u32) = mask 5"
  and mask_24: "(0xffffff :: u32) = mask 24"
  by (simp_all add: mask_eq_exp_minus_1)

lemma bit_less_power:
  assumes "unat w < 2 ^ m" "bit (w :: u32) n"
  shows "n < m"
proof -
  have "take_bit m w = w"
    using assms(1) by (simp add: word_unat_eq_iff unsigned_take_bit_eq take_bit_nat_eq_self)
  then show ?thesis using assms(2) by (metis bit_take_bit_iff)
qed

lemma btf_type_info_parts:
  assumes "kind < 32" "vlen < 0x10000" "kflag < 2"
  shows "BTF_INFO_KIND (btf_type_info kind vlen kflag) = kind"
    "BTF_INFO_VLEN (btf_type_info kind vlen kflag) = vlen"
    "BTF_INFO_KFLAG (btf_type_info kind vlen kflag) = kflag"
proof -
  have k: "bit kind n \<Longrightarrow> n < 5" and v: "bit vlen n \<Longrightarrow> n < 16" and f: "bit kflag n \<Longrightarrow> n = 0" for n
    using bit_less_power [of kind 5 n] bit_less_power [of vlen 16 n] bit_less_power [of kflag 1 n] assms
    by (simp_all add: word_less_nat_alt)
  show "BTF_INFO_KIND (btf_type_info kind vlen kflag) = kind"
    unfolding BTF_INFO_KIND_def btf_type_info_def mask_5
    by (rule bit_word_eqI) (auto simp: bit_simps dest: k v f)
  show "BTF_INFO_VLEN (btf_type_info kind vlen kflag) = vlen"
    unfolding BTF_INFO_VLEN_def btf_type_info_def mask_16
    by (rule bit_word_eqI) (auto simp: bit_simps dest: k v f)
  show "BTF_INFO_KFLAG (btf_type_info kind vlen kflag) = kflag"
    unfolding BTF_INFO_KFLAG_def btf_type_info_def
    by (rule bit_word_eqI) (auto simp: bit_simps dest: k v f)
qed

end
