(* ===== verification/Btf.thy ===== *)
theory Btf
  imports Btf_Types Strset
begin

text \<open>
  BTF objects, \<open>btf.c\<close>: loading from memory in either byte order, the index of types, and the
  queries on it. A BTF object together with the objects it is split from is a list, its base
  the tail (\<open>[]\<close> is \<open>NULL\<close>). While an object is not modifiable its header, types and strings lie in
  the raw data; the header is kept as a record, \<open>b_types_data\<close> and \<open>b_strs_data\<close> are pointers: a block
  and an offset. \<open>errno\<close> and debug output are not modelled. Results are \<open>None\<close> when an access falls
  outside an object (a null pointer included); \<open>Inl\<close> is an error pointer.
\<close>

section \<open>Objects\<close>

abbreviation (input) BTF_MAX_NR_TYPES :: u32 where "BTF_MAX_NR_TYPES \<equiv> 0x7fffffff"
abbreviation (input) BTF_MAX_STR_OFFSET :: u32 where "BTF_MAX_STR_OFFSET \<equiv> 0x7fffffff"

record btf =
  b_raw_data :: "bytes option"
  b_raw_data_swapped :: "bytes option"
  b_raw_size :: u32
  b_swapped_endian :: bool
  b_hdr :: btf_header
  b_hdr_rest :: bytes
  b_modifiable :: bool
  b_types_data :: "bytes \<times> nat"
  b_types_data_cap :: u64
  b_type_offs :: bytes
  b_type_offs_cap :: u64
  b_nr_types :: u32
  b_start_id :: u32
  b_start_str_off :: u32
  b_strs_data :: "(bytes \<times> nat) option"
  b_strs_set :: "strset option"
  b_strs_deduped :: bool
  b_fd :: int
  b_ptr_sz :: int

text \<open>Which allocations succeed, and what \<open>malloc\<close> and \<open>realloc\<close> leave in memory.\<close>

record allocs =
  al_btf :: bool
  al_raw :: bool
  al_hdr :: bool
  al_types :: bool
  al_offs :: "nat \<Rightarrow> bool"
  al_set :: bool
  al_str :: bool
  al_entry :: bool
  al_junk :: "nat \<Rightarrow> u8"

abbreviation all_ok :: allocs where
  "all_ok \<equiv> \<lparr>al_btf = True, al_raw = True, al_hdr = True, al_types = True, al_offs = (\<lambda>n. True),
     al_set = True, al_str = True, al_entry = True, al_junk = (\<lambda>n. 0)\<rparr>"

section \<open>Parsing\<close>

definition btf_add_type_idx_entry :: "allocs \<Rightarrow> btf \<Rightarrow> u32 \<Rightarrow> (int \<times> btf) option" where
  "btf_add_type_idx_entry al btf type_off = do {
     r \<leftarrow> libbpf_add_mem (al_offs al (unat (b_nr_types btf))) (al_junk al) (b_type_offs btf)
       (b_type_offs_cap btf) 4 (ucast (b_nr_types btf)) (ucast BTF_MAX_NR_TYPES) 1;
     (case r of
        None \<Rightarrow> Some (- ENOMEM, btf)
      | Some (p, type_offs, cap_cnt) \<Rightarrow> do {
          type_offs \<leftarrow> st32 type_offs (unat p) type_off;
          Some (0, btf\<lparr>b_type_offs := type_offs, b_type_offs_cap := cap_cnt\<rparr>)
        })
   }"

abbreviation bswap_16 :: "u16 \<Rightarrow> u16" where "bswap_16 \<equiv> builtin_bswap16"
abbreviation bswap_32 :: "u32 \<Rightarrow> u32" where "bswap_32 \<equiv> builtin_bswap32"

definition btf_bswap_hdr :: "btf_header \<Rightarrow> btf_header" where
  "btf_bswap_hdr h = h\<lparr>h_magic := bswap_16 (h_magic h), h_hdr_len := bswap_32 (h_hdr_len h),
     h_type_off := bswap_32 (h_type_off h), h_type_len := bswap_32 (h_type_len h),
     h_str_off := bswap_32 (h_str_off h), h_str_len := bswap_32 (h_str_len h)\<rparr>"

text \<open>The header structure at the start of a block.\<close>

abbreviation (input) sizeof_btf_header :: nat where "sizeof_btf_header \<equiv> 24"

definition get_hdr :: "bytes \<Rightarrow> btf_header option" where
  "get_hdr m = do {
     magic \<leftarrow> ld16 m 0; version \<leftarrow> ld8 m 2; flags \<leftarrow> ld8 m 3; hdr_len \<leftarrow> ld32 m 4;
     type_off \<leftarrow> ld32 m 8; type_len \<leftarrow> ld32 m 12; str_off \<leftarrow> ld32 m 16; str_len \<leftarrow> ld32 m 20;
     Some \<lparr>h_magic = magic, h_version = version, h_flags = flags, h_hdr_len = hdr_len,
       h_type_off = type_off, h_type_len = type_len, h_str_off = str_off, h_str_len = str_len\<rparr>
   }"

definition hdr_bytes :: "btf_header \<Rightarrow> bytes" where
  "hdr_bytes h = le_bytes 2 (unat (h_magic h)) @ [h_version h, h_flags h] @ le_bytes 4 (unat (h_hdr_len h)) @
     le_bytes 4 (unat (h_type_off h)) @ le_bytes 4 (unat (h_type_len h)) @
     le_bytes 4 (unat (h_str_off h)) @ le_bytes 4 (unat (h_str_len h))"

definition btf_parse_hdr :: "btf \<Rightarrow> (int \<times> btf) option" where
  "btf_parse_hdr btf =
     (if b_raw_size btf < of_nat sizeof_btf_header then Some (- EINVAL, btf)
      else do {
        raw \<leftarrow> b_raw_data btf;
        hdr \<leftarrow> get_hdr raw;
        let btf = btf\<lparr>b_hdr := hdr\<rparr>;
        (err, btf) \<leftarrow>
          (if h_magic hdr = bswap_16 BTF_MAGIC then
             (let btf = btf\<lparr>b_swapped_endian := True\<rparr> in
              if bswap_32 (h_hdr_len hdr) \<noteq> of_nat sizeof_btf_header then Some (- ENOTSUP, btf)
              else do {
                let hdr = btf_bswap_hdr hdr;
                raw \<leftarrow> stn raw 0 (hdr_bytes hdr);
                Some (0, btf\<lparr>b_raw_data := Some raw, b_hdr := hdr\<rparr>)
              })
           else if h_magic hdr \<noteq> BTF_MAGIC then Some (- EINVAL, btf)
           else Some (0, btf));
        if err \<noteq> 0 then Some (err, btf)
        else do {
          let hdr = b_hdr btf;
          let meta_left = b_raw_size btf - of_nat sizeof_btf_header;
          if meta_left < h_str_off hdr + h_str_len hdr then Some (- EINVAL, btf)
          else if h_type_off hdr + h_type_len hdr > h_str_off hdr then Some (- EINVAL, btf)
          else if h_type_off hdr mod 4 \<noteq> 0 then Some (- EINVAL, btf)
          else Some (0, btf)
        }
      })"

definition btf_parse_str_sec :: "btf \<Rightarrow> bool \<Rightarrow> int option" where
  "btf_parse_str_sec btf has_base = do {
     let hdr = b_hdr btf;
     (m, start) \<leftarrow> b_strs_data btf;
     let fin = start + unat (h_str_len hdr);
     if has_base \<and> h_str_len hdr = 0 then Some 0
     else if h_str_len hdr = 0 \<or> h_str_len hdr - 1 > BTF_MAX_STR_OFFSET then Some (- EINVAL)
     else do {
       last \<leftarrow> ld8 m (fin - 1);
       if last \<noteq> 0 then Some (- EINVAL)
       else if \<not> has_base then do {
         c \<leftarrow> ld8 m start;
         Some (if c \<noteq> 0 then - EINVAL else 0)
       }
       else Some 0
     }
   }"

definition btf_type_size :: "btf_ptr \<Rightarrow> int option" where
  "btf_type_size t = do {
     let base_size = int sizeof_btf_type;
     vlen \<leftarrow> btf_vlen t;
     kind \<leftarrow> btf_kind t;
     Some
      (if kind \<in> {BTF_KIND_FWD, BTF_KIND_CONST, BTF_KIND_VOLATILE, BTF_KIND_RESTRICT, BTF_KIND_PTR,
                  BTF_KIND_TYPEDEF, BTF_KIND_FUNC, BTF_KIND_FLOAT} then base_size
       else if kind = BTF_KIND_INT then base_size + 4
       else if kind = BTF_KIND_ENUM then base_size + uint vlen * int sizeof_btf_enum
       else if kind = BTF_KIND_ARRAY then base_size + int sizeof_btf_array
       else if kind = BTF_KIND_STRUCT \<or> kind = BTF_KIND_UNION then
         base_size + uint vlen * int sizeof_btf_member
       else if kind = BTF_KIND_FUNC_PROTO then base_size + uint vlen * int sizeof_btf_param
       else if kind = BTF_KIND_VAR then base_size + int sizeof_btf_var
       else if kind = BTF_KIND_DATASEC then base_size + uint vlen * int sizeof_btf_var_secinfo
       else - EINVAL)
   }"

text \<open>Swapping the words of structures in place: the flds of \<open>n\<close> structures of \<open>k\<close> words.\<close>

definition bswap_field :: "bytes \<Rightarrow> nat \<Rightarrow> bytes option" where
  "bswap_field m off = do { w \<leftarrow> ld32 m off; st32 m off (bswap_32 w) }"

fun bswap_structs :: "bytes \<Rightarrow> nat \<Rightarrow> nat list \<Rightarrow> nat \<Rightarrow> nat \<Rightarrow> bytes option" where
  "bswap_structs m p flds width 0 = Some m"
| "bswap_structs m p flds width (Suc n) = do {
     m \<leftarrow> fold (\<lambda>f m. do { m \<leftarrow> m; bswap_field m (p + f) }) flds (Some m);
     bswap_structs m (p + width) flds width n
   }"

definition btf_bswap_type_base :: "bytes \<Rightarrow> nat \<Rightarrow> bytes option" where
  "btf_bswap_type_base m t = do {
     m \<leftarrow> bswap_field m t;
     m \<leftarrow> bswap_field m (t + 4);
     bswap_field m (t + 8)
   }"

definition btf_bswap_type_rest :: "bytes \<Rightarrow> nat \<Rightarrow> (int \<times> bytes) option" where
  "btf_bswap_type_rest m t = do {
     vlen \<leftarrow> btf_vlen (Btf_at m t);
     kind \<leftarrow> btf_kind (Btf_at m t);
     let rest = t + sizeof_btf_type;
     if kind \<in> {BTF_KIND_FWD, BTF_KIND_CONST, BTF_KIND_VOLATILE, BTF_KIND_RESTRICT, BTF_KIND_PTR,
                BTF_KIND_TYPEDEF, BTF_KIND_FUNC, BTF_KIND_FLOAT} then Some (0, m)
     else if kind = BTF_KIND_INT then
       map_option (\<lambda>m. (0, m)) (bswap_field m rest)
     else if kind = BTF_KIND_ENUM then
       map_option (\<lambda>m. (0, m)) (bswap_structs m rest [0, 4] sizeof_btf_enum (unat vlen))
     else if kind = BTF_KIND_ARRAY then
       map_option (\<lambda>m. (0, m)) (bswap_structs m rest [0, 4, 8] sizeof_btf_array 1)
     else if kind = BTF_KIND_STRUCT \<or> kind = BTF_KIND_UNION then
       map_option (\<lambda>m. (0, m)) (bswap_structs m rest [0, 4, 8] sizeof_btf_member (unat vlen))
     else if kind = BTF_KIND_FUNC_PROTO then
       map_option (\<lambda>m. (0, m)) (bswap_structs m rest [0, 4] sizeof_btf_param (unat vlen))
     else if kind = BTF_KIND_VAR then
       map_option (\<lambda>m. (0, m)) (bswap_field m rest)
     else if kind = BTF_KIND_DATASEC then
       map_option (\<lambda>m. (0, m)) (bswap_structs m rest [0, 4, 8] sizeof_btf_var_secinfo (unat vlen))
     else Some (- EINVAL, m)
   }"

lemma btf_type_size_ge: "btf_type_size t = Some n \<Longrightarrow> 0 \<le> n \<Longrightarrow> 12 \<le> n"
  by (auto simp: btf_type_size_def bind_eq_Some_conv Let_def split: if_splits)

text \<open>The loop over the type section: \<open>next\<close> and \<open>fin\<close> are offsets in the block.\<close>

function btf_parse_type_loop :: "allocs \<Rightarrow> nat \<Rightarrow> nat \<Rightarrow> btf \<Rightarrow> (int \<times> btf) option" where
  "btf_parse_type_loop al next fin btf =
     (if next + sizeof_btf_type \<le> fin then do {
        let (m, types) = b_types_data btf;
        m \<leftarrow> (if b_swapped_endian btf then btf_bswap_type_base m next else Some m);
        let btf = btf\<lparr>b_types_data := (m, types)\<rparr>;
        type_size \<leftarrow> btf_type_size (Btf_at m next);
        if type_size < 0 then Some (type_size, btf)
        else if next + nat type_size > fin then Some (- EINVAL, btf)
        else do {
          (err, m) \<leftarrow> (if b_swapped_endian btf then btf_bswap_type_rest m next else Some (0, m));
          let btf = btf\<lparr>b_types_data := (m, types)\<rparr>;
          if err \<noteq> 0 then Some (- EINVAL, btf)
          else do {
            (err, btf) \<leftarrow> btf_add_type_idx_entry al btf (of_nat (next - types));
            if err \<noteq> 0 then Some (err, btf)
            else btf_parse_type_loop al (next + nat type_size) fin
              (btf\<lparr>b_nr_types := b_nr_types btf + 1\<rparr>)
          }
        }
      }
      else if next \<noteq> fin then Some (- EINVAL, btf) else Some (0, btf))"
  by pat_completeness auto

termination
  by (relation "measure (\<lambda>(al, next, fin, btf). fin - next)") (auto dest: btf_type_size_ge)

declare btf_parse_type_loop.simps [simp del]
definition btf_parse_type_sec :: "allocs \<Rightarrow> btf \<Rightarrow> (int \<times> btf) option" where
  "btf_parse_type_sec al btf = do {
     let hdr = b_hdr btf;
     let next_type = snd (b_types_data btf);
     let end_type = next_type + unat (h_type_len hdr);
     btf_parse_type_loop al next_type end_type btf
   }"

section \<open>Objects from memory\<close>

definition btf__get_nr_types :: "btf \<Rightarrow> u32" where
  "btf__get_nr_types btf = b_start_id btf + b_nr_types btf - 1"

definition btf__base_btf :: "btf list \<Rightarrow> btf list" where
  "btf__base_btf bs = tl bs"

definition zero_hdr :: btf_header where
  "zero_hdr = \<lparr>h_magic = 0, h_version = 0, h_flags = 0, h_hdr_len = 0, h_type_off = 0, h_type_len = 0,
     h_str_off = 0, h_str_len = 0\<rparr>"

text \<open>The object as \<open>calloc\<close> leaves it, then tied to its base.\<close>

definition zero_btf :: btf where
  "zero_btf = \<lparr>b_raw_data = None, b_raw_data_swapped = None, b_raw_size = 0, b_swapped_endian = False,
     b_hdr = zero_hdr, b_hdr_rest = [], b_modifiable = False, b_types_data = ([], 0),
     b_types_data_cap = 0, b_type_offs = [], b_type_offs_cap = 0, b_nr_types = 0, b_start_id = 0,
     b_start_str_off = 0, b_strs_data = None, b_strs_set = None, b_strs_deduped = False, b_fd = 0,
     b_ptr_sz = 0\<rparr>"

definition split_from :: "btf list \<Rightarrow> btf \<Rightarrow> btf" where
  "split_from base btf =
     (let btf = btf\<lparr>b_nr_types := 0, b_start_id := 1, b_start_str_off := 0, b_fd := - 1\<rparr> in
      case base of
        [] \<Rightarrow> btf
      | b # bs \<Rightarrow> btf\<lparr>b_start_id := btf__get_nr_types b + 1, b_start_str_off := h_str_len (b_hdr b)\<rparr>)"

definition btf_new_empty :: "allocs \<Rightarrow> btf list \<Rightarrow> (int + btf list) option" where
  "btf_new_empty al base =
     (if \<not> al_btf al then Some (Inl (- ENOMEM))
      else do {
        let btf = split_from base zero_btf;
        let btf = btf\<lparr>b_ptr_sz := 8, b_swapped_endian := False\<rparr>;
        let btf = btf\<lparr>b_raw_size := of_nat (sizeof_btf_header + (if base \<noteq> [] then 0 else 1))\<rparr>;
        if \<not> al_raw al then Some (Inl (- ENOMEM))
        else do {
          let raw = replicate (unat (b_raw_size btf)) 0;
          let hdr = zero_hdr\<lparr>h_hdr_len := of_nat sizeof_btf_header, h_magic := BTF_MAGIC,
            h_version := BTF_VERSION, h_str_len := (if base \<noteq> [] then 0 else 1)\<rparr>;
          raw \<leftarrow> stn raw 0 (hdr_bytes hdr);
          let data = unat (h_hdr_len hdr);
          Some (Inr (btf\<lparr>b_raw_data := Some raw, b_hdr := hdr, b_types_data := (raw, data),
            b_strs_data := Some (raw, data)\<rparr> # base))
        }
      })"

definition btf__new_empty :: "allocs \<Rightarrow> (int + btf list) option" where
  "btf__new_empty al = btf_new_empty al []"

definition btf__new_empty_split :: "allocs \<Rightarrow> btf list \<Rightarrow> (int + btf list) option" where
  "btf__new_empty_split al base_btf = btf_new_empty al base_btf"

definition btf_new :: "allocs \<Rightarrow> bytes \<Rightarrow> u32 \<Rightarrow> btf list \<Rightarrow> (int + btf list) option" where
  "btf_new al data data_sz base =
     (if \<not> al_btf al then Some (Inl (- ENOMEM))
      else do {
        let btf = split_from base zero_btf;
        if \<not> al_raw al then Some (Inl (- ENOMEM))
        else do {
          raw \<leftarrow> ldn data 0 (unat data_sz);
          let btf = btf\<lparr>b_raw_data := Some raw, b_raw_size := data_sz\<rparr>;
          (err, btf) \<leftarrow> btf_parse_hdr btf;
          if err \<noteq> 0 then Some (Inl err)
          else do {
            raw \<leftarrow> b_raw_data btf;
            let strs = unat (h_hdr_len (b_hdr btf)) + unat (h_str_off (b_hdr btf));
            let types = unat (h_hdr_len (b_hdr btf)) + unat (h_type_off (b_hdr btf));
            let btf = btf\<lparr>b_strs_data := Some (raw, strs), b_types_data := (raw, types)\<rparr>;
            err \<leftarrow> btf_parse_str_sec btf (base \<noteq> []);
            if err \<noteq> 0 then Some (Inl err)
            else do {
              (err, btf) \<leftarrow> btf_parse_type_sec al btf;
              let raw = fst (b_types_data btf);
              let btf = btf\<lparr>b_raw_data := Some raw, b_strs_data := Some (raw, strs)\<rparr>;
              Some (if err \<noteq> 0 then Inl err else Inr (btf # base))
            }
          }
        }
      })"

definition btf__new :: "allocs \<Rightarrow> bytes \<Rightarrow> u32 \<Rightarrow> (int + btf list) option" where
  "btf__new al data data_sz = btf_new al data data_sz []"

section \<open>Types by identifier\<close>

fun btf_type_by_id :: "btf list \<Rightarrow> u32 \<Rightarrow> btf_ptr option" where
  "btf_type_by_id bs type_id =
     (if type_id = 0 then Some Btf_void
      else case bs of
        [] \<Rightarrow> None
      | btf # base \<Rightarrow>
          if type_id < b_start_id btf then btf_type_by_id base type_id
          else do {
            off \<leftarrow> ld32 (b_type_offs btf) (4 * unat (type_id - b_start_id btf));
            Some (Btf_at (fst (b_types_data btf)) (snd (b_types_data btf) + unat off))
          })"

declare btf_type_by_id.simps [simp del]

definition btf__type_by_id :: "btf list \<Rightarrow> u32 \<Rightarrow> btf_ptr option option" where
  "btf__type_by_id bs type_id =
     (case bs of
        [] \<Rightarrow> None
      | btf # base \<Rightarrow>
          if type_id \<ge> b_start_id btf + b_nr_types btf then Some None
          else map_option Some (btf_type_by_id bs type_id))"

text \<open>The same where the pointer is followed at once.\<close>

definition the_type :: "btf list \<Rightarrow> u32 \<Rightarrow> btf_ptr option" where
  "the_type bs type_id = do { t \<leftarrow> btf__type_by_id bs type_id; t }"

section \<open>Strings\<close>

definition btf_strs_data :: "btf \<Rightarrow> (bytes \<times> nat) option" where
  "btf_strs_data btf =
     (case b_strs_data btf of
        Some p \<Rightarrow> Some p
      | None \<Rightarrow> map_option (\<lambda>ss. (strset_data ss, 0)) (b_strs_set btf))"

fun btf__str_by_offset :: "btf list \<Rightarrow> u32 \<Rightarrow> (bytes \<times> nat) option option" where
  "btf__str_by_offset [] offset = None"
| "btf__str_by_offset (btf # base) offset =
     (if offset < b_start_str_off btf then btf__str_by_offset base offset
      else if offset - b_start_str_off btf < h_str_len (b_hdr btf) then do {
        (m, strs) \<leftarrow> btf_strs_data btf;
        Some (Some (m, strs + unat (offset - b_start_str_off btf)))
      }
      else Some None)"

definition btf__name_by_offset :: "btf list \<Rightarrow> u32 \<Rightarrow> (bytes \<times> nat) option option" where
  "btf__name_by_offset bs offset = btf__str_by_offset bs offset"

text \<open>The string at a pointer, for the string functions of C; \<open>None\<close> when it has no end.\<close>

fun c_str :: "bytes \<times> nat \<Rightarrow> bytes option" where
  "c_str (m, p) = (if 0 \<in> set (drop p m) then Some (c_string m p) else None)"

definition chars :: "char list \<Rightarrow> bytes" where
  "chars s = map of_char s"

section \<open>Pointer size\<close>

text \<open>The loop of \<open>determine_ptr_size\<close> over the type identifiers.\<close>

fun ptr_size_loop :: "btf list \<Rightarrow> u32 list \<Rightarrow> int option" where
  "ptr_size_loop bs [] = Some (- 1)"
| "ptr_size_loop bs (i # ids) = do {
     t \<leftarrow> the_type bs i;
     is_int \<leftarrow> btf_is_int t;
     if \<not> is_int then ptr_size_loop bs ids
     else do {
       name_off \<leftarrow> t_name_off t;
       name \<leftarrow> btf__name_by_offset bs name_off;
       (case name of
          None \<Rightarrow> ptr_size_loop bs ids
        | Some p \<Rightarrow> do {
            name \<leftarrow> c_str p;
            if name = chars ''long int'' \<or> name = chars ''long unsigned int'' then do {
              size \<leftarrow> t_size t;
              if size \<noteq> 4 \<and> size \<noteq> 8 then ptr_size_loop bs ids else Some (uint size)
            }
            else ptr_size_loop bs ids
          })
     }
   }"

definition type_ids :: "btf list \<Rightarrow> u32 list" where
  "type_ids bs = (case bs of [] \<Rightarrow> [] | btf # base \<Rightarrow> map of_nat [1 ..< unat (btf__get_nr_types btf) + 1])"

definition determine_ptr_size :: "btf list \<Rightarrow> int option" where
  "determine_ptr_size bs =
     (case bs of
        [] \<Rightarrow> None
      | btf # b # base \<Rightarrow> if b_ptr_sz b > 0 then Some (b_ptr_sz b) else ptr_size_loop bs (type_ids bs)
      | [btf] \<Rightarrow> ptr_size_loop bs (type_ids bs))"

definition fill_ptr_sz :: "btf list \<Rightarrow> btf list option" where
  "fill_ptr_sz bs =
     (case bs of
        [] \<Rightarrow> None
      | btf # base \<Rightarrow>
          if b_ptr_sz btf = 0 then map_option (\<lambda>n. btf\<lparr>b_ptr_sz := n\<rparr> # base) (determine_ptr_size bs)
          else Some bs)"

definition btf_ptr_sz :: "btf list \<Rightarrow> (u64 \<times> btf list) option" where
  "btf_ptr_sz bs = do {
     bs \<leftarrow> fill_ptr_sz bs;
     Some (if b_ptr_sz (hd bs) < 0 then 8 else of_int (b_ptr_sz (hd bs)), bs)
   }"

definition btf__pointer_size :: "btf list \<Rightarrow> (u64 \<times> btf list) option" where
  "btf__pointer_size bs = do {
     bs \<leftarrow> fill_ptr_sz bs;
     Some (if b_ptr_sz (hd bs) < 0 then 0 else of_int (b_ptr_sz (hd bs)), bs)
   }"

definition btf__set_pointer_size :: "btf list \<Rightarrow> u64 \<Rightarrow> (int \<times> btf list) option" where
  "btf__set_pointer_size bs ptr_sz =
     (if ptr_sz \<noteq> 4 \<and> ptr_sz \<noteq> 8 then Some (- EINVAL, bs)
      else case bs of [] \<Rightarrow> None | btf # base \<Rightarrow> Some (0, btf\<lparr>b_ptr_sz := uint ptr_sz\<rparr> # base))"

text \<open>The host is little-endian.\<close>

abbreviation (input) BTF_LITTLE_ENDIAN :: int where "BTF_LITTLE_ENDIAN \<equiv> 0"
abbreviation (input) BTF_BIG_ENDIAN :: int where "BTF_BIG_ENDIAN \<equiv> 1"

definition is_host_big_endian :: bool where "is_host_big_endian = False"

definition btf__endianness :: "btf \<Rightarrow> int" where
  "btf__endianness btf =
     (if is_host_big_endian then (if b_swapped_endian btf then BTF_LITTLE_ENDIAN else BTF_BIG_ENDIAN)
      else (if b_swapped_endian btf then BTF_BIG_ENDIAN else BTF_LITTLE_ENDIAN))"

definition btf__set_endianness :: "btf \<Rightarrow> int \<Rightarrow> int \<times> btf" where
  "btf__set_endianness btf endian =
     (if endian \<noteq> BTF_LITTLE_ENDIAN \<and> endian \<noteq> BTF_BIG_ENDIAN then (- EINVAL, btf)
      else
        let btf = btf\<lparr>b_swapped_endian := (is_host_big_endian \<noteq> (endian = BTF_BIG_ENDIAN))\<rparr>;
            btf = (if \<not> b_swapped_endian btf then btf\<lparr>b_raw_data_swapped := None\<rparr> else btf)
        in (0, btf))"
section \<open>Sizes and names\<close>

definition btf_type_is_void :: "btf_ptr \<Rightarrow> bool option" where
  "btf_type_is_void t = (if t = Btf_void then Some True else btf_is_fwd t)"

definition btf_type_is_void_or_null :: "btf_ptr option \<Rightarrow> bool option" where
  "btf_type_is_void_or_null t = (case t of None \<Rightarrow> Some True | Some t \<Rightarrow> btf_type_is_void t)"

abbreviation (input) MAX_RESOLVE_DEPTH :: nat where "MAX_RESOLVE_DEPTH \<equiv> 32"

text \<open>
  The loop of \<open>btf__resolve_size\<close>: \<open>n\<close> rounds are left. \<open>Inl\<close> is an early return, \<open>Inr\<close> the
  size and the number of elements at \<open>done\<close>.
\<close>

fun resolve_size_loop :: "nat \<Rightarrow> btf list \<Rightarrow> btf_ptr option \<Rightarrow> u32 \<Rightarrow> (int + int \<times> u32 \<times> btf list) option" where
  "resolve_size_loop n bs t nelems =
     (case n of
        0 \<Rightarrow> Some (Inr (- 1, nelems, bs))
      | Suc n \<Rightarrow> do {
          stop \<leftarrow> btf_type_is_void_or_null t;
          if stop then Some (Inr (- 1, nelems, bs))
          else do {
            t \<leftarrow> t;
            kind \<leftarrow> btf_kind t;
            if kind \<in> {BTF_KIND_INT, BTF_KIND_STRUCT, BTF_KIND_UNION, BTF_KIND_ENUM, BTF_KIND_DATASEC,
                       BTF_KIND_FLOAT} then
              map_option (\<lambda>w. Inr (uint w, nelems, bs)) (t_size t)
            else if kind = BTF_KIND_PTR then
              map_option (\<lambda>(w, bs). Inr (uint w, nelems, bs)) (btf_ptr_sz bs)
            else if kind \<in> {BTF_KIND_TYPEDEF, BTF_KIND_VOLATILE, BTF_KIND_CONST, BTF_KIND_RESTRICT,
                            BTF_KIND_VAR} then do {
              type_id \<leftarrow> t_type t;
              t \<leftarrow> btf__type_by_id bs type_id;
              resolve_size_loop n bs t nelems
            }
            else if kind = BTF_KIND_ARRAY then do {
              array \<leftarrow> btf_array t;
              if nelems \<noteq> 0 \<and> ar_nelems array > - 1 div nelems then Some (Inl (- E2BIG))
              else do {
                let nelems = nelems * ar_nelems array;
                t \<leftarrow> btf__type_by_id bs (ar_type array);
                resolve_size_loop n bs t nelems
              }
            }
            else Some (Inl (- EINVAL))
          }
        })"

declare resolve_size_loop.simps [simp del]

definition btf__resolve_size :: "btf list \<Rightarrow> u32 \<Rightarrow> (int \<times> btf list) option" where
  "btf__resolve_size bs type_id = do {
     t \<leftarrow> btf__type_by_id bs type_id;
     r \<leftarrow> resolve_size_loop MAX_RESOLVE_DEPTH bs t 1;
     Some (case r of
       Inl err \<Rightarrow> (err, bs)
     | Inr (bytes_sz, nelems, bs) \<Rightarrow>
         if bytes_sz < 0 then (- EINVAL, bs)
         else if nelems \<noteq> 0 \<and> bytes_sz > uint (- 1 div nelems) then (- E2BIG, bs)
         else (uint nelems * bytes_sz, bs))
   }"

text \<open>
  \<open>btf__align_of\<close> recurses along typedefs, arrays and members without a bound; \<open>n\<close> is the depth
  allowed, and \<open>None\<close> also says that it was not enough.
\<close>

definition size_to_int :: "u64 \<Rightarrow> int" where
  "size_to_int n = sint (ucast n :: u32)"

fun btf__align_of :: "nat \<Rightarrow> btf list \<Rightarrow> u32 \<Rightarrow> (int \<times> btf list) option"
  and align_members :: "nat \<Rightarrow> btf list \<Rightarrow> btf_ptr \<Rightarrow> nat list \<Rightarrow> int \<Rightarrow> (int \<times> btf list) option" where
  "btf__align_of 0 bs type_id = None"
| "btf__align_of (Suc n) bs type_id = do {
     t \<leftarrow> the_type bs type_id;
     kind \<leftarrow> btf_kind t;
     if kind \<in> {BTF_KIND_INT, BTF_KIND_ENUM, BTF_KIND_FLOAT} then do {
       (ptr_sz, bs) \<leftarrow> btf_ptr_sz bs;
       size \<leftarrow> t_size t;
       Some (size_to_int (min ptr_sz (ucast size)), bs)
     }
     else if kind = BTF_KIND_PTR then
       map_option (\<lambda>(ptr_sz, bs). (size_to_int ptr_sz, bs)) (btf_ptr_sz bs)
     else if kind \<in> {BTF_KIND_TYPEDEF, BTF_KIND_VOLATILE, BTF_KIND_CONST, BTF_KIND_RESTRICT} then do {
       type \<leftarrow> t_type t;
       btf__align_of n bs type
     }
     else if kind = BTF_KIND_ARRAY then do {
       array \<leftarrow> btf_array t;
       btf__align_of n bs (ar_type array)
     }
     else if kind = BTF_KIND_STRUCT \<or> kind = BTF_KIND_UNION then do {
       vlen \<leftarrow> btf_vlen t;
       align_members n bs t [0 ..< unat vlen] 1
     }
     else Some (0, bs)
   }"
| "align_members n bs t [] max_align = Some (max_align, bs)"
| "align_members n bs t (i # is) max_align = do {
     m \<leftarrow> btf_members t i;
     (align, bs) \<leftarrow> btf__align_of n bs (mb_type m);
     if align \<le> 0 then Some (align, bs)
     else align_members n bs t is (max max_align align)
   }"

text \<open>The loop of \<open>btf__resolve_type\<close>; \<open>n\<close> is the depth left.\<close>

fun resolve_type_loop :: "nat \<Rightarrow> btf list \<Rightarrow> u32 \<Rightarrow> btf_ptr option \<Rightarrow> (nat \<times> u32 \<times> btf_ptr option) option" where
  "resolve_type_loop n bs type_id t =
     (case n of
        0 \<Rightarrow> Some (0, type_id, t)
      | Suc n' \<Rightarrow> do {
          stop \<leftarrow> btf_type_is_void_or_null t;
          if stop then Some (n, type_id, t)
          else do {
            t' \<leftarrow> t;
            is_mod \<leftarrow> btf_is_mod t';
            is_typedef \<leftarrow> btf_is_typedef t';
            is_var \<leftarrow> btf_is_var t';
            if is_mod \<or> is_typedef \<or> is_var then do {
              type_id \<leftarrow> t_type t';
              t \<leftarrow> btf__type_by_id bs type_id;
              resolve_type_loop n' bs type_id t
            }
            else Some (n, type_id, t)
          }
        })"

declare resolve_type_loop.simps [simp del]

definition btf__resolve_type :: "btf list \<Rightarrow> u32 \<Rightarrow> int option" where
  "btf__resolve_type bs type_id = do {
     t \<leftarrow> btf__type_by_id bs type_id;
     (left, type_id, t) \<leftarrow> resolve_type_loop MAX_RESOLVE_DEPTH bs type_id t;
     void \<leftarrow> btf_type_is_void_or_null t;
     Some (if left = 0 \<or> void then - EINVAL else sint type_id)
   }"

fun find_by_name_loop :: "btf list \<Rightarrow> bytes \<Rightarrow> u32 list \<Rightarrow> int option" where
  "find_by_name_loop bs type_name [] = Some (- ENOENT)"
| "find_by_name_loop bs type_name (i # ids) = do {
     t \<leftarrow> the_type bs i;
     name_off \<leftarrow> t_name_off t;
     name \<leftarrow> btf__name_by_offset bs name_off;
     (case name of
        None \<Rightarrow> find_by_name_loop bs type_name ids
      | Some p \<Rightarrow> do {
          name \<leftarrow> c_str p;
          if type_name = name then Some (sint i) else find_by_name_loop bs type_name ids
        })
   }"

definition btf__find_by_name :: "btf list \<Rightarrow> bytes \<Rightarrow> int option" where
  "btf__find_by_name bs type_name =
     (if type_name = chars ''void'' then Some 0
      else find_by_name_loop bs type_name (type_ids bs))"

fun find_by_name_kind_loop :: "btf list \<Rightarrow> bytes \<Rightarrow> u32 \<Rightarrow> u32 list \<Rightarrow> int option" where
  "find_by_name_kind_loop bs type_name kind [] = Some (- ENOENT)"
| "find_by_name_kind_loop bs type_name kind (i # ids) = do {
     t \<leftarrow> the_type bs i;
     k \<leftarrow> btf_kind t;
     if ucast k \<noteq> kind then find_by_name_kind_loop bs type_name kind ids
     else do {
       name_off \<leftarrow> t_name_off t;
       name \<leftarrow> btf__name_by_offset bs name_off;
       (case name of
          None \<Rightarrow> find_by_name_kind_loop bs type_name kind ids
        | Some p \<Rightarrow> do {
            name \<leftarrow> c_str p;
            if type_name = name then Some (sint i) else find_by_name_kind_loop bs type_name kind ids
          })
     }
   }"

definition btf__find_by_name_kind :: "btf list \<Rightarrow> bytes \<Rightarrow> u32 \<Rightarrow> int option" where
  "btf__find_by_name_kind bs type_name kind =
     (if kind = ucast BTF_KIND_UNKN \<or> type_name = chars ''void'' then Some 0
      else find_by_name_kind_loop bs type_name kind (type_ids bs))"

definition btf__get_map_kv_tids :: "btf list \<Rightarrow> bytes \<Rightarrow> u32 \<Rightarrow> u32 \<Rightarrow> ((int + u32 \<times> u32) \<times> btf list) option" where
  "btf__get_map_kv_tids bs map_name expected_key_size expected_value_size = do {
     let container_name = chars ''____btf_map_'' @ map_name;
     if length container_name = 256 then Some (Inl (- EINVAL), bs)
     else do {
       let container_name = take 255 container_name;
       container_id \<leftarrow> btf__find_by_name bs container_name;
       if container_id < 0 then Some (Inl container_id, bs)
       else do {
         container_type \<leftarrow> btf__type_by_id bs (of_int container_id);
         (case container_type of
            None \<Rightarrow> Some (Inl (- EINVAL), bs)
          | Some container_type \<Rightarrow> do {
              is_struct \<leftarrow> btf_is_struct container_type;
              vlen \<leftarrow> btf_vlen container_type;
              if \<not> is_struct \<or> vlen < 2 then Some (Inl (- EINVAL), bs)
              else do {
                key \<leftarrow> btf_members container_type 0;
                val \<leftarrow> btf_members container_type 1;
                (key_size, bs) \<leftarrow> btf__resolve_size bs (mb_type key);
                if key_size < 0 then Some (Inl key_size, bs)
                else if uint expected_key_size \<noteq> key_size then Some (Inl (- EINVAL), bs)
                else do {
                  (value_size, bs) \<leftarrow> btf__resolve_size bs (mb_type val);
                  if value_size < 0 then Some (Inl value_size, bs)
                  else if uint expected_value_size \<noteq> value_size then Some (Inl (- EINVAL), bs)
                  else Some (Inr (mb_type key, mb_type val), bs)
                }
              }
            })
       }
     }
   }"

end
