(* ===== verification/Btf_Parse.thy ===== *)
theory Btf_Parse
  imports Btf
begin

text \<open>
  What loading BTF guarantees: the index of types, the types one behind the other, the fields that
  can be read, and the sections inside the data.
\<close>

section \<open>The index of types\<close>

definition idx_ok :: "btf \<Rightarrow> u32 list \<Rightarrow> bool" where
  "idx_ok btf os \<longleftrightarrow> unat (b_nr_types btf) = length os \<and> length os \<le> unat (b_type_offs_cap btf) \<and>
     length (b_type_offs btf) = 4 * unat (b_type_offs_cap btf) \<and>
     unat (b_type_offs_cap btf) < 2 ^ 31 \<and>
     (\<forall>i < length os. ld32 (b_type_offs btf) (4 * i) = Some (os ! i))"

lemma ld32_append: "i + 4 \<le> length m \<Longrightarrow> ld32 (m @ m') i = ld32 m i"
  by (simp add: ld32_def ldn_def)

lemma ld32_st32:
  assumes "st32 m i w = Some m'"
  shows "ld32 m' i = Some w" "j + 4 \<le> i \<or> i + 4 \<le> j \<Longrightarrow> ld32 m' j = ld32 m j" "length m' = length m"
proof -
  have le: "i + 4 \<le> length m" and m': "m' = overwrite i (le_bytes 4 (unat w)) m"
    using assms by (auto simp: st32_def stn_def overwrite_def split: if_splits)
  show "ld32 m' i = Some w" "length m' = length m"
    unfolding m' ld32_def using le
    by (simp_all add: ldn_overwrite_same length_overwrite of_nat_le_val_le_bytes)
  show "ld32 m' j = ld32 m j" if "j + 4 \<le> i \<or> i + 4 \<le> j"
    unfolding m' ld32_def using le that by (simp add: ldn_overwrite_other)
qed

lemma st32_in_range: "i + 4 \<le> length m \<Longrightarrow> \<exists>m'. st32 m i w = Some m'"
  by (simp add: st32_def stn_def)

lemma unat_ucast_u64: "unat (ucast (n :: u32) :: u64) = unat n"
  by (simp add: unsigned_ucast_eq take_bit_nat_eq_self order_less_le_trans [OF unsigned_less])

lemma add_type_idx_entry_ok:
  assumes "idx_ok btf os" "length os + 1 < 2 ^ 31"
  shows "\<exists>btf'. (btf_add_type_idx_entry al btf off = Some (- ENOMEM, btf') \<and> btf' = btf \<or>
     (\<exists>offs cap_cnt. btf' = btf\<lparr>b_type_offs := offs, b_type_offs_cap := cap_cnt\<rparr> \<and>
       btf_add_type_idx_entry al btf off = Some (0, btf') \<and>
       idx_ok (btf'\<lparr>b_nr_types := b_nr_types btf' + 1\<rparr>) (os @ [off])))"
proof -
  note ix = assms(1) [unfolded idx_ok_def]
  let ?cap = "b_type_offs_cap btf" and ?cur = "ucast (b_nr_types btf) :: u64"
  have region: "region_ok (b_type_offs btf) ?cap 4" using ix by (simp add: region_ok_def)
  have cur: "unat ?cur = length os" using ix by (simp only: unat_ucast_u64)
  have le: "?cur \<le> ?cap" using ix cur by (simp only: word_le_nat_alt)
  have small: "unat ?cur + unat (1 :: u64) < 2 ^ 62" using ix cur by simp
  have cur1: "unat (?cur + 1) = length os + 1"
    using cur ix by (simp add: unat_word_ariths)
  let ?ok = "al_offs al (unat (b_nr_types btf))"
  obtain r where r: "libbpf_add_mem ?ok (al_junk al) (b_type_offs btf) ?cap 4 ?cur (ucast BTF_MAX_NR_TYPES) 1 = Some r"
    and sp: "case r of None \<Rightarrow> ?cap < ?cur + 1
     | Some (p, data', cap') \<Rightarrow>
         p = ?cur * 4 \<and> ?cap \<le> cap' \<and> ?cur + 1 \<le> cap' \<and>
         length data' = unat cap' * unat (4 :: u64) \<and>
         data' = b_type_offs btf @ replicate (length data' - length (b_type_offs btf)) 0 \<and>
         (cap' = ?cap \<or> cap' \<le> ucast BTF_MAX_NR_TYPES)"
    using libbpf_add_mem_spec [OF region _ le small, of ?ok "al_junk al" "ucast BTF_MAX_NR_TYPES"] by auto
  show ?thesis
  proof (cases r)
    case None
    then show ?thesis using r by (simp add: btf_add_type_idx_entry_def)
  next
    case (Some a)
    obtain p data' cap' where a: "a = (p, data', cap')" by (cases a)
    note sp' = sp [unfolded Some a option.case prod.case]
    have s: "p = ?cur * 4" "?cur + 1 \<le> cap'" "cap' = ?cap \<or> cap' \<le> ucast BTF_MAX_NR_TYPES"
      and grown: "data' = b_type_offs btf @ replicate (length data' - length (b_type_offs btf)) 0"
      using sp' by blast+
    have len: "length data' = unat cap' * 4" using sp' by simp
    have p: "unat p = 4 * length os"
      using cur ix by (simp add: s(1) unat_word_ariths)
    have cap: "unat cap' < 2 ^ 31" using s(3) ix by (auto simp: word_le_nat_alt)
    have fits: "length os + 1 \<le> unat cap'" using s(2) cur1 by (simp add: word_le_nat_alt)
    then obtain offs where offs: "st32 data' (4 * length os) off = Some offs"
      using st32_in_range [of "4 * length os" data' off] len by auto
    have old: "ld32 data' (4 * i) = Some (os ! i)" if "i < length os" for i
      using that ix by (subst grown) (simp add: ld32_append)
    have entry: "ld32 offs (4 * i) = Some ((os @ [off]) ! i)" if "i < length (os @ [off])" for i
      using ld32_st32 [OF offs] old [of i] that by (cases "i = length os") (auto simp: nth_append)
    have nr: "unat (b_nr_types btf + 1) = length os + 1"
      using ix assms(2) by (simp add: unat_word_ariths)
    let ?b = "btf\<lparr>b_type_offs := offs, b_type_offs_cap := cap'\<rparr>"
    have "btf_add_type_idx_entry al btf off = Some (0, ?b)"
      using r by (simp add: btf_add_type_idx_entry_def Some a p offs)
    moreover have "idx_ok (?b\<lparr>b_nr_types := b_nr_types ?b + 1\<rparr>) (os @ [off])"
      using nr fits cap entry ld32_st32(3) [OF offs] len by (simp add: idx_ok_def)
    ultimately show ?thesis by blast
  qed
qed

section \<open>Types one behind the other\<close>

fun types_chain :: "bytes \<Rightarrow> nat \<Rightarrow> nat list \<Rightarrow> nat \<Rightarrow> bool" where
  "types_chain m t [] e \<longleftrightarrow> t = e"
| "types_chain m t (p # ps) e \<longleftrightarrow> p = t \<and>
     (\<exists>n \<ge> 0. btf_type_size (Btf_at m t) = Some n \<and> types_chain m (t + nat n) ps e)"

lemma type_size_cong:
  "ld32 m' (t + 4) = ld32 m (t + 4) \<Longrightarrow> btf_type_size (Btf_at m' t) = btf_type_size (Btf_at m t)"
  by (simp add: btf_type_size_def btf_vlen_def btf_kind_def t_info_def)

lemma types_chain_le: "types_chain m t ps e \<Longrightarrow> t + 12 * length ps \<le> e"
proof (induction ps arbitrary: t)
  case (Cons p ps)
  then obtain n where n: "0 \<le> n" "btf_type_size (Btf_at m t) = Some n" "types_chain m (t + nat n) ps e"
    by auto
  have "t + nat n + 12 * length ps \<le> e" by (rule Cons.IH [OF n(3)])
  then show ?case using btf_type_size_ge [OF n(2,1)] by simp
qed simp

lemma types_chain_frame:
  "types_chain m t ps e \<Longrightarrow> (\<And>j. t \<le> j \<Longrightarrow> j + 4 \<le> e \<Longrightarrow> ld32 m' j = ld32 m j) \<Longrightarrow> types_chain m' t ps e"
proof (induction ps arbitrary: t)
  case (Cons p ps)
  then obtain n where p: "p = t" and n: "0 \<le> n" "btf_type_size (Btf_at m t) = Some n"
    "types_chain m (t + nat n) ps e"
    by auto
  have "12 \<le> n" by (rule btf_type_size_ge [OF n(2,1)])
  then have "t + 8 \<le> e" using types_chain_le [OF n(3)] by simp
  then have "btf_type_size (Btf_at m' t) = Some n"
    using n(2) Cons.prems(2) [of "t + 4"] type_size_cong [of m' t m] by simp
  moreover have "types_chain m' (t + nat n) ps e"
    by (rule Cons.IH [OF n(3)]) (rule Cons.prems(2), simp_all)
  ultimately show ?case using p n(1) by auto
qed simp

lemma types_chain_append:
  "types_chain m t (ps @ qs) e \<longleftrightarrow> (\<exists>mid. types_chain m t ps mid \<and> types_chain m mid qs e)"
  by (induction ps arbitrary: t) auto

lemma types_chain_nth:
  assumes "types_chain m t ps e" "i < length ps"
  shows "\<exists>n. btf_type_size (Btf_at m (ps ! i)) = Some n \<and> 12 \<le> n \<and> t \<le> ps ! i \<and> ps ! i + nat n \<le> e"
  using assms
proof (induction ps arbitrary: t i)
  case (Cons p ps)
  then obtain n where p: "p = t" and n: "0 \<le> n" "btf_type_size (Btf_at m t) = Some n"
    "types_chain m (t + nat n) ps e"
    by auto
  show ?case
  proof (cases i)
    case 0
    then show ?thesis using p n types_chain_le [OF n(3)] btf_type_size_ge [OF n(2,1)] by auto
  next
    case (Suc k)
    then show ?thesis using Cons.IH [OF n(3), of k] Cons.prems(2) by fastforce
  qed
qed simp


section \<open>Swapping in place\<close>

lemma nth_overwrite_other:
  assumes "i + length bs \<le> length m" "j < i \<or> i + length bs \<le> j" "j < length m"
  shows "overwrite i bs m ! j = m ! j"
  using assms by (auto simp: overwrite_def nth_append not_less min_def)

text \<open>\<open>m'\<close> is \<open>m\<close> outside the bytes from \<open>a\<close> to \<open>b\<close>.\<close>

definition frame :: "nat \<Rightarrow> nat \<Rightarrow> bytes \<Rightarrow> bytes \<Rightarrow> bool" where
  "frame a b m m' \<longleftrightarrow> length m' = length m \<and>
     (\<forall>j < length m. j < a \<or> b \<le> j \<longrightarrow> m' ! j = m ! j)"

lemma frame_refl [simp]: "frame a b m m"
  by (simp add: frame_def)

lemma frame_trans: "frame a b m m' \<Longrightarrow> frame a b m' m'' \<Longrightarrow> frame a b m m''"
  by (simp add: frame_def)

lemma frame_widen: "frame a b m m' \<Longrightarrow> a' \<le> a \<Longrightarrow> b \<le> b' \<Longrightarrow> frame a' b' m m'"
  by (auto simp: frame_def)

lemma frame_length: "frame a b m m' \<Longrightarrow> length m' = length m"
  by (simp add: frame_def)

lemma frame_ld32:
  assumes "frame a b m m'" "j + 4 \<le> a \<or> b \<le> j"
  shows "ld32 m' j = ld32 m j"
proof (cases "j + 4 \<le> length m")
  case True
  have len: "length m' = length m" using assms(1) by (rule frame_length)
  have "take 4 (drop j m') = take 4 (drop j m)"
  proof (rule nth_equalityI)
    fix i assume "i < length (take 4 (drop j m'))"
    then have "i < 4" "j + i < length m" using len by auto
    then show "take 4 (drop j m') ! i = take 4 (drop j m) ! i"
      using assms True len by (auto simp: frame_def)
  qed (simp add: len)
  then show ?thesis using len by (simp add: ld32_def ldn_def)
next
  case False
  then show ?thesis using frame_length [OF assms(1)] by (simp add: ld32_def ldn_def)
qed

lemma bswap_field_frame:
  assumes "a \<le> p" "p + 4 \<le> b" "b \<le> length m"
  obtains m' where "bswap_field m p = Some m'" "frame a b m m'"
    "ld32 m' p = map_option bswap_32 (ld32 m p)"
proof -
  have p: "p + 4 \<le> length m" using assms by simp
  then obtain w where w: "ld32 m p = Some w" by (auto simp: ld32_def ldn_def)
  let ?m = "overwrite p (le_bytes 4 (unat (bswap_32 w))) m"
  have m': "st32 m p (bswap_32 w) = Some ?m" using p by (simp add: st32_def stn_overwrite)
  have "frame a b m ?m"
    using p assms by (auto simp: frame_def length_overwrite nth_overwrite_other)
  then show ?thesis using that w m' ld32_st32(1) [OF m'] by (simp add: bswap_field_def)
qed

lemma bswap_flds_frame:
  "\<lbrakk>\<forall>f \<in> set flds. f + 4 \<le> width; a \<le> p; p + width \<le> b; b \<le> length m\<rbrakk> \<Longrightarrow>
    \<exists>m'. fold (\<lambda>f m. do { m \<leftarrow> m; bswap_field m (p + f) }) flds (Some m) = Some m' \<and> frame a b m m'"
proof (induction flds arbitrary: m)
  case (Cons f flds)
  obtain m1 where m1: "bswap_field m (p + f) = Some m1" "frame a b m m1"
    by (rule bswap_field_frame [of a "p + f" b m]) (use Cons.prems in auto)
  obtain m' where "fold (\<lambda>f m. do { m \<leftarrow> m; bswap_field m (p + f) }) flds (Some m1) = Some m'" "frame a b m1 m'"
    using Cons.IH [of m1] Cons.prems m1(2) by (auto simp: frame_length)
  then show ?case using m1 frame_trans by auto
qed simp

lemma bswap_structs_frame:
  "\<lbrakk>\<forall>f \<in> set flds. f + 4 \<le> width; a \<le> p; p + n * width \<le> b; b \<le> length m\<rbrakk> \<Longrightarrow>
    \<exists>m'. bswap_structs m p flds width n = Some m' \<and> frame a b m m'"
proof (induction n arbitrary: m p)
  case (Suc n)
  obtain m1 where m1: "fold (\<lambda>f m. do { m \<leftarrow> m; bswap_field m (p + f) }) flds (Some m) = Some m1" "frame a b m m1"
    using bswap_flds_frame [of flds width a p b m] Suc.prems by auto
  obtain m' where "bswap_structs m1 (p + width) flds width n = Some m'" "frame a b m1 m'"
    using Suc.IH [of "p + width" m1] Suc.prems m1(2) by (auto simp: frame_length)
  then show ?case using m1 frame_trans by auto
qed simp

lemma kind_readable:
  "t + 12 \<le> length m \<Longrightarrow> \<exists>k. btf_kind (Btf_at m t) = Some k"
  "t + 12 \<le> length m \<Longrightarrow> \<exists>k. btf_vlen (Btf_at m t) = Some k"
  "t + 12 \<le> length m \<Longrightarrow> \<exists>n. btf_type_size (Btf_at m t) = Some n"
  by (auto simp: btf_type_size_def btf_kind_def btf_vlen_def t_info_def ld32_def ldn_def)

lemma bswap_type_base_frame:
  assumes "t + 12 \<le> length m"
  shows "\<exists>m'. btf_bswap_type_base m t = Some m' \<and> frame t (t + 12) m m'"
proof -
  obtain m1 where m1: "bswap_field m t = Some m1" "frame t (t + 12) m m1"
    by (rule bswap_field_frame [of t t "t + 12" m]) (use assms in simp_all)
  obtain m2 where m2: "bswap_field m1 (t + 4) = Some m2" "frame t (t + 12) m1 m2"
    by (rule bswap_field_frame [of t "t + 4" "t + 12" m1]) (use assms m1 in \<open>simp_all add: frame_def\<close>)
  obtain m3 where m3: "bswap_field m2 (t + 8) = Some m3" "frame t (t + 12) m2 m3"
    by (rule bswap_field_frame [of t "t + 8" "t + 12" m2]) (use assms m1 m2 in \<open>simp_all add: frame_def\<close>)
  have "frame t (t + 12) m m3" by (rule frame_trans [OF m1(2) frame_trans [OF m2(2) m3(2)]])
  then show ?thesis using m1(1) m2(1) m3(1) by (simp add: btf_bswap_type_base_def)
qed

lemma bswap_type_rest_frame:
  assumes "btf_type_size (Btf_at m t) = Some n" "0 \<le> n" "t + nat n \<le> length m"
  shows "\<exists>m'. btf_bswap_type_rest m t = Some (0, m') \<and> frame (t + 12) (t + nat n) m m'"
proof -
  have "t + 12 \<le> length m" using btf_type_size_ge [OF assms(1,2)] assms(3) by simp
  then obtain k v where k: "btf_kind (Btf_at m t) = Some k" and v: "btf_vlen (Btf_at m t) = Some v"
    using kind_readable by blast
  have vl: "nat (uint v * w) = unat v * nat w" if "0 \<le> w" for w
    by (simp add: nat_mult_distrib)
  have structs: "\<exists>m'. bswap_structs m (t + 12) flds width c = Some m' \<and> frame (t + 12) (t + nat n) m m'"
    if "\<forall>f \<in> set flds. f + 4 \<le> width" "12 + int c * int width \<le> n" for flds width c
  proof (rule bswap_structs_frame [OF that(1) order_refl])
    show "t + 12 + c * width \<le> t + nat n" using that(2) assms(2) by (simp add: le_nat_iff)
  qed (rule assms(3))
  have field: "\<exists>m'. bswap_field m (t + 12) = Some m' \<and> frame (t + 12) (t + nat n) m m'" if "16 \<le> n"
    by (rule bswap_field_frame [of "t + 12" "t + 12" "t + nat n" m]) (use assms(3) that in auto)
  note size = assms(1) [unfolded btf_type_size_def k v bind.simps Let_def]
  consider "k \<in> {BTF_KIND_FWD, BTF_KIND_CONST, BTF_KIND_VOLATILE, BTF_KIND_RESTRICT, BTF_KIND_PTR,
      BTF_KIND_TYPEDEF, BTF_KIND_FUNC, BTF_KIND_FLOAT}"
    | "k \<in> {BTF_KIND_INT, BTF_KIND_VAR}" "16 \<le> n"
    | "k \<in> {BTF_KIND_ENUM, BTF_KIND_FUNC_PROTO}" "12 + int (unat v) * 8 \<le> n"
    | "k = BTF_KIND_ARRAY" "24 \<le> n"
    | "k \<in> {BTF_KIND_STRUCT, BTF_KIND_UNION, BTF_KIND_DATASEC}" "12 + int (unat v) * 12 \<le> n"
    using size assms(2) by (simp split: if_splits; blast)
  then show ?thesis
  proof cases
    case 1
    then show ?thesis unfolding btf_bswap_type_rest_def k v bind.simps Let_def by auto
  next
    case 2
    then show ?thesis
      using field unfolding btf_bswap_type_rest_def k v bind.simps Let_def by auto
  next
    case 3
    then show ?thesis
      using structs [of "[0, 4]" 8 "unat v"] unfolding btf_bswap_type_rest_def k v bind.simps Let_def by auto
  next
    case 4
    then show ?thesis
      using structs [of "[0, 4, 8]" 12 1] unfolding btf_bswap_type_rest_def k v bind.simps Let_def by auto
  next
    case 5
    then show ?thesis
      using structs [of "[0, 4, 8]" 12 "unat v"] unfolding btf_bswap_type_rest_def k v bind.simps Let_def
      by auto
  qed
qed
section \<open>The type section\<close>

definition at_types :: "nat \<Rightarrow> u32 list \<Rightarrow> nat list" where
  "at_types types os = map (\<lambda>off. types + unat off) os"

lemma at_types_snoc: "at_types types (os @ [off]) = at_types types os @ [types + unat off]"
  by (simp add: at_types_def)

text \<open>What the loop changes of the object.\<close>

definition parsed :: "btf \<Rightarrow> bytes \<Rightarrow> nat \<Rightarrow> btf \<Rightarrow> bool" where
  "parsed btf m types btf' \<longleftrightarrow> (\<exists>offs cap_cnt nr. btf' = btf\<lparr>b_types_data := (m, types), b_type_offs := offs,
     b_type_offs_cap := cap_cnt, b_nr_types := nr\<rparr>)"

lemma parsed_trans: "parsed btf m types btf1 \<Longrightarrow> parsed btf1 m' types btf2 \<Longrightarrow> parsed btf m' types btf2"
  unfolding parsed_def by (elim exE, simp) ((rule exI)+, rule refl)

lemma parsed_types [simp]: "parsed btf m types btf' \<Longrightarrow> b_types_data btf' = (m, types)"
  by (auto simp: parsed_def)

lemma parsed_keeps:
  "parsed btf m types btf' \<Longrightarrow> b_hdr btf' = b_hdr btf"
  "parsed btf m types btf' \<Longrightarrow> b_start_id btf' = b_start_id btf"
  "parsed btf m types btf' \<Longrightarrow> b_start_str_off btf' = b_start_str_off btf"
  by (auto simp: parsed_def)

text \<open>One round on a type that fits.\<close>

lemma parse_type_round:
  assumes m: "b_types_data btf = (m, types)" "next + 12 \<le> fin" "fin \<le> length m"
  shows "\<exists>m1 n. frame next fin m m1 \<and> btf_type_size (Btf_at m1 next) = Some n \<and>
    (if b_swapped_endian btf then btf_bswap_type_base m next else Some m) = Some m1 \<and>
    (0 \<le> n \<longrightarrow> next + nat n \<le> fin \<longrightarrow> (\<exists>m2. frame next fin m m2 \<and>
      (if b_swapped_endian btf then btf_bswap_type_rest m1 next else Some (0, m1)) = Some (0, m2) \<and>
      btf_type_size (Btf_at m2 next) = Some n))"
proof -
  have le: "next + 12 \<le> length m" using m(2,3) by simp
  obtain m1 where m1: "(if b_swapped_endian btf then btf_bswap_type_base m next else Some m) = Some m1"
    "frame next (next + 12) m m1"
    using bswap_type_base_frame [OF le] by (cases "b_swapped_endian btf") auto
  have len: "length m1 = length m" using m1(2) by (simp add: frame_def)
  obtain n where n: "btf_type_size (Btf_at m1 next) = Some n" using kind_readable(3) len le by metis
  have f1: "frame next fin m m1" by (rule frame_widen [OF m1(2) order_refl m(2)])
  have "\<exists>m2. frame next fin m m2 \<and>
      (if b_swapped_endian btf then btf_bswap_type_rest m1 next else Some (0, m1)) = Some (0, m2) \<and>
      btf_type_size (Btf_at m2 next) = Some n" if fits: "0 \<le> n" "next + nat n \<le> fin"
  proof (cases "b_swapped_endian btf")
    case False
    then show ?thesis using f1 n by auto
  next
    case True
    obtain m2 where m2: "btf_bswap_type_rest m1 next = Some (0, m2)" "frame (next + 12) (next + nat n) m1 m2"
      using bswap_type_rest_frame [OF n fits(1)] fits(2) m(3) len by auto
    have "frame next fin m1 m2" by (rule frame_widen [OF m2(2)]) (use fits in simp_all)
    moreover have "btf_type_size (Btf_at m2 next) = Some n"
      using n type_size_cong [OF frame_ld32 [OF m2(2)]] by simp
    ultimately show ?thesis using True m2(1) frame_trans [OF f1] by auto
  qed
  then show ?thesis using m1(1) f1 n by blast
qed

lemma parse_type_loop_ok:
  assumes "b_types_data btf = (m, types)" "next \<le> fin" "fin \<le> length m" "length m < 2 ^ 32"
    "idx_ok btf os" "types_chain m types (at_types types os) next"
  shows "\<exists>err btf' m'. btf_parse_type_loop al next fin btf = Some (err, btf') \<and> parsed btf m' types btf' \<and>
    frame next fin m m' \<and> (err = 0 \<longrightarrow> (\<exists>os'. idx_ok btf' os' \<and> types_chain m' types (at_types types os') fin))"
  using assms
proof (induction "fin - next" arbitrary: "next" btf m os rule: less_induct)
  case less
  note prems = less.prems
  have self: "parsed btf m types btf"
    unfolding parsed_def using prems(1)
    by (intro exI [of _ "b_type_offs btf"] exI [of _ "b_type_offs_cap btf"] exI [of _ "b_nr_types btf"]) simp
  show ?case
  proof (cases "next + 12 \<le> fin")
    case False
    then have "btf_parse_type_loop al next fin btf = Some (if next \<noteq> fin then - EINVAL else 0, btf)"
      by (simp add: btf_parse_type_loop.simps)
    then show ?thesis using self prems(5,6) by fastforce
  next
    case True
    obtain m1 n where f1: "frame next fin m m1"
      and n: "btf_type_size (Btf_at m1 next) = Some n"
      and r1: "(if b_swapped_endian btf then btf_bswap_type_base m next else Some m) = Some m1"
      and rest: "0 \<le> n \<Longrightarrow> next + nat n \<le> fin \<Longrightarrow> \<exists>m2. frame next fin m m2 \<and>
        (if b_swapped_endian btf then btf_bswap_type_rest m1 next else Some (0, m1)) = Some (0, m2) \<and>
        btf_type_size (Btf_at m2 next) = Some n"
      using parse_type_round [OF prems(1) True prems(3)] by blast
    let ?b1 = "btf\<lparr>b_types_data := (m1, types)\<rparr>"
    have p1: "parsed btf m1 types ?b1"
      unfolding parsed_def
      by (intro exI [of _ "b_type_offs btf"] exI [of _ "b_type_offs_cap btf"] exI [of _ "b_nr_types btf"]) simp
    show ?thesis
    proof (cases "0 \<le> n \<and> next + nat n \<le> fin")
      case False
      then have "\<exists>err. err \<noteq> 0 \<and> btf_parse_type_loop al next fin btf = Some (err, ?b1)"
        using True n r1 prems(1)
        by (subst btf_parse_type_loop.simps) (auto simp: Let_def)
      then show ?thesis using p1 f1 by blast
    next
      case fits: True
      then obtain m2 where f2: "frame next fin m m2"
        and r2: "(if b_swapped_endian btf then btf_bswap_type_rest m1 next else Some (0, m1)) = Some (0, m2)"
        and n2: "btf_type_size (Btf_at m2 next) = Some n" using rest by blast
      let ?b2 = "btf\<lparr>b_types_data := (m2, types)\<rparr>"
      let ?off = "of_nat (next - types) :: u32"
      have le: "types + 12 * length os \<le> next" using types_chain_le [OF prems(6)] by (simp add: at_types_def)
      have off: "unat ?off = next - types"
        unfolding unsigned_of_nat using prems(2,3,4) le by (simp add: take_bit_nat_eq_self)
      have small: "length os + 1 < 2 ^ 31" using le prems(2,3,4) True by simp
      have idx2: "idx_ok ?b2 os" using prems(5) by (simp add: idx_ok_def)
      have step: "btf_parse_type_loop al next fin btf =
          do { (err, btf) \<leftarrow> btf_add_type_idx_entry al ?b2 ?off;
               if err \<noteq> 0 then Some (err, btf)
               else btf_parse_type_loop al (next + nat n) fin (btf\<lparr>b_nr_types := b_nr_types btf + 1\<rparr>) }"
        using True n r1 r2 fits prems(1)
        by (subst btf_parse_type_loop.simps) (simp add: Let_def)
      obtain b3 where "btf_add_type_idx_entry al ?b2 ?off = Some (- ENOMEM, b3) \<and> b3 = ?b2 \<or>
         (\<exists>offs cap_cnt. b3 = ?b2\<lparr>b_type_offs := offs, b_type_offs_cap := cap_cnt\<rparr> \<and>
           btf_add_type_idx_entry al ?b2 ?off = Some (0, b3) \<and>
           idx_ok (b3\<lparr>b_nr_types := b_nr_types b3 + 1\<rparr>) (os @ [?off]))"
        using add_type_idx_entry_ok [OF idx2 small, of al ?off] by blast
      then show ?thesis
      proof (elim disjE exE conjE)
        assume fail: "btf_add_type_idx_entry al ?b2 ?off = Some (- ENOMEM, b3)" "b3 = ?b2"
        have "parsed btf m2 types ?b2"
          unfolding parsed_def
          by (intro exI [of _ "b_type_offs btf"] exI [of _ "b_type_offs_cap btf"] exI [of _ "b_nr_types btf"]) simp
        then show ?thesis using step fail f2 by auto
      next
        fix offs cap_cnt
        assume b3: "b3 = ?b2\<lparr>b_type_offs := offs, b_type_offs_cap := cap_cnt\<rparr>"
          and good: "btf_add_type_idx_entry al ?b2 ?off = Some (0, b3)"
          and idx: "idx_ok (b3\<lparr>b_nr_types := b_nr_types b3 + 1\<rparr>) (os @ [?off])"
        let ?b4 = "b3\<lparr>b_nr_types := b_nr_types b3 + 1\<rparr>"
        have "12 \<le> n" using btf_type_size_ge [OF n] fits by blast
        then have dec: "fin - (next + nat n) < fin - next" using True by simp
        have len: "length m2 = length m" using f2 by (simp add: frame_def)
        have "types_chain m2 types (at_types types os) next"
          by (rule types_chain_frame [OF prems(6)]) (use frame_ld32 [OF f2] in simp)
        moreover have "types_chain m2 next [types + unat ?off] (next + nat n)"
          using n2 fits off le by simp
        ultimately have chain: "types_chain m2 types (at_types types (os @ [?off])) (next + nat n)"
          unfolding at_types_snoc types_chain_append by blast
        have b4: "b_types_data ?b4 = (m2, types)" by (simp add: b3)
        have rest: "next + nat n \<le> fin" using fits by blast
        obtain err btf' m' where r: "btf_parse_type_loop al (next + nat n) fin ?b4 = Some (err, btf')"
          "parsed ?b4 m' types btf'" "frame (next + nat n) fin m2 m'"
          "err = 0 \<Longrightarrow> \<exists>os'. idx_ok btf' os' \<and> types_chain m' types (at_types types os') fin"
          using less.hyps [OF dec b4 rest _ _ idx chain] prems(3,4) len by auto
        have "parsed btf m2 types ?b4" unfolding parsed_def b3
          by (intro exI [of _ offs] exI [of _ cap_cnt] exI [of _ "b_nr_types btf + 1"]) simp
        then have "parsed btf m' types btf'" using r(2) by (rule parsed_trans)
        moreover have "frame next fin m m'"
          by (rule frame_trans [OF f2 frame_widen [OF r(3)]]) simp_all
        moreover have "btf_parse_type_loop al next fin btf = Some (err, btf')"
          using step good r(1) by simp
        ultimately show ?thesis using r(4) by blast
      qed
    qed
  qed
qed
section \<open>Loading\<close>

text \<open>A loaded or built object: its types fill the type section, its strings end in a zero.\<close>

definition types_ok :: "btf \<Rightarrow> bool" where
  "types_ok btf \<longleftrightarrow> (\<exists>os m types. b_types_data btf = (m, types) \<and> idx_ok btf os \<and>
     types_chain m types (at_types types os) (types + unat (h_type_len (b_hdr btf))) \<and>
     types + unat (h_type_len (b_hdr btf)) \<le> length m)"

definition strs_ok :: "bytes \<Rightarrow> nat \<Rightarrow> nat \<Rightarrow> bool" where
  "strs_ok m p len \<longleftrightarrow> p + len \<le> length m \<and> (0 < len \<longrightarrow> m ! (p + len - 1) = 0)"

definition btf_ok :: "btf \<Rightarrow> bool" where
  "btf_ok btf \<longleftrightarrow> types_ok btf \<and>
     (\<exists>m p. btf_strs_data btf = Some (m, p) \<and> strs_ok m p (unat (h_str_len (b_hdr btf))))"

text \<open>
  What \<open>btf_parse_hdr\<close> does not check: the length of a native header, and sums that wrap around.
\<close>

definition native_hdr :: "bytes \<Rightarrow> btf_header option" where
  "native_hdr data = map_option (\<lambda>h. if h_magic h = bswap_16 BTF_MAGIC then btf_bswap_hdr h else h) (get_hdr data)"

definition hdr_sane :: "bytes \<Rightarrow> bool" where
  "hdr_sane data = (case native_hdr data of
     None \<Rightarrow> True
   | Some h \<Rightarrow> h_hdr_len h = 24 \<and> unat (h_str_off h) + unat (h_str_len h) < 2 ^ 32 \<and>
       unat (h_type_off h) + unat (h_type_len h) < 2 ^ 32)"

lemma length_hdr_bytes [simp]: "length (hdr_bytes h) = 24"
  by (simp add: hdr_bytes_def)

lemma get_hdr_in_range: "24 \<le> length m \<Longrightarrow> \<exists>h. get_hdr m = Some h"
  by (simp add: get_hdr_def ld16_def ld32_def ld8_def ldn_def)

text \<open>The outcome of the header check: an error, or sections that lie in the data.\<close>

definition sections_fit :: "btf_header \<Rightarrow> nat \<Rightarrow> bool" where
  "sections_fit h n \<longleftrightarrow> h_hdr_len h = 24 \<and>
     24 + unat (h_str_off h) + unat (h_str_len h) \<le> n \<and>
     unat (h_type_off h) + unat (h_type_len h) \<le> unat (h_str_off h)"

lemma bswap_16_magic: "bswap_16 BTF_MAGIC = 0x9feb"
  by (simp add: builtin_bswap16_def le_bytes_2)

lemma unat_meta_left: "\<not> r < (24 :: u32) \<Longrightarrow> unat (r - 24) = unat r - 24"
  by (simp add: unat_sub not_less)

lemma parse_hdr_checks:
  assumes "unat (h_str_off h) + unat (h_str_len h) < 2 ^ 32" "unat (h_type_off h) + unat (h_type_len h) < 2 ^ 32"
    "h_hdr_len h = 24" "\<not> r < 24"
  shows "(if r - 24 < h_str_off h + h_str_len h then Some (- EINVAL, b)
     else if h_type_off h + h_type_len h > h_str_off h then Some (- EINVAL, b)
     else if h_type_off h mod 4 \<noteq> 0 then Some (- EINVAL, b) else Some (0, b)) =
     Some (if sections_fit h (unat r) \<and> h_type_off h mod 4 = 0 then 0 else - EINVAL, b)"
proof -
  have sums: "unat (h_str_off h + h_str_len h) = unat (h_str_off h) + unat (h_str_len h)"
    "unat (h_type_off h + h_type_len h) = unat (h_type_off h) + unat (h_type_len h)"
    using assms by (simp_all add: unat_word_ariths)
  have "24 \<le> unat r" using assms(4) by (simp add: word_less_nat_alt)
  then show ?thesis
    by (simp add: sections_fit_def word_less_nat_alt sums unat_meta_left [OF assms(4)] assms(3)) arith
qed

lemma parse_hdr_ok:
  assumes "b_raw_data btf = Some data" "length data = unat (b_raw_size btf)" "hdr_sane data"
  shows "\<exists>err btf'. btf_parse_hdr btf = Some (err, btf') \<and>
    (err = 0 \<longrightarrow> (\<exists>raw h sw. btf' = btf\<lparr>b_swapped_endian := sw, b_raw_data := Some raw, b_hdr := h\<rparr> \<and>
      native_hdr data = Some h \<and> length raw = length data \<and> sections_fit h (length data)))"
proof (cases "b_raw_size btf < 24")
  case True
  then show ?thesis by (simp add: btf_parse_hdr_def)
next
  case False
  then have len: "24 \<le> length data" using assms(2) by (simp add: word_less_nat_alt)
  obtain h where h: "get_hdr data = Some h" using get_hdr_in_range [OF len] by blast
  consider "h_magic h = bswap_16 BTF_MAGIC" | "h_magic h = BTF_MAGIC"
    | "h_magic h \<noteq> bswap_16 BTF_MAGIC" "h_magic h \<noteq> BTF_MAGIC" by blast
  then show ?thesis
  proof cases
    case 1
    let ?h = "btf_bswap_hdr h"
    have nat: "native_hdr data = Some ?h" using 1 by (simp add: native_hdr_def h)
    then have sane: "h_hdr_len ?h = 24" "unat (h_str_off ?h) + unat (h_str_len ?h) < 2 ^ 32"
      "unat (h_type_off ?h) + unat (h_type_len ?h) < 2 ^ 32"
      using assms(3) by (simp_all add: hdr_sane_def)
    have "bswap_32 (h_hdr_len h) = 24" using sane(1) by (simp add: btf_bswap_hdr_def)
    moreover obtain raw where raw: "stn data 0 (hdr_bytes ?h) = Some raw" "length raw = length data"
      using stn_ok [of 0 "hdr_bytes ?h" data] len by auto
    ultimately have "btf_parse_hdr btf = Some
      (if sections_fit ?h (unat (b_raw_size btf)) \<and> h_type_off ?h mod 4 = 0 then 0 else - EINVAL,
       btf\<lparr>b_swapped_endian := True, b_raw_data := Some raw, b_hdr := ?h\<rparr>)"
      using parse_hdr_checks [OF sane(2,3,1) False] 1 False
      by (simp add: btf_parse_hdr_def assms(1) h Let_def split del: if_split cong: if_cong)
    then show ?thesis using nat raw(2) assms(2) by auto
  next
    case 2
    then have nat: "native_hdr data = Some h" by (simp add: native_hdr_def h bswap_16_magic)
    then have sane: "h_hdr_len h = 24" "unat (h_str_off h) + unat (h_str_len h) < 2 ^ 32"
      "unat (h_type_off h) + unat (h_type_len h) < 2 ^ 32"
      using assms(3) by (simp_all add: hdr_sane_def)
    have res: "btf_parse_hdr btf = Some
      (if sections_fit h (unat (b_raw_size btf)) \<and> h_type_off h mod 4 = 0 then 0 else - EINVAL,
       btf\<lparr>b_hdr := h\<rparr>)"
      using parse_hdr_checks [OF sane(2,3,1) False] 2 False
      by (simp add: btf_parse_hdr_def assms(1) h Let_def bswap_16_magic split del: if_split cong: if_cong)
    have eq: "btf\<lparr>b_hdr := h\<rparr> =
        btf\<lparr>b_swapped_endian := b_swapped_endian btf, b_raw_data := Some data, b_hdr := h\<rparr>"
      using assms(1) by (cases btf) simp
    show ?thesis
    proof (intro exI conjI impI)
      assume "(if sections_fit h (unat (b_raw_size btf)) \<and> h_type_off h mod 4 = 0 then 0 else - EINVAL) = 0"
      then show "sections_fit h (length data)" using assms(2) by (simp split: if_splits)
    qed (rule res eq nat refl)+
  next
    case 3
    then have "btf_parse_hdr btf = Some (- EINVAL, btf\<lparr>b_hdr := h\<rparr>)"
      using False by (simp add: btf_parse_hdr_def assms(1) h Let_def)
    then show ?thesis by simp
  qed
qed
definition tied_to :: "btf list \<Rightarrow> btf \<Rightarrow> bool" where
  "tied_to base btf \<longleftrightarrow>
     b_start_id btf = (case base of [] \<Rightarrow> 1 | b # bs \<Rightarrow> btf__get_nr_types b + 1) \<and>
     b_start_str_off btf = (case base of [] \<Rightarrow> 0 | b # bs \<Rightarrow> h_str_len (b_hdr b))"

lemma parse_str_sec_ok:
  assumes "b_strs_data btf = Some (m, p)" "0 < p" "p + unat (h_str_len (b_hdr btf)) \<le> length m"
  shows "\<exists>err. btf_parse_str_sec btf has_base = Some err \<and>
    (err = 0 \<longrightarrow> strs_ok m p (unat (h_str_len (b_hdr btf))))"
proof (cases "h_str_len (b_hdr btf) = 0")
  case True
  then show ?thesis using assms by (simp add: btf_parse_str_sec_def strs_ok_def)
next
  case False
  then have "0 < unat (h_str_len (b_hdr btf))" by (simp add: word_less_nat_alt unat_gt_0)
  moreover from this have "p < length m" "p + unat (h_str_len (b_hdr btf)) - 1 < length m" using assms(3) by simp_all
  ultimately show ?thesis
    using assms False by (auto simp: btf_parse_str_sec_def strs_ok_def ld8_def Let_def)
qed

lemma strs_ok_frame:
  assumes "strs_ok m p len" "frame a b m m'" "b \<le> p"
  shows "strs_ok m' p len"
  using assms by (auto simp: strs_ok_def frame_def)

lemma idx_ok_empty: "b_nr_types btf = 0 \<Longrightarrow> b_type_offs btf = [] \<Longrightarrow> b_type_offs_cap btf = 0 \<Longrightarrow> idx_ok btf []"
  by (simp add: idx_ok_def)

lemma split_from_fields:
  "b_nr_types (split_from base zero_btf) = 0" "b_type_offs (split_from base zero_btf) = []"
  "b_type_offs_cap (split_from base zero_btf) = 0" "tied_to base (split_from base zero_btf)"
  "b_raw_data (split_from base zero_btf) = None"
  by (simp_all add: split_from_def zero_btf_def Let_def tied_to_def split: list.splits)


text \<open>From a good header on: the string section, then the type section.\<close>

lemma parse_sections_ok:
  assumes f: "b_hdr btf = h" "b_strs_data btf = Some (raw, 24 + unat (h_str_off h))"
    "b_types_data btf = (raw, 24 + unat (h_type_off h))" "tied_to base btf" "idx_ok btf []"
    and fit: "sections_fit h (length raw)" "length raw < 2 ^ 32"
  shows "\<exists>serr. btf_parse_str_sec btf (base \<noteq> []) = Some serr \<and>
    (serr = 0 \<longrightarrow> (\<exists>terr btf' m'. btf_parse_type_sec al btf = Some (terr, btf') \<and>
      fst (b_types_data btf') = m' \<and>
      (terr = 0 \<longrightarrow> (let btf' = btf'\<lparr>b_raw_data := Some m', b_strs_data := Some (m', 24 + unat (h_str_off h))\<rparr> in
        btf_ok btf' \<and> tied_to base btf'))))"
proof -
  let ?strs = "24 + unat (h_str_off h)" and ?types = "24 + unat (h_type_off h)"
  let ?fin = "?types + unat (h_type_len h)"
  have ends: "?strs + unat (h_str_len h) \<le> length raw" "?fin \<le> ?strs"
    using fit by (simp_all add: sections_fit_def)
  obtain serr where serr: "btf_parse_str_sec btf (base \<noteq> []) = Some serr"
    and strs: "serr = 0 \<Longrightarrow> strs_ok raw ?strs (unat (h_str_len h))"
    using parse_str_sec_ok [OF f(2), of "base \<noteq> []"] ends(1) f(1) by auto
  have ch: "types_chain raw ?types (at_types ?types []) ?types" by (simp add: at_types_def)
  have le: "?types \<le> ?fin" "?fin \<le> length raw" using ends by simp_all
  obtain terr b3 m' where loop: "btf_parse_type_loop al ?types ?fin btf = Some (terr, b3)"
    and p3: "parsed btf m' ?types b3" and fr: "frame ?types ?fin raw m'"
    and ok: "terr = 0 \<Longrightarrow> \<exists>os. idx_ok b3 os \<and> types_chain m' ?types (at_types ?types os) ?fin"
    using parse_type_loop_ok [OF f(3) le fit(2) f(5) ch, of al] by blast
  define b4 where "b4 = b3\<lparr>b_raw_data := Some m', b_strs_data := Some (m', ?strs)\<rparr>"
  have sec: "btf_parse_type_sec al btf = Some (terr, b3)" using loop f by (simp add: btf_parse_type_sec_def)
  have "btf_ok b4 \<and> tied_to base b4" if t0: "serr = 0" "terr = 0"
  proof -
    obtain os where os: "idx_ok b3 os" "types_chain m' ?types (at_types ?types os) ?fin"
      using ok [OF t0(2)] by blast
    have h4: "b_hdr b4 = h" "b_types_data b4 = (m', ?types)" "tied_to base b4" "idx_ok b4 os"
      using parsed_keeps [OF p3] f(1,4) parsed_types [OF p3] os(1) by (simp_all add: b4_def tied_to_def idx_ok_def)
    then have "types_ok b4"
      using os(2) le(2) frame_length [OF fr] unfolding types_ok_def by auto
    moreover have "strs_ok m' ?strs (unat (h_str_len h))"
      by (rule strs_ok_frame [OF strs [OF t0(1)] fr ends(2)])
    ultimately show ?thesis using h4 by (simp add: btf_ok_def b4_def btf_strs_data_def)
  qed
  then show ?thesis using serr sec parsed_types [OF p3] unfolding b4_def Let_def by simp
qed

text \<open>
  C23. Loading BTF of either byte order from memory, with a header whose lengths are sane, makes
  no access outside the data, whatever the data and the allocations; an object that results is
  in shape: its types lie one behind the other in the type section and fill it, the index has
  their offsets, the strings end in a zero, and it is tied to its base.
\<close>

theorem btf_new_safe:
  assumes "length data = unat data_sz" "hdr_sane data"
  shows "\<exists>r. btf_new al data data_sz base = Some r \<and>
    (case r of Inl err \<Rightarrow> True | Inr bs \<Rightarrow> \<exists>btf. bs = btf # base \<and> btf_ok btf \<and> tied_to base btf)"
proof (cases "al_btf al \<and> al_raw al")
  case False
  then show ?thesis by (auto simp: btf_new_def Let_def)
next
  case True
  define b0 where "b0 = (split_from base zero_btf)\<lparr>b_raw_data := Some data, b_raw_size := data_sz\<rparr>"
  have b0: "b_nr_types b0 = 0" "b_type_offs b0 = []" "b_type_offs_cap b0 = 0" "tied_to base b0"
    "b_raw_data b0 = Some data" "b_raw_size b0 = data_sz"
    using split_from_fields [of base] by (simp_all add: b0_def tied_to_def)
  have ld: "ldn data 0 (unat data_sz) = Some data" using assms(1) by (simp add: ldn_def)
  obtain err b1 where hdr: "btf_parse_hdr b0 = Some (err, b1)"
    and good: "err = 0 \<Longrightarrow> \<exists>raw h sw. b1 = b0\<lparr>b_swapped_endian := sw, b_raw_data := Some raw, b_hdr := h\<rparr> \<and>
      native_hdr data = Some h \<and> length raw = length data \<and> sections_fit h (length data)"
    using parse_hdr_ok [OF b0(5) _ assms(2), unfolded b0(6), OF assms(1)] by blast
  show ?thesis
  proof (cases "err = 0")
    case False
    then show ?thesis
      using True hdr ld by (simp add: btf_new_def Let_def b0_def [symmetric])
  next
    case err0: True
    obtain raw h sw where b1: "b1 = b0\<lparr>b_swapped_endian := sw, b_raw_data := Some raw, b_hdr := h\<rparr>"
      and raw: "length raw = length data" and fit: "sections_fit h (length data)"
      using good [OF err0] by blast
    define b2 where "b2 = b1\<lparr>b_strs_data := Some (raw, 24 + unat (h_str_off h)),
      b_types_data := (raw, 24 + unat (h_type_off h))\<rparr>"
    have f2: "b_hdr b2 = h" "b_strs_data b2 = Some (raw, 24 + unat (h_str_off h))"
      "b_types_data b2 = (raw, 24 + unat (h_type_off h))" "tied_to base b2" "idx_ok b2 []"
      using b0 by (simp_all add: b2_def b1 tied_to_def idx_ok_def)
    have "length raw < 2 ^ 32" using raw assms(1) unsigned_less [of data_sz] by simp
    moreover have "unat (h_hdr_len h) = 24" using fit by (simp add: sections_fit_def)
    ultimately show ?thesis
      using parse_sections_ok [OF f2 fit [folded raw], of al] True hdr ld err0
      by (auto simp: btf_new_def Let_def b0_def [symmetric]) (auto simp: b1 b2_def Let_def)
  qed
qed

text \<open>A header, the type \<open>int\<close>, and its name.\<close>

definition sample_btf :: bytes where
  "sample_btf = [0x9f, 0xeb, 1, 0, 24, 0, 0, 0, 0, 0, 0, 0, 16, 0, 0, 0, 16, 0, 0, 0, 5, 0, 0, 0,
     1, 0, 0, 0, 0, 0, 0, 1, 4, 0, 0, 0, 32, 0, 0, 1, 0, 105, 110, 116, 0]"

lemma sample_hdr: "get_hdr sample_btf = Some \<lparr>h_magic = 0xeb9f, h_version = 1, h_flags = 0, h_hdr_len = 24,
    h_type_off = 0, h_type_len = 16, h_str_off = 16, h_str_len = 5\<rparr>"
  by (simp add: sample_btf_def get_hdr_def ld16_def ld32_def ld8_def ldn_def)

theorem btf_new_safe_witness:
  "\<exists>r. btf_new all_ok sample_btf 45 [] = Some r \<and>
    (case r of Inl err \<Rightarrow> True | Inr bs \<Rightarrow> \<exists>btf. bs = btf # [] \<and> btf_ok btf \<and> tied_to [] btf)"
proof (rule btf_new_safe)
  show "length sample_btf = unat (45 :: u32)" by (simp add: sample_btf_def)
  show "hdr_sane sample_btf" by (simp add: hdr_sane_def native_hdr_def sample_hdr bswap_16_magic)
qed

text \<open>
  C24. Without the sane header it does: when the sums of the header fields wrap around, or the
  length of the header is not that of the structure, the checks pass and the string section is
  looked at behind the data.
\<close>

theorem btf_new_overrun:
  assumes "get_hdr data = Some h" "length data = unat data_sz" "h_magic h = BTF_MAGIC"
    "h_str_off h + h_str_len h \<le> data_sz - 24" "h_type_off h + h_type_len h \<le> h_str_off h"
    "h_type_off h mod 4 = 0" "h_str_len h \<noteq> 0" "h_str_len h - 1 \<le> BTF_MAX_STR_OFFSET"
    "length data < unat (h_hdr_len h) + unat (h_str_off h) + unat (h_str_len h)"
  shows "btf_new all_ok data data_sz [] = None"
proof -
  have "24 \<le> length data"
    using assms(1) by (auto simp: get_hdr_def bind_eq_Some_conv ld32_def ldn_def split: if_splits)
  then have long: "\<not> data_sz < 24" using assms(2) by (simp add: word_less_nat_alt)
  define b0 where "b0 = (split_from [] zero_btf)\<lparr>b_raw_data := Some data, b_raw_size := data_sz\<rparr>"
  have b0: "b_raw_data b0 = Some data" "b_raw_size b0 = data_sz" by (simp_all add: b0_def)
  have "btf_parse_hdr b0 = Some (0, b0\<lparr>b_hdr := h\<rparr>)"
    using assms(1,3-6) long b0
    by (simp add: btf_parse_hdr_def Let_def bswap_16_magic not_less [symmetric] split del: if_split cong: if_cong)
  moreover have "ldn data 0 (unat data_sz) = Some data" using assms(2) by (simp add: ldn_def)
  moreover have "ld8 data (unat (h_hdr_len h) + unat (h_str_off h) + unat (h_str_len h) - 1) = None"
    using assms(9) by (simp add: ld8_def)
  ultimately show ?thesis
    using assms(7,8) by (simp add: btf_new_def Let_def b0_def [symmetric] b0 btf_parse_str_sec_def not_less [symmetric])
qed

definition wrapping_btf :: bytes where
  "wrapping_btf = [0x9f, 0xeb, 1, 0, 24, 0, 0, 0, 0, 0, 0, 0, 0, 0, 0, 0, 0xff, 0xff, 0xff, 0xff, 2, 0, 0, 0, 0]"

theorem btf_new_overrun_witness: "btf_new all_ok wrapping_btf 25 [] = None"
proof (rule btf_new_overrun)
  show "get_hdr wrapping_btf = Some \<lparr>h_magic = 0xeb9f, h_version = 1, h_flags = 0, h_hdr_len = 24,
      h_type_off = 0, h_type_len = 0, h_str_off = 0xffffffff, h_str_len = 2\<rparr>"
    by (simp add: wrapping_btf_def get_hdr_def ld16_def ld32_def ld8_def ldn_def)
qed (simp_all add: wrapping_btf_def word_le_nat_alt)

end
