(* ===== verification/Btf_Query.thy ===== *)
theory Btf_Query
  imports Btf_Parse
begin

text \<open>
  The queries on BTF objects: on objects in shape they read no memory outside them, end, and
  return what their names say.
\<close>

section \<open>Objects in shape\<close>

fun bs_ok :: "btf list \<Rightarrow> bool" where
  "bs_ok [] \<longleftrightarrow> True"
| "bs_ok (btf # base) \<longleftrightarrow> btf_ok btf \<and> tied_to base btf \<and>
     unat (b_start_id btf) + unat (b_nr_types btf) < 2 ^ 31 \<and> bs_ok base"

lemma bs_ok_btf_new:
  assumes "btf_ok btf" "tied_to [] btf" "unat (b_nr_types btf) < 2 ^ 30"
  shows "bs_ok [btf]"
  using assms by (simp add: tied_to_def)

text \<open>A pointer to a type behind which all that its kind says can be read.\<close>

definition type_ok :: "btf_ptr \<Rightarrow> bool" where
  "type_ok t \<longleftrightarrow> (case t of Btf_void \<Rightarrow> True
     | Btf_at m p \<Rightarrow> \<exists>n. btf_type_size t = Some n \<and> 12 \<le> n \<and> p + nat n \<le> length m)"

lemma ld32_in_range: "p + 4 \<le> length m \<Longrightarrow> \<exists>w. ld32 m p = Some w"
  by (simp add: ld32_def ldn_def)

lemma type_ok_words:
  assumes "type_ok t" "off \<le> 8"
  shows "\<exists>w. ptr_ld32 t off = Some w"
proof (cases t)
  case Btf_void
  then show ?thesis using assms(2) ld32_in_range [of off "replicate 12 0"] by simp
next
  case (Btf_at m p)
  then show ?thesis using assms ld32_in_range [of "p + off" m] by (auto simp: type_ok_def)
qed

lemma type_ok_fields:
  assumes "type_ok t"
  shows "\<exists>k. btf_kind t = Some k" "\<exists>v. btf_vlen t = Some v" "\<exists>w. t_size t = Some w" "\<exists>w. t_type t = Some w"
    "\<exists>w. t_name_off t = Some w"
  using type_ok_words [OF assms, of 4] type_ok_words [OF assms, of 8] type_ok_words [OF assms, of 0]
  by (auto simp: btf_kind_def btf_vlen_def t_info_def t_size_def t_type_def t_name_off_def)

lemma void_kind: "btf_kind Btf_void = Some 0" "btf_vlen Btf_void = Some 0"
  by (simp_all add: btf_kind_def btf_vlen_def t_info_def ld32_def ldn_def BTF_INFO_KIND_def BTF_INFO_VLEN_def
      numeral_eq_Suc)

lemma rest_readable:
  assumes "type_ok t" "t \<noteq> Btf_void" "btf_type_size t = Some n" "12 + 4 * i + 4 \<le> nat n"
  shows "\<exists>w. ptr_ld32 t (12 + 4 * i) = Some w"
proof (cases t)
  case (Btf_at m p)
  then show ?thesis using assms ld32_in_range [of "p + (12 + 4 * i)" m] by (auto simp: type_ok_def)
qed (use assms(2) in simp)

lemma type_ok_array:
  assumes "type_ok t" "btf_kind t = Some BTF_KIND_ARRAY"
  shows "\<exists>a. btf_array t = Some a"
proof -
  have nv: "t \<noteq> Btf_void" using assms(2) by (auto simp: void_kind)
  obtain v where "btf_vlen t = Some v" using type_ok_fields(2) [OF assms(1)] by blast
  then have n: "btf_type_size t = Some 24" using assms(2) by (simp add: btf_type_size_def)
  show ?thesis
    using rest_readable [OF assms(1) nv n, of 0] rest_readable [OF assms(1) nv n, of 1]
      rest_readable [OF assms(1) nv n, of 2]
    by (auto simp: btf_array_def)
qed

lemma type_ok_member:
  assumes "type_ok t" "btf_kind t = Some k" "k = BTF_KIND_STRUCT \<or> k = BTF_KIND_UNION"
    "btf_vlen t = Some v" "i < unat v"
  shows "\<exists>m. btf_members t i = Some m"
proof -
  have nv: "t \<noteq> Btf_void" using assms(2,3) by (auto simp: void_kind)
  have n: "btf_type_size t = Some (12 + uint v * 12)"
    using assms(2,3,4) by (auto simp: btf_type_size_def)
  have "Suc i \<le> unat v" using assms(5) by simp
  then have "Suc i * 12 \<le> unat v * 12" by (rule mult_le_mono1)
  then have le: "12 + i * 12 + 12 \<le> nat (12 + uint v * 12)"
    by (simp add: nat_add_distrib nat_mult_distrib)
  have w: "\<exists>w. ptr_ld32 t (12 + 4 * j) = Some w" if "12 + 4 * j + 4 \<le> 12 + i * 12 + 12" for j
    by (rule rest_readable [OF assms(1) nv n]) (use le that in linarith)
  show ?thesis
    using w [of "3 * i"] w [of "3 * i + 1"] w [of "3 * i + 2"]
    by (auto simp: btf_members_def algebra_simps)
qed

text \<open>Every identifier in range has such a type.\<close>

lemma idx_ok_nth: "idx_ok btf os \<Longrightarrow> i < length os \<Longrightarrow> ld32 (b_type_offs btf) (4 * i) = Some (os ! i)"
  by (simp add: idx_ok_def)

lemma own_type_ok:
  assumes "types_ok btf" "i < unat (b_nr_types btf)"
  shows "\<exists>off. ld32 (b_type_offs btf) (4 * i) = Some off \<and>
    type_ok (Btf_at (fst (b_types_data btf)) (snd (b_types_data btf) + unat off))"
proof -
  obtain os m types where t: "b_types_data btf = (m, types)" "idx_ok btf os"
    "types_chain m types (at_types types os) (types + unat (h_type_len (b_hdr btf)))"
    "types + unat (h_type_len (b_hdr btf)) \<le> length m"
    using assms(1) by (auto simp: types_ok_def)
  have i: "i < length os" using assms(2) t(2) by (simp add: idx_ok_def)
  then obtain n where n: "btf_type_size (Btf_at m (types + unat (os ! i))) = Some n" "12 \<le> n"
    "types + unat (os ! i) + nat n \<le> types + unat (h_type_len (b_hdr btf))"
    using types_chain_nth [OF t(3), of i] by (auto simp: at_types_def)
  then have "type_ok (Btf_at m (types + unat (os ! i)))" using t(4) by (auto simp: type_ok_def)
  then show ?thesis using idx_ok_nth [OF t(2) i] t(1) by simp
qed

lemma start_id_one: "bs_ok [b] \<Longrightarrow> unat (b_start_id b) = 1"
  by (simp add: tied_to_def)

lemma start_id_sum:
  assumes "bs_ok (b # c # cs)"
  shows "unat (b_start_id b) = unat (b_start_id c) + unat (b_nr_types c)"
proof -
  have "b_start_id b = b_start_id c + b_nr_types c" "unat (b_start_id c) + unat (b_nr_types c) < 2 ^ 31"
    using assms by (simp add: tied_to_def btf__get_nr_types_def, simp)
  then show ?thesis by (simp only: unat_word_ariths) simp
qed

lemma start_id_pos: "bs_ok (b # base) \<Longrightarrow> 1 \<le> unat (b_start_id b)"
proof (induction base arbitrary: b)
  case Nil
  then show ?case using start_id_one by simp
next
  case (Cons c cs)
  have "bs_ok (c # cs)" using Cons.prems by (simp only: bs_ok.simps)
  then have "1 \<le> unat (b_start_id c)" by (rule Cons.IH)
  then show ?case using start_id_sum [OF Cons.prems] by simp
qed

lemma nr_types_eq:
  assumes "bs_ok (btf # base)"
  shows "unat (btf__get_nr_types btf) = unat (b_start_id btf) + unat (b_nr_types btf) - 1"
proof -
  have "unat (b_start_id btf) + unat (b_nr_types btf) < 2 ^ 31" using assms by simp
  moreover from this have "unat (b_start_id btf + b_nr_types btf) = unat (b_start_id btf) + unat (b_nr_types btf)"
    by (simp add: unat_word_ariths)
  ultimately show ?thesis
    using start_id_pos [OF assms] by (simp add: btf__get_nr_types_def unat_sub word_le_nat_alt)
qed

lemma type_by_id_ok:
  "bs_ok bs \<Longrightarrow> (case bs of [] \<Rightarrow> tid = 0 | b # base \<Rightarrow> unat tid < unat (b_start_id b) + unat (b_nr_types b)) \<Longrightarrow>
    \<exists>t. btf_type_by_id bs tid = Some t \<and> type_ok t \<and> (t = Btf_void \<longrightarrow> tid = 0)"
proof (induction bs)
  case Nil
  then show ?case by (simp add: btf_type_by_id.simps type_ok_def)
next
  case (Cons btf base)
  show ?case
  proof (cases "tid = 0 \<or> tid < b_start_id btf")
    case True
    have "case base of [] \<Rightarrow> tid = 0 | b # bs \<Rightarrow> unat tid < unat (b_start_id b) + unat (b_nr_types b)"
      if lt: "tid < b_start_id btf"
    proof (cases base)
      case Nil
      then have "unat tid < 1" using lt start_id_one [of btf] Cons.prems(1) by (simp only: word_less_nat_alt)
      then show ?thesis using Nil by (simp add: unat_eq_0)
    next
      case (Cons b bs)
      then show ?thesis
        using lt start_id_sum [of btf b bs] \<open>bs_ok (btf # base)\<close> by (simp only: word_less_nat_alt list.case)
    qed
    then show ?thesis
      using True Cons.IH Cons.prems(1) by (auto simp: btf_type_by_id.simps [of "btf # base"] type_ok_def)
  next
    case False
    then have "unat (tid - b_start_id btf) < unat (b_nr_types btf)"
      using Cons.prems(2) by (simp add: unat_sub word_less_nat_alt word_le_nat_alt not_less less_diff_conv2)
    moreover have "types_ok btf" using Cons.prems(1) by (simp add: btf_ok_def)
    ultimately obtain off where "ld32 (b_type_offs btf) (4 * unat (tid - b_start_id btf)) = Some off"
      "type_ok (Btf_at (fst (b_types_data btf)) (snd (b_types_data btf) + unat off))"
      using own_type_ok by blast
    then show ?thesis using False by (simp add: btf_type_by_id.simps)
  qed
qed

lemma get_type_ok:
  assumes "bs_ok bs" "bs \<noteq> []"
  shows "\<exists>r. btf__type_by_id bs tid = Some r \<and>
    (case r of None \<Rightarrow> unat (btf__get_nr_types (hd bs)) < unat tid
     | Some t \<Rightarrow> unat tid \<le> unat (btf__get_nr_types (hd bs)) \<and> type_ok t \<and> (t = Btf_void \<longrightarrow> tid = 0))"
proof -
  obtain b base where bs: "bs = b # base" using assms(2) by (cases bs) auto
  have sum: "unat (b_start_id b + b_nr_types b) = unat (b_start_id b) + unat (b_nr_types b)"
    using assms(1) bs by (simp add: unat_word_ariths)
  note nr = nr_types_eq [OF assms(1) [unfolded bs]] start_id_pos [OF assms(1) [unfolded bs]]
  show ?thesis
  proof (cases "b_start_id b + b_nr_types b \<le> tid")
    case True
    then show ?thesis using nr sum by (simp add: btf__type_by_id_def bs word_le_nat_alt)
  next
    case False
    then have "unat tid < unat (b_start_id b) + unat (b_nr_types b)" using sum by (simp add: word_le_nat_alt)
    then obtain t where "btf_type_by_id bs tid = Some t" "type_ok t" "t = Btf_void \<longrightarrow> tid = 0"
      using type_by_id_ok [OF assms(1), of tid] bs by auto
    then show ?thesis using False nr \<open>unat tid < _\<close> by (auto simp: btf__type_by_id_def bs)
  qed
qed
section \<open>Names\<close>

lemma c_str_ok: "strs_ok m p len \<Longrightarrow> i < len \<Longrightarrow> \<exists>s. c_str (m, p + i) = Some s"
proof -
  assume ok: "strs_ok m p len" "i < len"
  then have "p + len - 1 < length m" "m ! (p + len - 1) = 0" "p + i \<le> p + len - 1"
    "p + i + (p + len - 1 - (p + i)) = p + len - 1"
    by (auto simp: strs_ok_def)
  then have "drop (p + i) m ! (p + len - 1 - (p + i)) = 0"
    by (subst nth_drop) (linarith, simp only:)
  moreover have "p + len - 1 - (p + i) < length (drop (p + i) m)"
    using \<open>p + len - 1 < length m\<close> \<open>p + i \<le> p + len - 1\<close> unfolding length_drop by (rule diff_less_mono)
  ultimately have "0 \<in> set (drop (p + i) m)" by (metis nth_mem)
  then show ?thesis by simp
qed

lemma str_by_offset_ok:
  "bs_ok bs \<Longrightarrow> bs \<noteq> [] \<Longrightarrow> \<exists>r. btf__str_by_offset bs off = Some r \<and>
    (case r of None \<Rightarrow> True | Some p \<Rightarrow> \<exists>s. c_str p = Some s)"
proof (induction bs)
  case (Cons btf base)
  obtain m p where mp: "btf_strs_data btf = Some (m, p)" "strs_ok m p (unat (h_str_len (b_hdr btf)))"
    using Cons.prems(1) by (auto simp: btf_ok_def)
  show ?case
  proof (cases "off < b_start_str_off btf")
    case True
    moreover have "base \<noteq> []"
    proof
      assume "base = []"
      then have "b_start_str_off btf = 0" using Cons.prems(1) by (simp add: tied_to_def)
      then show False using True by simp
    qed
    moreover have "bs_ok base" using Cons.prems(1) by simp
    ultimately show ?thesis using Cons.IH by simp
  next
    case False
    show ?thesis
    proof (cases "off - b_start_str_off btf < h_str_len (b_hdr btf)")
      case True
      then have "\<exists>s. c_str (m, p + unat (off - b_start_str_off btf)) = Some s"
        by (intro c_str_ok [OF mp(2)]) (simp add: word_less_nat_alt)
      then show ?thesis using False True mp(1) by simp
    next
      case no: False
      then show ?thesis using False by simp
    qed
  qed
qed simp

text \<open>The name of a type, for specifications; anonymous types have the empty name.\<close>

definition type_name :: "btf list \<Rightarrow> u32 \<Rightarrow> bytes option" where
  "type_name bs tid = do {
     t \<leftarrow> the_type bs tid;
     name_off \<leftarrow> t_name_off t;
     name \<leftarrow> btf__name_by_offset bs name_off;
     p \<leftarrow> name;
     c_str p
   }"

lemma the_type_ok:
  assumes "bs_ok bs" "bs \<noteq> []" "unat tid \<le> unat (btf__get_nr_types (hd bs))"
  shows "\<exists>t. the_type bs tid = Some t \<and> type_ok t \<and> (t = Btf_void \<longrightarrow> tid = 0)"
  using get_type_ok [OF assms(1,2), of tid] assms(3)
  by (auto simp: the_type_def split: option.splits)

lemma name_step:
  assumes "bs_ok bs" "bs \<noteq> []" "unat tid \<le> unat (btf__get_nr_types (hd bs))"
  obtains t off r where "the_type bs tid = Some t" "type_ok t" "t_name_off t = Some off"
    "btf__name_by_offset bs off = Some r"
    "case r of None \<Rightarrow> type_name bs tid = None | Some p \<Rightarrow> \<exists>s. c_str p = Some s \<and> type_name bs tid = Some s"
proof -
  obtain t where t: "the_type bs tid = Some t" "type_ok t" using the_type_ok [OF assms] by blast
  obtain off where off: "t_name_off t = Some off" using type_ok_fields(5) [OF t(2)] by blast
  obtain r where r: "btf__name_by_offset bs off = Some r"
    "case r of None \<Rightarrow> True | Some p \<Rightarrow> \<exists>s. c_str p = Some s"
    using str_by_offset_ok [OF assms(1,2), of off] by (auto simp: btf__name_by_offset_def)
  have "case r of None \<Rightarrow> type_name bs tid = None | Some p \<Rightarrow> \<exists>s. c_str p = Some s \<and> type_name bs tid = Some s"
    using t(1) off r by (auto simp: type_name_def split: option.splits)
  then show ?thesis using that t off r(1) by blast
qed

lemma find_by_name_loop_ok:
  assumes "bs_ok bs" "bs \<noteq> []"
  shows "\<forall>i \<in> set ids. unat i \<le> unat (btf__get_nr_types (hd bs)) \<Longrightarrow>
    find_by_name_loop bs nm ids = Some (case List.find (\<lambda>i. type_name bs i = Some nm) ids of
      None \<Rightarrow> - ENOENT | Some i \<Rightarrow> sint i)"
proof (induction ids)
  case (Cons i ids)
  have i: "unat i \<le> unat (btf__get_nr_types (hd bs))" using Cons.prems by simp
  from assms i show ?case
  proof (rule name_step)
    fix t off r
    assume a: "the_type bs i = Some t" "type_ok t" "t_name_off t = Some off"
      "btf__name_by_offset bs off = Some r"
      "case r of None \<Rightarrow> type_name bs i = None | Some p \<Rightarrow> \<exists>s. c_str p = Some s \<and> type_name bs i = Some s"
    show ?case
    proof (cases r)
      case None
      then show ?thesis using a Cons by simp
    next
      case (Some p)
      then obtain s where "c_str p = Some s" "type_name bs i = Some s" using a(5) by auto
      then show ?thesis using a(1,3,4) Some Cons by (auto split: if_splits)
    qed
  qed
qed simp

lemma sint_small: "unat w < 2 ^ 31 \<Longrightarrow> sint (w :: u32) = int (unat w)"
proof -
  assume "unat w < 2 ^ 31"
  then have "int (unat w) < int (2 ^ 31)" by (simp only: of_nat_less_iff)
  then have "uint w < 2 ^ 31" by (simp only: of_nat_unat of_nat_power of_nat_numeral)
  moreover have "0 \<le> uint w" by simp
  ultimately have "signed_take_bit 31 (uint w) = uint w"
    by (intro signed_take_bit_int_eq_self) linarith+
  then show ?thesis by (simp add: sint_uint)
qed

text \<open>The identifiers from 1 on.\<close>

lemma type_ids_eq:
  assumes "bs_ok (b # base)"
  shows "set (type_ids (b # base)) = {i. i \<noteq> 0 \<and> unat i \<le> unat (btf__get_nr_types b)}"
    "unat (btf__get_nr_types b) < 2 ^ 31"
proof -
  show small: "unat (btf__get_nr_types b) < 2 ^ 31"
    using nr_types_eq [OF assms] start_id_pos [OF assms] assms by auto
  show "set (type_ids (b # base)) = {i. i \<noteq> 0 \<and> unat i \<le> unat (btf__get_nr_types b)}"
  proof (intro equalityI subsetI)
    fix i :: u32 assume "i \<in> set (type_ids (b # base))"
    then obtain n where "i = of_nat n" "1 \<le> n" "n \<le> unat (btf__get_nr_types b)"
      by (auto simp: type_ids_def)
    moreover from this small have "unat i = n" by (simp add: unsigned_of_nat take_bit_nat_eq_self)
    ultimately show "i \<in> {i. i \<noteq> 0 \<and> unat i \<le> unat (btf__get_nr_types b)}" by auto
  next
    fix i :: u32 assume i: "i \<in> {i. i \<noteq> 0 \<and> unat i \<le> unat (btf__get_nr_types b)}"
    then have "0 < unat i" by (simp add: unat_gt_0)
    then have "unat i \<in> {1 ..< unat (btf__get_nr_types b) + 1}" using i by auto
    moreover have "i = of_nat (unat i)" by simp
    ultimately show "i \<in> set (type_ids (b # base))" unfolding type_ids_def by (metis list.case(2) set_map set_upt image_eqI)
  qed
qed

lemma find_least:
  "sorted xs \<Longrightarrow> List.find P (map f xs) = Some y \<Longrightarrow> \<exists>x \<in> set xs. f x = y \<and> P y \<and> (\<forall>z \<in> set xs. z < x \<longrightarrow> \<not> P (f z))"
  by (induction xs) (auto split: if_splits)

text \<open>
  C25. Looking up a name ends, reads nothing outside the objects, and finds the first type of that
  name, types of the base included; it answers \<open>-ENOENT\<close> exactly when no type has the name.
\<close>

theorem find_by_name_first:
  assumes "bs_ok (b # base)" "nm \<noteq> chars ''void''"
  shows "\<exists>r. btf__find_by_name (b # base) nm = Some r \<and>
    (r = - ENOENT \<and> (\<forall>i. i \<noteq> 0 \<longrightarrow> unat i \<le> unat (btf__get_nr_types b) \<longrightarrow> type_name (b # base) i \<noteq> Some nm) \<or>
     (\<exists>i. r = int (unat i) \<and> i \<noteq> 0 \<and> unat i \<le> unat (btf__get_nr_types b) \<and> type_name (b # base) i = Some nm \<and>
       (\<forall>j. j \<noteq> 0 \<longrightarrow> j < i \<longrightarrow> type_name (b # base) j \<noteq> Some nm)))"
proof -
  let ?bs = "b # base" and ?n = "unat (btf__get_nr_types b)"
  note ids = type_ids_eq [OF assms(1)]
  have "\<forall>i \<in> set (type_ids ?bs). unat i \<le> unat (btf__get_nr_types (hd ?bs))" using ids(1) by simp
  then have res: "btf__find_by_name ?bs nm = Some (case List.find (\<lambda>i. type_name ?bs i = Some nm) (type_ids ?bs) of
      None \<Rightarrow> - ENOENT | Some i \<Rightarrow> sint i)"
    using find_by_name_loop_ok [OF assms(1)] assms(2) by (simp add: btf__find_by_name_def)
  show ?thesis
  proof (cases "List.find (\<lambda>i. type_name ?bs i = Some nm) (type_ids ?bs)")
    case None
    then have "\<forall>i \<in> set (type_ids ?bs). type_name ?bs i \<noteq> Some nm" by (simp add: find_None_iff)
    then show ?thesis using res None ids(1) by auto
  next
    case (Some i)
    obtain x where x: "x \<in> set [1 ..< ?n + 1]" "of_nat x = i" "type_name ?bs i = Some nm"
      "\<And>z. z \<in> set [1 ..< ?n + 1] \<Longrightarrow> z < x \<Longrightarrow> type_name ?bs (of_nat z) \<noteq> Some nm"
      using find_least [OF sorted_upt Some [unfolded type_ids_def list.case]] by blast
    have ui: "unat i = x" using x(1,2) ids(2) by (auto simp: unsigned_of_nat take_bit_nat_eq_self)
    then have "i \<noteq> 0" "unat i \<le> ?n" using x(1) by (auto simp: unat_eq_0)
    moreover have "sint i = int (unat i)"
      using ids(2) \<open>unat i \<le> ?n\<close> by (intro sint_small) simp
    moreover have "type_name ?bs j \<noteq> Some nm" if "j \<noteq> 0" "j < i" for j
    proof -
      have "0 < unat j" "unat j < x" using that ui by (simp_all add: unat_gt_0 word_less_nat_alt)
      then show ?thesis using x(4) [of "unat j"] x(1) by auto
    qed
    ultimately show ?thesis using res Some x(3) by auto
  qed
qed
section \<open>A sample object\<close>

text \<open>\<open>int\<close>, a pointer to it, an array of three of it, \<open>arr\<close>, a name for the array, and a structure.\<close>

definition sample_types :: bytes where
  "sample_types = [
     1, 0, 0, 0, 0, 0, 0, 1, 4, 0, 0, 0, 32, 0, 0, 1,
     0, 0, 0, 0, 0, 0, 0, 2, 1, 0, 0, 0,
     0, 0, 0, 0, 0, 0, 0, 3, 0, 0, 0, 0, 1, 0, 0, 0, 1, 0, 0, 0, 3, 0, 0, 0,
     5, 0, 0, 0, 0, 0, 0, 8, 3, 0, 0, 0,
     9, 0, 0, 0, 2, 0, 0, 4, 16, 0, 0, 0, 11, 0, 0, 0, 1, 0, 0, 0, 0, 0, 0, 0, 13, 0, 0, 0, 2, 0, 0, 0, 64, 0, 0, 0]"

definition sample_strs :: bytes where
  "sample_strs = [0] @ chars ''int'' @ [0] @ chars ''arr'' @ [0] @ chars ''s'' @ [0] @ chars ''a'' @ [0] @ chars ''b'' @ [0]"

definition sample_offs :: bytes where
  "sample_offs = [0, 0, 0, 0, 16, 0, 0, 0, 28, 0, 0, 0, 52, 0, 0, 0, 64, 0, 0, 0]"

definition sample_obj :: btf where
  "sample_obj = zero_btf\<lparr>b_hdr := \<lparr>h_magic = BTF_MAGIC, h_version = 1, h_flags = 0, h_hdr_len = 24,
       h_type_off = 0, h_type_len = 100, h_str_off = 100, h_str_len = 15\<rparr>,
     b_types_data := (sample_types, 0), b_type_offs := sample_offs, b_type_offs_cap := 5, b_nr_types := 5,
     b_start_id := 1, b_strs_data := Some (sample_strs, 0), b_ptr_sz := 8\<rparr>"

lemma sample_sizes:
  "btf_type_size (Btf_at sample_types 0) = Some 16" "btf_type_size (Btf_at sample_types 16) = Some 12"
  "btf_type_size (Btf_at sample_types 28) = Some 24" "btf_type_size (Btf_at sample_types 52) = Some 12"
  "btf_type_size (Btf_at sample_types 64) = Some 36" "length sample_types = 100" "length sample_offs = 20"
  by (simp_all add: btf_type_size_def btf_vlen_def btf_kind_def t_info_def ld32_def ldn_def sample_types_def
      sample_offs_def BTF_INFO_KIND_def BTF_INFO_VLEN_def)

lemma sample_entries:
  "ld32 sample_offs 0 = Some 0" "ld32 sample_offs 4 = Some 16" "ld32 sample_offs 8 = Some 28"
  "ld32 sample_offs 12 = Some 52" "ld32 sample_offs 16 = Some 64"
  by code_simp+

lemma less_5: "i < (5 :: nat) \<longleftrightarrow> i = 0 \<or> i = 1 \<or> i = 2 \<or> i = 3 \<or> i = 4"
  by auto

lemma sample_obj_ok: "bs_ok [sample_obj]"
proof -
  have "idx_ok sample_obj [0, 16, 28, 52, 64]"
    by (simp add: idx_ok_def sample_obj_def sample_sizes)
      (auto simp: sample_entries All_less_Suc numeral_2_eq_2 numeral_3_eq_3)
  moreover have "types_chain sample_types 0 (at_types 0 [0, 16, 28, 52, 64]) 100"
    by (simp add: at_types_def sample_sizes)
  ultimately have "types_ok sample_obj"
    unfolding types_ok_def by (intro exI [of _ "[0, 16, 28, 52, 64]"] exI [of _ sample_types] exI [of _ 0])
      (simp add: sample_obj_def sample_sizes)
  moreover have "strs_ok sample_strs 0 15" by (simp add: strs_ok_def sample_strs_def chars_def)
  ultimately have "btf_ok sample_obj" by (simp add: btf_ok_def sample_obj_def btf_strs_data_def)
  then show ?thesis by (simp add: tied_to_def sample_obj_def zero_btf_def)
qed

theorem find_by_name_first_witness:
  "\<exists>r. btf__find_by_name [sample_obj] (chars ''arr'') = Some r \<and>
    (r = - ENOENT \<and> (\<forall>i. i \<noteq> 0 \<longrightarrow> unat i \<le> unat (btf__get_nr_types sample_obj) \<longrightarrow>
       type_name [sample_obj] i \<noteq> Some (chars ''arr'')) \<or>
     (\<exists>i. r = int (unat i) \<and> i \<noteq> 0 \<and> unat i \<le> unat (btf__get_nr_types sample_obj) \<and>
       type_name [sample_obj] i = Some (chars ''arr'') \<and>
       (\<forall>j. j \<noteq> 0 \<longrightarrow> j < i \<longrightarrow> type_name [sample_obj] j \<noteq> Some (chars ''arr''))))"
  by (rule find_by_name_first [OF sample_obj_ok]) (simp add: chars_def)

section \<open>Sizes\<close>

text \<open>The size of a type as the declarations define it.\<close>

inductive has_size :: "btf list \<Rightarrow> u32 \<Rightarrow> nat \<Rightarrow> bool" for bs where
  direct: "the_type bs tid = Some t \<Longrightarrow> btf_kind t = Some k \<Longrightarrow>
    k \<in> {BTF_KIND_INT, BTF_KIND_STRUCT, BTF_KIND_UNION, BTF_KIND_ENUM, BTF_KIND_DATASEC, BTF_KIND_FLOAT} \<Longrightarrow>
    t_size t = Some w \<Longrightarrow> has_size bs tid (unat w)"
| pointer: "the_type bs tid = Some t \<Longrightarrow> btf_kind t = Some BTF_KIND_PTR \<Longrightarrow>
    btf_ptr_sz bs = Some (w, bs') \<Longrightarrow> has_size bs tid (unat w)"
| via: "the_type bs tid = Some t \<Longrightarrow> btf_kind t = Some k \<Longrightarrow>
    k \<in> {BTF_KIND_TYPEDEF, BTF_KIND_VOLATILE, BTF_KIND_CONST, BTF_KIND_RESTRICT, BTF_KIND_VAR} \<Longrightarrow>
    t_type t = Some target \<Longrightarrow> has_size bs target n \<Longrightarrow> has_size bs tid n"
| array: "the_type bs tid = Some t \<Longrightarrow> btf_kind t = Some BTF_KIND_ARRAY \<Longrightarrow> btf_array t = Some a \<Longrightarrow>
    has_size bs (ar_type a) n \<Longrightarrow> has_size bs tid (unat (ar_nelems a) * n)"

lemma ptr_size_loop_ok:
  assumes "bs_ok bs" "bs \<noteq> []"
  shows "\<forall>i \<in> set ids. unat i \<le> unat (btf__get_nr_types (hd bs)) \<Longrightarrow>
    \<exists>n. ptr_size_loop bs ids = Some n \<and> n \<in> {- 1, 4, 8}"
proof (induction ids)
  case (Cons i ids)
  have i: "unat i \<le> unat (btf__get_nr_types (hd bs))" using Cons.prems by simp
  obtain n where n: "ptr_size_loop bs ids = Some n" "n \<in> {- 1, 4, 8}" using Cons by auto
  from assms i show ?case
  proof (rule name_step)
    fix t off r
    assume a: "the_type bs i = Some t" "type_ok t" "t_name_off t = Some off"
      "btf__name_by_offset bs off = Some r"
      "case r of None \<Rightarrow> type_name bs i = None | Some p \<Rightarrow> \<exists>s. c_str p = Some s \<and> type_name bs i = Some s"
    obtain k where k: "btf_kind t = Some k" using type_ok_fields(1) [OF a(2)] by blast
    obtain w where w: "t_size t = Some w" using type_ok_fields(3) [OF a(2)] by blast
    show ?case
    proof (cases r)
      case None
      then show ?thesis using a n k by (simp add: btf_is_int_def)
    next
      case (Some p)
      then obtain s where "c_str p = Some s" using a(5) by auto
      then show ?thesis using a(1,3,4) Some n k w by (auto simp: btf_is_int_def split: if_splits)
    qed
  qed
qed simp
lemma ptr_sz_ok:
  assumes "bs_ok bs" "bs \<noteq> []"
  shows "\<exists>w bs'. btf_ptr_sz bs = Some (w, bs')"
proof -
  obtain b base where bs: "bs = b # base" using assms(2) by (cases bs) auto
  have "\<forall>i \<in> set (type_ids bs). unat i \<le> unat (btf__get_nr_types (hd bs))"
    using type_ids_eq(1) [OF assms(1) [unfolded bs]] bs by simp
  then obtain n where "ptr_size_loop bs (type_ids bs) = Some n" using ptr_size_loop_ok [OF assms] by blast
  then have "\<exists>n. determine_ptr_size bs = Some n"
    by (cases base) (auto simp: determine_ptr_size_def bs)
  then show ?thesis by (auto simp: btf_ptr_sz_def fill_ptr_sz_def bs)
qed

lemma elems_guard:
  assumes "\<not> (n \<noteq> 0 \<and> m > - 1 div (n :: u32))"
  shows "unat (n * m) = unat n * unat m"
proof (cases "n = 0")
  case False
  then have "m \<le> - 1 div n" using assms by (simp add: not_less)
  then have "unat m \<le> (2 ^ 32 - 1) div unat n"
    by (simp add: word_le_nat_alt unat_div unsigned_minus_1_eq_mask mask_eq_exp_minus_1)
  then have "unat n * unat m \<le> unat n * ((2 ^ 32 - 1) div unat n)" by (rule mult_le_mono2)
  also have "\<dots> \<le> 2 ^ 32 - 1" by simp
  finally show ?thesis by (simp add: unat_word_ariths)
qed simp

lemma size_guard:
  assumes "\<not> (n \<noteq> 0 \<and> s > uint (- 1 div (n :: u32)))" "0 \<le> s"
  shows "uint n * s < 2 ^ 32"
proof (cases "n = 0")
  case False
  then have "s \<le> int ((2 ^ 32 - 1) div unat n)"
    using assms(1) by (simp add: uint_div_distrib zdiv_int unsigned_minus_1_eq_mask mask_eq_exp_minus_1)
  then have "uint n * s \<le> int (unat n) * int ((2 ^ 32 - 1) div unat n)"
    by (simp add: mult_left_mono)
  also have "\<dots> = int (unat n * ((2 ^ 32 - 1) div unat n))" by simp
  also have "\<dots> \<le> int (2 ^ 32 - 1)" by (simp only: of_nat_le_iff) simp
  finally show ?thesis by simp
qed simp

lemma resolve_size_loop_sound:
  assumes "btf__type_by_id bs tid = Some t" "resolve_size_loop n bs t nelems = Some (Inr (w, nelems', bs'))" "0 \<le> w"
  shows "\<exists>s. has_size bs tid s \<and> uint nelems' * w = uint nelems * int s"
  using assms
proof (induction n arbitrary: tid t nelems)
  case 0
  then show ?case by (simp add: resolve_size_loop.simps)
next
  case (Suc n)
  obtain stop where stop: "btf_type_is_void_or_null t = Some stop"
    using Suc.prems(2) by (auto simp: resolve_size_loop.simps [of "Suc n"] bind_eq_Some_conv)
  have go: "\<not> stop" using Suc.prems(2,3) stop by (auto simp: resolve_size_loop.simps [of "Suc n"])
  obtain ty k where ty: "t = Some ty" "btf_kind ty = Some k"
    using Suc.prems(2) stop go by (auto simp: resolve_size_loop.simps [of "Suc n"] bind_eq_Some_conv)
  have the: "the_type bs tid = Some ty" using Suc.prems(1) ty(1) by (simp add: the_type_def)
  have "btf_type_is_void_or_null (Some ty) = Some False" using stop go ty(1) by simp
  note eq = Suc.prems(2) [unfolded resolve_size_loop.simps [of "Suc n"] nat.case ty(1) this bind.simps if_False ty(2)]
  consider "k \<in> {BTF_KIND_INT, BTF_KIND_STRUCT, BTF_KIND_UNION, BTF_KIND_ENUM, BTF_KIND_DATASEC, BTF_KIND_FLOAT}"
    | "k = BTF_KIND_PTR"
    | "k \<in> {BTF_KIND_TYPEDEF, BTF_KIND_VOLATILE, BTF_KIND_CONST, BTF_KIND_RESTRICT, BTF_KIND_VAR}"
    | "k = BTF_KIND_ARRAY"
    using eq by (auto split: if_splits)
  then show ?case
  proof cases
    case 1
    then obtain sw where "t_size ty = Some sw" "w = uint sw" "nelems' = nelems" using eq by auto
    then show ?thesis using has_size.direct [OF the ty(2) 1] by fastforce
  next
    case 2
    then obtain sw where "btf_ptr_sz bs = Some (sw, bs')" "w = uint sw" "nelems' = nelems" using eq by auto
    then show ?thesis using has_size.pointer [OF the ty(2) [unfolded 2]] by fastforce
  next
    case 3
    then obtain target t' where "t_type ty = Some target" "btf__type_by_id bs target = Some t'"
      "resolve_size_loop n bs t' nelems = Some (Inr (w, nelems', bs'))"
      using eq by (auto simp: bind_eq_Some_conv)
    moreover from Suc.IH [OF this(2,3) Suc.prems(3)]
    obtain s where "has_size bs target s" "uint nelems' * w = uint nelems * int s" by blast
    ultimately show ?thesis using has_size.via [OF the ty(2) 3] by blast
  next
    case 4
    then obtain a t' where a: "btf_array ty = Some a" "btf__type_by_id bs (ar_type a) = Some t'"
      "\<not> (nelems \<noteq> 0 \<and> ar_nelems a > - 1 div nelems)"
      "resolve_size_loop n bs t' (nelems * ar_nelems a) = Some (Inr (w, nelems', bs'))"
      using eq by (auto simp: bind_eq_Some_conv Let_def split: if_splits)
    obtain s where s: "has_size bs (ar_type a) s" "uint nelems' * w = uint (nelems * ar_nelems a) * int s"
      using Suc.IH [OF a(2,4) Suc.prems(3)] by blast
    have "int (unat (nelems * ar_nelems a)) = int (unat nelems) * int (unat (ar_nelems a))"
      using elems_guard [OF a(3)] by (simp only: of_nat_mult)
    then have "uint nelems' * w = uint nelems * int (unat (ar_nelems a) * s')" if "s' = s" for s'
      using s(2) that by (simp only: of_nat_unat of_nat_mult mult.assoc)
    then show ?thesis
      using has_size.array [OF the ty(2) [unfolded 4] a(1) s(1)] by blast
  qed
qed

lemma void_check_ok: "(case r of None \<Rightarrow> True | Some t \<Rightarrow> type_ok t) \<Longrightarrow> \<exists>b. btf_type_is_void_or_null r = Some b"
  using type_ok_fields(1) by (force simp: btf_type_is_void_or_null_def btf_type_is_void_def btf_is_fwd_def split: option.splits)

lemma get_type_ok':
  assumes "bs_ok bs" "bs \<noteq> []"
  obtains r where "btf__type_by_id bs tid = Some r" "case r of None \<Rightarrow> True | Some t \<Rightarrow> type_ok t"
  using get_type_ok [OF assms, of tid] that by (auto split: option.splits)

lemma resolve_size_loop_total:
  assumes "bs_ok bs" "bs \<noteq> []" "case t of None \<Rightarrow> True | Some t \<Rightarrow> type_ok t"
  shows "\<exists>r. resolve_size_loop n bs t nelems = Some r \<and>
    (case r of Inl err \<Rightarrow> err = - EINVAL \<or> err = - E2BIG | Inr x \<Rightarrow> True)"
  using assms(3)
proof (induction n arbitrary: t nelems)
  case 0
  then show ?case by (simp add: resolve_size_loop.simps)
next
  case (Suc n)
  obtain stop where stop: "btf_type_is_void_or_null t = Some stop" using void_check_ok [OF Suc.prems] by blast
  show ?case
  proof (cases stop)
    case True
    then show ?thesis using stop by (simp add: resolve_size_loop.simps)
  next
    case False
    then obtain ty where ty: "t = Some ty" using stop by (cases t) (auto simp: btf_type_is_void_or_null_def)
    then have ok: "type_ok ty" using Suc.prems by simp
    obtain k where k: "btf_kind ty = Some k" using type_ok_fields(1) [OF ok] by blast
    obtain w where w: "t_size ty = Some w" using type_ok_fields(3) [OF ok] by blast
    obtain ps bs' where ps: "btf_ptr_sz bs = Some (ps, bs')" using ptr_sz_ok [OF assms(1,2)] by blast
    obtain target where target: "t_type ty = Some target" using type_ok_fields(4) [OF ok] by blast
    have go: "btf_type_is_void_or_null (Some ty) = Some False" using stop False ty by simp
    note eq = resolve_size_loop.simps [of "Suc n" bs "Some ty" nelems, unfolded nat.case go bind.simps if_False k]
    show ?thesis
    proof (cases "k = BTF_KIND_ARRAY")
      case True
      obtain a where a: "btf_array ty = Some a" using type_ok_array [OF ok] k True by blast
      obtain r where "btf__type_by_id bs (ar_type a) = Some r" "case r of None \<Rightarrow> True | Some t \<Rightarrow> type_ok t"
        using get_type_ok' [OF assms(1,2)] by blast
      then show ?thesis using Suc.IH [of r "nelems * ar_nelems a"] a True ty eq by (auto simp: Let_def)
    next
      case False
      obtain r where "btf__type_by_id bs target = Some r" "case r of None \<Rightarrow> True | Some t \<Rightarrow> type_ok t"
        using get_type_ok' [OF assms(1,2)] by blast
      then show ?thesis using Suc.IH [of r nelems] False w ps target ty eq by auto
    qed
  qed
qed

text \<open>
  C26. The size of a type: on objects in shape \<open>btf__resolve_size\<close> reads nothing outside them and
  ends, also on cyclic types; what it returns is the size of the declaration, with the pointer
  size and the numbers of elements multiplied out, and fits in 32 bits; else it is \<open>-EINVAL\<close> or
  \<open>-E2BIG\<close>.
\<close>

theorem resolve_size_correct:
  assumes "bs_ok bs" "bs \<noteq> []"
  shows "\<exists>r bs'. btf__resolve_size bs tid = Some (r, bs') \<and> r < 2 ^ 32 \<and>
    (if 0 \<le> r then has_size bs tid (nat r) else r = - EINVAL \<or> r = - E2BIG)"
proof -
  obtain t where t: "btf__type_by_id bs tid = Some t" "case t of None \<Rightarrow> True | Some t \<Rightarrow> type_ok t"
    by (rule get_type_ok' [OF assms])
  obtain r where r: "resolve_size_loop MAX_RESOLVE_DEPTH bs t 1 = Some r"
    "case r of Inl err \<Rightarrow> err = - EINVAL \<or> err = - E2BIG | Inr x \<Rightarrow> True"
    using resolve_size_loop_total [OF assms t(2)] by blast
  show ?thesis
  proof (cases r)
    case (Inl err)
    then show ?thesis using t(1) r by (auto simp: btf__resolve_size_def)
  next
    case (Inr x)
    obtain w ne bs' where x: "x = (w, ne, bs')" by (cases x)
    have res: "btf__resolve_size bs tid = Some
        (if w < 0 then (- EINVAL, bs') else if ne \<noteq> 0 \<and> w > uint (- 1 div ne) then (- E2BIG, bs')
         else (uint ne * w, bs'))"
      using t(1) r(1) by (simp add: btf__resolve_size_def Inr x)
    show ?thesis
    proof (cases "w < 0 \<or> ne \<noteq> 0 \<and> w > uint (- 1 div ne)")
      case True
      then show ?thesis using res by auto
    next
      case False
      then have small: "uint ne * w < 2 ^ 32" "0 \<le> w" using size_guard [of ne w] by auto
      obtain s where s: "has_size bs tid s" "uint ne * w = uint (1 :: u32) * int s"
        using resolve_size_loop_sound [OF t(1) r(1) [unfolded Inr x] small(2)] by blast
      have "btf__resolve_size bs tid = Some (int s, bs')" using res False s(2) by auto
      then show ?thesis using s small(1) by auto
    qed
  qed
qed

theorem resolve_size_correct_witness:
  "\<exists>r bs'. btf__resolve_size [sample_obj] 4 = Some (r, bs') \<and> r < 2 ^ 32 \<and>
    (if 0 \<le> r then has_size [sample_obj] 4 (nat r) else r = - EINVAL \<or> r = - E2BIG)"
  by (rule resolve_size_correct [OF sample_obj_ok]) simp
section \<open>Resolving names of types\<close>






section \<open>Alignment\<close>

definition ptr_sz_sane :: "btf list \<Rightarrow> bool" where
  "ptr_sz_sane bs \<longleftrightarrow> (\<forall>b \<in> set bs. b_ptr_sz b \<in> {- 1, 0, 4, 8})"

lemma ptr_size_loop_range: "ptr_size_loop bs ids = Some n \<Longrightarrow> n \<in> {- 1, 4, 8}"
  by (induction ids) (auto simp: bind_eq_Some_conv simp del: c_str.simps split: if_splits option.splits)

lemma fill_ptr_sz_sane:
  assumes "fill_ptr_sz bs = Some bs'" "ptr_sz_sane bs"
  shows "ptr_sz_sane bs'" "bs' \<noteq> []" "b_ptr_sz (hd bs') \<in> {- 1, 4, 8}"
proof -
  obtain b base where bs: "bs = b # base" using assms(1) by (cases bs) (auto simp: fill_ptr_sz_def)
  have det: "n \<in> {- 1, 4, 8}" if "determine_ptr_size bs = Some n" for n
    using that ptr_size_loop_range assms(2)
    by (cases base) (auto simp: determine_ptr_size_def bs ptr_sz_sane_def split: if_splits)
  show "ptr_sz_sane bs'" "bs' \<noteq> []" "b_ptr_sz (hd bs') \<in> {- 1, 4, 8}"
    using assms det by (auto simp: fill_ptr_sz_def bs ptr_sz_sane_def split: if_splits)
qed

lemma btf_ptr_sz_sane:
  assumes "btf_ptr_sz bs = Some (w, bs')" "ptr_sz_sane bs"
  shows "ptr_sz_sane bs'" "w = 4 \<or> w = 8"
  using assms fill_ptr_sz_sane [of bs] by (auto simp: btf_ptr_sz_def bind_eq_Some_conv)

lemma size_to_int_min: "w = 4 \<or> w = 8 \<Longrightarrow> size_to_int (min w s) \<le> 8 \<and> 0 \<le> size_to_int (min w s)"
proof -
  assume "w = 4 \<or> w = 8"
  then have "unat (min w s) \<le> 8" by (auto simp: min_def word_le_nat_alt)
  then have "unat (ucast (min w s) :: u32) \<le> 8"
    by (simp add: unsigned_ucast_eq take_bit_nat_eq_self)
  moreover from this have "sint (ucast (min w s) :: u32) = int (unat (ucast (min w s) :: u32))"
    by (intro sint_small) simp
  ultimately show ?thesis unfolding size_to_int_def by linarith
qed

lemma align_bounds_loop:
  "btf__align_of n bs tid = Some (a, bs') \<Longrightarrow> ptr_sz_sane bs \<Longrightarrow> ptr_sz_sane bs' \<and> 0 \<le> a \<and> a \<le> 8"
  "align_members n bs t is mx = Some (a, bs') \<Longrightarrow> ptr_sz_sane bs \<Longrightarrow> 0 \<le> mx \<Longrightarrow> mx \<le> 8 \<Longrightarrow>
    ptr_sz_sane bs' \<and> 0 \<le> a \<and> a \<le> 8"
proof (induction n bs tid and n bs t "is" mx arbitrary: a bs' and a bs' rule: btf__align_of_align_members.induct)
  case (2 n bs tid)
  obtain t k where t: "the_type bs tid = Some t" "btf_kind t = Some k"
    using "2.prems"(1) by (auto simp: bind_eq_Some_conv)
  note eq = "2.prems"(1) [unfolded btf__align_of.simps t bind.simps]
  consider "k \<in> {BTF_KIND_INT, BTF_KIND_ENUM, BTF_KIND_FLOAT}" | "k = BTF_KIND_PTR"
    | "k \<in> {BTF_KIND_TYPEDEF, BTF_KIND_VOLATILE, BTF_KIND_CONST, BTF_KIND_RESTRICT}" | "k = BTF_KIND_ARRAY"
    | "k = BTF_KIND_STRUCT \<or> k = BTF_KIND_UNION"
    | "k \<notin> {BTF_KIND_INT, BTF_KIND_ENUM, BTF_KIND_FLOAT, BTF_KIND_PTR, BTF_KIND_TYPEDEF, BTF_KIND_VOLATILE,
        BTF_KIND_CONST, BTF_KIND_RESTRICT, BTF_KIND_ARRAY, BTF_KIND_STRUCT, BTF_KIND_UNION}"
    by auto
  then show ?case
  proof cases
    case 1
    then have "\<exists>w s. btf_ptr_sz bs = Some (w, bs') \<and> a = size_to_int (min w s)"
      using eq by (auto simp: bind_eq_Some_conv)
    then obtain w s where w: "btf_ptr_sz bs = Some (w, bs')" "a = size_to_int (min w s)" by blast
    then show ?thesis using btf_ptr_sz_sane [OF w(1) "2.prems"(2)] size_to_int_min [of w s] by simp
  next
    case 2
    then obtain w where w: "btf_ptr_sz bs = Some (w, bs')" "a = size_to_int w" using eq by auto
    then show ?thesis using btf_ptr_sz_sane [OF w(1) "2.prems"(2)] size_to_int_min [of w w] by simp
  next
    case 3
    then obtain ty where ty: "t_type t = Some ty" "btf__align_of n bs ty = Some (a, bs')"
      using eq by (auto simp: bind_eq_Some_conv)
    then show ?thesis using "2.IH"(1) [OF t _ _ _ ty(1)] 3 "2.prems"(2) by auto
  next
    case 4
    then obtain ar where ar: "btf_array t = Some ar" "btf__align_of n bs (ar_type ar) = Some (a, bs')"
      using eq by (auto simp: bind_eq_Some_conv)
    then show ?thesis using "2.IH"(2) [OF t _ _ _ _ ar(1)] 4 "2.prems"(2) by auto
  next
    case 5
    then obtain v where v: "btf_vlen t = Some v" "align_members n bs t [0 ..< unat v] 1 = Some (a, bs')"
      using eq by (auto simp: bind_eq_Some_conv)
    then show ?thesis using "2.IH"(3) [OF t _ _ _ _ _ v(1)] 5 "2.prems"(2) by auto
  next
    case 6
    then show ?thesis using eq "2.prems"(2) by auto
  qed
next
  case (4 n bs t i "is" mx)
  obtain m al bs1 where m: "btf_members t i = Some m" "btf__align_of n bs (mb_type m) = Some (al, bs1)"
    "if al \<le> 0 then (a, bs') = (al, bs1) else align_members n bs1 t is (max mx al) = Some (a, bs')"
    using "4.prems"(1) by (auto simp: bind_eq_Some_conv split: if_splits)
  have al: "ptr_sz_sane bs1 \<and> 0 \<le> al \<and> al \<le> 8" by (rule "4.IH"(1) [OF m(1,2) "4.prems"(2)])
  show ?case
  proof (cases "al \<le> 0")
    case True
    then show ?thesis using m(3) al by simp
  next
    case False
    then have "align_members n bs1 t is (max mx al) = Some (a, bs')" using m(3) by simp
    then show ?thesis using "4.IH"(2) [OF m(1,2) refl False] al "4.prems"(3,4) by auto
  qed
qed auto

text \<open>
  The alignment of a type is never negative and at most eight, the size of the largest
  pointer, at every depth of nesting; the pointer size stays one that was set or found.
\<close>

theorem align_of_bounds:
  assumes "btf__align_of n bs tid = Some (a, bs')" "ptr_sz_sane bs"
  shows "0 \<le> a \<and> a \<le> 8 \<and> ptr_sz_sane bs'"
  using align_bounds_loop(1) [OF assms] by blast
lemma sample_the_type:
  "the_type [sample_obj] 5 = Some (Btf_at sample_types 64)" "the_type [sample_obj] 2 = Some (Btf_at sample_types 16)"
  "the_type [sample_obj] 1 = Some (Btf_at sample_types 0)"
  by (simp_all add: the_type_def btf__type_by_id_def btf_type_by_id.simps sample_obj_def zero_btf_def
      sample_entries word_le_nat_alt)

lemma sample_align: "btf__align_of (Suc (Suc 0)) [sample_obj] 5 = Some (8, [sample_obj])"
proof -
  have k: "btf_kind (Btf_at sample_types 64) = Some 4" "btf_vlen (Btf_at sample_types 64) = Some 2"
    "btf_kind (Btf_at sample_types 16) = Some 2" "btf_kind (Btf_at sample_types 0) = Some 1"
    "t_size (Btf_at sample_types 0) = Some 4"
    "map_option mb_type (btf_members (Btf_at sample_types 64) 0) = Some 1"
    "map_option mb_type (btf_members (Btf_at sample_types 64) 1) = Some 2"
    by (simp_all add: btf_kind_def btf_vlen_def t_info_def t_size_def btf_members_def ld32_def ldn_def
        sample_types_def BTF_INFO_KIND_def BTF_INFO_VLEN_def)
  obtain m0 m1 where m: "btf_members (Btf_at sample_types 64) 0 = Some m0" "mb_type m0 = 1"
    "btf_members (Btf_at sample_types 64) (Suc 0) = Some m1" "mb_type m1 = 2" using k(6,7) by auto
  have p: "btf_ptr_sz [sample_obj] = Some (8, [sample_obj])"
    by (simp add: btf_ptr_sz_def fill_ptr_sz_def) (simp add: sample_obj_def)
  have "[0 ..< unat (2 :: u16)] = [0, Suc 0]" by (simp add: upt_rec)
  then show ?thesis
    using k m p by (simp add: sample_the_type size_to_int_def min_def word_le_nat_alt)
qed

theorem align_of_bounds_witness: "0 \<le> (8 :: int) \<and> (8 :: int) \<le> 8 \<and> ptr_sz_sane [sample_obj]"
  by (rule align_of_bounds [OF sample_align]) (simp add: ptr_sz_sane_def sample_obj_def)

text \<open>No depth is enough for a typedef of itself: the recursion has no bound of its own.\<close>

lemma align_of_cycle:
  assumes "the_type bs i = Some t" "btf_kind t = Some BTF_KIND_TYPEDEF" "t_type t = Some i"
  shows "btf__align_of n bs i = None"
  by (induction n) (simp_all add: assms)

end
