(* ===== verification/Btf_Write.thy ===== *)
theory Btf_Write
  imports Btf_Query
begin

text \<open>
  Building BTF, \<open>btf.c\<close>: an object is made modifiable, strings and types are appended, and the
  whole is laid out as raw data. What the functions that append a type, or an element to the last
  type, have in common is in \<open>append_type\<close> and \<open>append_element\<close>. A name is \<open>None\<close> for \<open>NULL\<close>, else
  the characters of the string.
\<close>

section \<open>Making an object modifiable\<close>

definition btf_is_modifiable :: "btf \<Rightarrow> bool" where
  "btf_is_modifiable btf = b_modifiable btf"

definition btf_invalidate_raw_data :: "btf \<Rightarrow> btf" where
  "btf_invalidate_raw_data btf = btf\<lparr>b_raw_data := None, b_raw_data_swapped := None\<rparr>"

text \<open>The header as it lies in memory, with what a longer header has behind the known fields.\<close>

definition hdr_block :: "btf \<Rightarrow> bytes option" where
  "hdr_block btf =
     (if btf_is_modifiable btf then Some (hdr_bytes (b_hdr btf) @ b_hdr_rest btf) else b_raw_data btf)"

definition btf_ensure_modifiable :: "allocs \<Rightarrow> bool \<Rightarrow> btf \<Rightarrow> (int \<times> btf) option" where
  "btf_ensure_modifiable al has_base btf =
     (if btf_is_modifiable btf then Some (0, btf_invalidate_raw_data btf)
      else if \<not> al_hdr al \<or> \<not> al_types al then Some (- ENOMEM, btf)
      else do {
        raw \<leftarrow> hdr_block btf;
        hdr \<leftarrow> ldn raw 0 (unat (h_hdr_len (b_hdr btf)));
        types \<leftarrow> ldn (fst (b_types_data btf)) (snd (b_types_data btf)) (unat (h_type_len (b_hdr btf)));
        (m, p) \<leftarrow> b_strs_data btf;
        strs \<leftarrow> ldn m p (unat (h_str_len (b_hdr btf)));
        r \<leftarrow> strset_new (al_set al) (al_set al) (al_set al) (al_entry al) (ucast BTF_MAX_STR_OFFSET) (Some strs);
        (case r of
           Inl err \<Rightarrow> Some (err, btf)
         | Inr ss \<Rightarrow>
             if length hdr < sizeof_btf_header then None
             else
               let btf = btf\<lparr>b_hdr_rest := drop sizeof_btf_header hdr, b_modifiable := True,
                 b_types_data := (types, 0), b_types_data_cap := ucast (h_type_len (b_hdr btf)),
                 b_strs_data := None, b_strs_set := Some ss\<rparr>;
                   btf = (if h_str_len (b_hdr btf) = 0 then btf\<lparr>b_strs_deduped := True\<rparr> else btf);
                   btf = (if \<not> has_base \<and> h_str_len (b_hdr btf) = 1 then btf\<lparr>b_strs_deduped := True\<rparr> else btf)
               in Some (0, btf_invalidate_raw_data btf))
      })"

section \<open>Strings\<close>

fun btf__find_str :: "allocs \<Rightarrow> btf list \<Rightarrow> bytes \<Rightarrow> (int \<times> btf list) option" where
  "btf__find_str al [] s = None"
| "btf__find_str al (btf # base) s = do {
     (off, base) \<leftarrow> (if base \<noteq> [] then btf__find_str al base s else Some (- ENOENT, base));
     if off \<noteq> - ENOENT then Some (off, btf # base)
     else do {
       (err, btf) \<leftarrow> btf_ensure_modifiable al (base \<noteq> []) btf;
       if err \<noteq> 0 then Some (- ENOMEM, btf # base)
       else do {
         ss \<leftarrow> b_strs_set btf;
         (off, ss) \<leftarrow> strset_find_str (al_str al) (al_junk al) ss s;
         let btf = btf\<lparr>b_strs_set := Some ss\<rparr>;
         if off < 0 then Some (off, btf # base)
         else Some (sint (b_start_str_off btf + of_int off), btf # base)
       }
     }
   }"

fun btf__add_str :: "allocs \<Rightarrow> btf list \<Rightarrow> bytes \<Rightarrow> (int \<times> btf list) option" where
  "btf__add_str al [] s = None"
| "btf__add_str al (btf # base) s = do {
     (off, base) \<leftarrow> (if base \<noteq> [] then btf__find_str al base s else Some (- ENOENT, base));
     if off \<noteq> - ENOENT then Some (off, btf # base)
     else do {
       (err, btf) \<leftarrow> btf_ensure_modifiable al (base \<noteq> []) btf;
       if err \<noteq> 0 then Some (- ENOMEM, btf # base)
       else do {
         ss \<leftarrow> b_strs_set btf;
         (off, ss) \<leftarrow> strset_add_str (al_str al) (al_junk al) (al_entry al) (al_entry al) ss s;
         let btf = btf\<lparr>b_strs_set := Some ss\<rparr>;
         if off < 0 then Some (off, btf # base)
         else do {
           let btf = btf\<lparr>b_hdr := (b_hdr btf)\<lparr>h_str_len := ucast (strset_data_size ss)\<rparr>\<rparr>;
           Some (sint (b_start_str_off btf + of_int off), btf # base)
         }
       }
     }
   }"

section \<open>Types\<close>

definition btf_add_type_mem :: "allocs \<Rightarrow> btf \<Rightarrow> nat \<Rightarrow> (nat option \<times> btf) option" where
  "btf_add_type_mem al btf add_sz = do {
     r \<leftarrow> libbpf_add_mem (al_types al) (al_junk al) (fst (b_types_data btf)) (b_types_data_cap btf) 1
       (ucast (h_type_len (b_hdr btf))) (ucast (- 1 :: u32)) (of_nat add_sz);
     Some (case r of
       None \<Rightarrow> (None, btf)
     | Some (p, types, cap_cnt) \<Rightarrow>
         (Some (unat p), btf\<lparr>b_types_data := (types, snd (b_types_data btf)), b_types_data_cap := cap_cnt\<rparr>))
   }"

text \<open>The fields of a structure, one word behind the other.\<close>

fun put_words :: "bytes \<Rightarrow> nat \<Rightarrow> u32 list \<Rightarrow> bytes option" where
  "put_words m p [] = Some m"
| "put_words m p (w # ws) = do { m \<leftarrow> st32 m p w; put_words m (p + 4) ws }"

definition put_in_types :: "btf \<Rightarrow> nat \<Rightarrow> u32 list \<Rightarrow> btf option" where
  "put_in_types btf p ws = do {
     m \<leftarrow> put_words (fst (b_types_data btf)) p ws;
     Some (btf\<lparr>b_types_data := (m, snd (b_types_data btf))\<rparr>)
   }"

definition add_type_len :: "btf \<Rightarrow> nat \<Rightarrow> btf" where
  "add_type_len btf data_sz = btf\<lparr>b_hdr := (b_hdr btf)\<lparr>h_type_len := h_type_len (b_hdr btf) + of_nat data_sz,
     h_str_off := h_str_off (b_hdr btf) + of_nat data_sz\<rparr>\<rparr>"

definition btf_commit_type :: "allocs \<Rightarrow> btf \<Rightarrow> nat \<Rightarrow> (int \<times> btf) option" where
  "btf_commit_type al btf data_sz = do {
     (err, btf) \<leftarrow> btf_add_type_idx_entry al btf (h_type_len (b_hdr btf));
     if err \<noteq> 0 then Some (err, btf)
     else do {
       let btf = add_type_len btf data_sz;
       let btf = btf\<lparr>b_nr_types := b_nr_types btf + 1\<rparr>;
       Some (sint (b_start_id btf + b_nr_types btf - 1), btf)
     }
   }"

definition named :: "bytes option \<Rightarrow> bool" where
  "named name = (case name of None \<Rightarrow> False | Some s \<Rightarrow> s \<noteq> [])"

text \<open>
  The name of the type or element, when there is one: its offset, zero without a name, an error
  when it is negative.
\<close>

definition add_name :: "allocs \<Rightarrow> btf list \<Rightarrow> bytes option \<Rightarrow> (int \<times> btf list) option" where
  "add_name al bs name = (if named name then btf__add_str al bs (the name) else Some (0, bs))"

definition append_type :: "allocs \<Rightarrow> btf list \<Rightarrow> bytes option \<Rightarrow> u32 list \<Rightarrow> (int \<times> btf list) option" where
  "append_type al bs name ws =
     (case bs of
        [] \<Rightarrow> None
      | btf # base \<Rightarrow> do {
          (err, btf) \<leftarrow> btf_ensure_modifiable al (base \<noteq> []) btf;
          if err \<noteq> 0 then Some (- ENOMEM, btf # base)
          else do {
            let n = 4 + 4 * length ws;
            (t, btf) \<leftarrow> btf_add_type_mem al btf n;
            (case t of
               None \<Rightarrow> Some (- ENOMEM, btf # base)
             | Some t \<Rightarrow> do {
                 (name_off, bs) \<leftarrow> add_name al (btf # base) name;
                 if name_off < 0 then Some (name_off, bs)
                 else do {
                   btf \<leftarrow> put_in_types (hd bs) t (of_int name_off # ws);
                   (id, btf) \<leftarrow> btf_commit_type al btf n;
                   Some (id, btf # tl bs)
                 }
               })
          }
        })"

text \<open>An element behind the last type; \<open>info\<close> gives the type its new info word.\<close>

definition append_element :: "allocs \<Rightarrow> btf list \<Rightarrow> bytes option \<Rightarrow> (u32 \<Rightarrow> u32 list) \<Rightarrow>
    (btf_ptr \<Rightarrow> u32 option) \<Rightarrow> (int \<times> btf list) option" where
  "append_element al bs name ws info =
     (case bs of
        [] \<Rightarrow> None
      | btf # base \<Rightarrow> do {
          (err, btf) \<leftarrow> btf_ensure_modifiable al (base \<noteq> []) btf;
          if err \<noteq> 0 then Some (- ENOMEM, btf # base)
          else do {
            let n = 4 * length (ws 0);
            (p, btf) \<leftarrow> btf_add_type_mem al btf n;
            (case p of
               None \<Rightarrow> Some (- ENOMEM, btf # base)
             | Some p \<Rightarrow> do {
                 (name_off, bs) \<leftarrow> add_name al (btf # base) name;
                 if name_off < 0 then Some (name_off, bs)
                 else do {
                   btf \<leftarrow> put_in_types (hd bs) p (ws (of_int name_off));
                   t \<leftarrow> btf_type_by_id (btf # tl bs) (btf__get_nr_types btf);
                   w \<leftarrow> info t;
                   btf \<leftarrow> (case t of Btf_void \<Rightarrow> None | Btf_at m q \<Rightarrow> put_in_types btf (q + 4) [w]);
                   Some (0, add_type_len btf n # tl bs)
                 }
               })
          }
        })"

definition btf_last_type :: "btf list \<Rightarrow> btf_ptr option" where
  "btf_last_type bs = (case bs of [] \<Rightarrow> None | btf # base \<Rightarrow> btf_type_by_id bs (btf__get_nr_types btf))"

definition btf_type_inc_vlen :: "btf_ptr \<Rightarrow> u32 option" where
  "btf_type_inc_vlen t = do {
     kind \<leftarrow> btf_kind t;
     vlen \<leftarrow> btf_vlen t;
     kflag \<leftarrow> btf_kflag t;
     Some (btf_type_info (ucast kind) (ucast vlen + 1) (if kflag then 1 else 0))
   }"

section \<open>Appending types\<close>

definition btf__add_int :: "allocs \<Rightarrow> btf list \<Rightarrow> bytes option \<Rightarrow> u64 \<Rightarrow> int \<Rightarrow> (int \<times> btf list) option" where
  "btf__add_int al bs name byte_sz encoding =
     (if \<not> named name then Some (- EINVAL, bs)
      else if byte_sz = 0 \<or> byte_sz AND (byte_sz - 1) \<noteq> 0 \<or> byte_sz > 16 then Some (- EINVAL, bs)
      else if encoding AND NOT (BTF_INT_SIGNED OR BTF_INT_CHAR OR BTF_INT_BOOL) \<noteq> 0 then Some (- EINVAL, bs)
      else append_type al bs name
        [btf_type_info (ucast BTF_KIND_INT) 0 0, ucast byte_sz,
         push_bit 24 (of_int encoding) OR ucast (byte_sz * 8)])"

definition btf__add_float :: "allocs \<Rightarrow> btf list \<Rightarrow> bytes option \<Rightarrow> u64 \<Rightarrow> (int \<times> btf list) option" where
  "btf__add_float al bs name byte_sz =
     (if \<not> named name then Some (- EINVAL, bs)
      else if byte_sz \<noteq> 2 \<and> byte_sz \<noteq> 4 \<and> byte_sz \<noteq> 8 \<and> byte_sz \<noteq> 12 \<and> byte_sz \<noteq> 16 then Some (- EINVAL, bs)
      else append_type al bs name [btf_type_info (ucast BTF_KIND_FLOAT) 0 0, ucast byte_sz])"

definition validate_type_id :: "int \<Rightarrow> int" where
  "validate_type_id tid = (if tid < 0 \<or> (of_int tid :: u32) > BTF_MAX_NR_TYPES then - EINVAL else 0)"

definition btf_add_ref_kind :: "allocs \<Rightarrow> btf list \<Rightarrow> u16 \<Rightarrow> bytes option \<Rightarrow> int \<Rightarrow> (int \<times> btf list) option" where
  "btf_add_ref_kind al bs kind name ref_type_id =
     (if validate_type_id ref_type_id \<noteq> 0 then Some (- EINVAL, bs)
      else append_type al bs name [btf_type_info (ucast kind) 0 0, of_int ref_type_id])"

definition btf__add_ptr :: "allocs \<Rightarrow> btf list \<Rightarrow> int \<Rightarrow> (int \<times> btf list) option" where
  "btf__add_ptr al bs ref_type_id = btf_add_ref_kind al bs BTF_KIND_PTR None ref_type_id"

definition btf__add_array :: "allocs \<Rightarrow> btf list \<Rightarrow> int \<Rightarrow> int \<Rightarrow> u32 \<Rightarrow> (int \<times> btf list) option" where
  "btf__add_array al bs index_type_id elem_type_id nr_elems =
     (if validate_type_id index_type_id \<noteq> 0 \<or> validate_type_id elem_type_id \<noteq> 0 then Some (- EINVAL, bs)
      else append_type al bs None
        [btf_type_info (ucast BTF_KIND_ARRAY) 0 0, 0, of_int elem_type_id, of_int index_type_id, nr_elems])"

definition btf_add_composite :: "allocs \<Rightarrow> btf list \<Rightarrow> u16 \<Rightarrow> bytes option \<Rightarrow> u32 \<Rightarrow> (int \<times> btf list) option" where
  "btf_add_composite al bs kind name bytes_sz =
     append_type al bs name [btf_type_info (ucast kind) 0 0, bytes_sz]"

definition btf__add_struct :: "allocs \<Rightarrow> btf list \<Rightarrow> bytes option \<Rightarrow> u32 \<Rightarrow> (int \<times> btf list) option" where
  "btf__add_struct al bs name byte_sz = btf_add_composite al bs BTF_KIND_STRUCT name byte_sz"

definition btf__add_union :: "allocs \<Rightarrow> btf list \<Rightarrow> bytes option \<Rightarrow> u32 \<Rightarrow> (int \<times> btf list) option" where
  "btf__add_union al bs name byte_sz = btf_add_composite al bs BTF_KIND_UNION name byte_sz"

definition btf__add_enum :: "allocs \<Rightarrow> btf list \<Rightarrow> bytes option \<Rightarrow> u32 \<Rightarrow> (int \<times> btf list) option" where
  "btf__add_enum al bs name byte_sz =
     (if byte_sz = 0 \<or> byte_sz AND (byte_sz - 1) \<noteq> 0 \<or> byte_sz > 8 then Some (- EINVAL, bs)
      else append_type al bs name [btf_type_info (ucast BTF_KIND_ENUM) 0 0, byte_sz])"

text \<open>An info word written into a type that was just appended.\<close>

definition set_info :: "btf list \<Rightarrow> u32 \<Rightarrow> u32 \<Rightarrow> btf list option" where
  "set_info bs tid info = do {
     t \<leftarrow> btf_type_by_id bs tid;
     (case (bs, t) of
        (btf # base, Btf_at m q) \<Rightarrow> do { btf \<leftarrow> put_in_types btf (q + 4) [info]; Some (btf # base) }
      | _ \<Rightarrow> None)
   }"

abbreviation (input) BTF_FWD_STRUCT :: int where "BTF_FWD_STRUCT \<equiv> 0"
abbreviation (input) BTF_FWD_UNION :: int where "BTF_FWD_UNION \<equiv> 1"
abbreviation (input) BTF_FWD_ENUM :: int where "BTF_FWD_ENUM \<equiv> 2"

definition btf__add_fwd :: "allocs \<Rightarrow> btf list \<Rightarrow> bytes option \<Rightarrow> int \<Rightarrow> (int \<times> btf list) option" where
  "btf__add_fwd al bs name fwd_kind =
     (if \<not> named name then Some (- EINVAL, bs)
      else if fwd_kind = BTF_FWD_STRUCT \<or> fwd_kind = BTF_FWD_UNION then do {
        (id, bs) \<leftarrow> btf_add_ref_kind al bs BTF_KIND_FWD name 0;
        if id \<le> 0 then Some (id, bs)
        else do {
          bs \<leftarrow> set_info bs (of_int id)
            (btf_type_info (ucast BTF_KIND_FWD) 0 (if fwd_kind = BTF_FWD_UNION then 1 else 0));
          Some (id, bs)
        }
      }
      else if fwd_kind = BTF_FWD_ENUM then btf__add_enum al bs name 4
      else Some (- EINVAL, bs))"

definition btf__add_typedef :: "allocs \<Rightarrow> btf list \<Rightarrow> bytes option \<Rightarrow> int \<Rightarrow> (int \<times> btf list) option" where
  "btf__add_typedef al bs name ref_type_id =
     (if \<not> named name then Some (- EINVAL, bs)
      else btf_add_ref_kind al bs BTF_KIND_TYPEDEF name ref_type_id)"

definition btf__add_volatile :: "allocs \<Rightarrow> btf list \<Rightarrow> int \<Rightarrow> (int \<times> btf list) option" where
  "btf__add_volatile al bs ref_type_id = btf_add_ref_kind al bs BTF_KIND_VOLATILE None ref_type_id"

definition btf__add_const :: "allocs \<Rightarrow> btf list \<Rightarrow> int \<Rightarrow> (int \<times> btf list) option" where
  "btf__add_const al bs ref_type_id = btf_add_ref_kind al bs BTF_KIND_CONST None ref_type_id"

definition btf__add_restrict :: "allocs \<Rightarrow> btf list \<Rightarrow> int \<Rightarrow> (int \<times> btf list) option" where
  "btf__add_restrict al bs ref_type_id = btf_add_ref_kind al bs BTF_KIND_RESTRICT None ref_type_id"

abbreviation (input) BTF_FUNC_STATIC :: int where "BTF_FUNC_STATIC \<equiv> 0"
abbreviation (input) BTF_FUNC_GLOBAL :: int where "BTF_FUNC_GLOBAL \<equiv> 1"
abbreviation (input) BTF_FUNC_EXTERN :: int where "BTF_FUNC_EXTERN \<equiv> 2"

definition btf__add_func :: "allocs \<Rightarrow> btf list \<Rightarrow> bytes option \<Rightarrow> int \<Rightarrow> int \<Rightarrow> (int \<times> btf list) option" where
  "btf__add_func al bs name linkage proto_type_id =
     (if \<not> named name then Some (- EINVAL, bs)
      else if linkage \<noteq> BTF_FUNC_STATIC \<and> linkage \<noteq> BTF_FUNC_GLOBAL \<and> linkage \<noteq> BTF_FUNC_EXTERN then
        Some (- EINVAL, bs)
      else do {
        (id, bs) \<leftarrow> btf_add_ref_kind al bs BTF_KIND_FUNC name proto_type_id;
        if id > 0 then do {
          bs \<leftarrow> set_info bs (of_int id) (btf_type_info (ucast BTF_KIND_FUNC) (of_int linkage) 0);
          Some (id, bs)
        }
        else Some (id, bs)
      })"

definition btf__add_func_proto :: "allocs \<Rightarrow> btf list \<Rightarrow> int \<Rightarrow> (int \<times> btf list) option" where
  "btf__add_func_proto al bs ret_type_id =
     (if validate_type_id ret_type_id \<noteq> 0 then Some (- EINVAL, bs)
      else append_type al bs None [btf_type_info (ucast BTF_KIND_FUNC_PROTO) 0 0, of_int ret_type_id])"

abbreviation (input) BTF_VAR_STATIC :: int where "BTF_VAR_STATIC \<equiv> 0"
abbreviation (input) BTF_VAR_GLOBAL_ALLOCATED :: int where "BTF_VAR_GLOBAL_ALLOCATED \<equiv> 1"
abbreviation (input) BTF_VAR_GLOBAL_EXTERN :: int where "BTF_VAR_GLOBAL_EXTERN \<equiv> 2"

definition btf__add_var :: "allocs \<Rightarrow> btf list \<Rightarrow> bytes option \<Rightarrow> int \<Rightarrow> int \<Rightarrow> (int \<times> btf list) option" where
  "btf__add_var al bs name linkage type_id =
     (if \<not> named name then Some (- EINVAL, bs)
      else if linkage \<noteq> BTF_VAR_STATIC \<and> linkage \<noteq> BTF_VAR_GLOBAL_ALLOCATED \<and> linkage \<noteq> BTF_VAR_GLOBAL_EXTERN then
        Some (- EINVAL, bs)
      else if validate_type_id type_id \<noteq> 0 then Some (- EINVAL, bs)
      else append_type al bs name [btf_type_info (ucast BTF_KIND_VAR) 0 0, of_int type_id, of_int linkage])"

definition btf__add_datasec :: "allocs \<Rightarrow> btf list \<Rightarrow> bytes option \<Rightarrow> u32 \<Rightarrow> (int \<times> btf list) option" where
  "btf__add_datasec al bs name byte_sz =
     (if \<not> named name then Some (- EINVAL, bs)
      else append_type al bs name [btf_type_info (ucast BTF_KIND_DATASEC) 0 0, byte_sz])"

section \<open>Appending elements to the last type\<close>

definition has_types :: "btf list \<Rightarrow> bool option" where
  "has_types bs = (case bs of [] \<Rightarrow> None | btf # base \<Rightarrow> Some (b_nr_types btf \<noteq> 0))"

definition btf__add_field :: "allocs \<Rightarrow> btf list \<Rightarrow> bytes option \<Rightarrow> int \<Rightarrow> u32 \<Rightarrow> u32 \<Rightarrow> (int \<times> btf list) option" where
  "btf__add_field al bs name type_id bit_offset bit_size = do {
     some \<leftarrow> has_types bs;
     if \<not> some then Some (- EINVAL, bs)
     else do {
       t \<leftarrow> btf_last_type bs;
       composite \<leftarrow> btf_is_composite t;
       is_union \<leftarrow> btf_is_union t;
       if \<not> composite then Some (- EINVAL, bs)
       else if validate_type_id type_id \<noteq> 0 then Some (- EINVAL, bs)
       else do {
         let is_bitfield = (bit_size \<noteq> 0 \<or> bit_offset mod 8 \<noteq> 0);
         if is_bitfield \<and> (bit_size = 0 \<or> bit_size > 255 \<or> bit_offset > 0xffffff) then Some (- EINVAL, bs)
         else if is_union \<and> bit_offset \<noteq> 0 then Some (- EINVAL, bs)
         else append_element al bs name
           (\<lambda>name_off. [name_off, of_int type_id, bit_offset OR push_bit 24 bit_size])
           (\<lambda>t. do {
              kind \<leftarrow> btf_kind t;
              vlen \<leftarrow> btf_vlen t;
              kflag \<leftarrow> btf_kflag t;
              Some (btf_type_info (ucast kind) (ucast vlen + 1) (if is_bitfield \<or> kflag then 1 else 0))
            })
       }
     }
   }"

definition btf__add_enum_value :: "allocs \<Rightarrow> btf list \<Rightarrow> bytes option \<Rightarrow> int \<Rightarrow> (int \<times> btf list) option" where
  "btf__add_enum_value al bs name val = do {
     some \<leftarrow> has_types bs;
     if \<not> some then Some (- EINVAL, bs)
     else do {
       t \<leftarrow> btf_last_type bs;
       is_enum \<leftarrow> btf_is_enum t;
       if \<not> is_enum then Some (- EINVAL, bs)
       else if \<not> named name then Some (- EINVAL, bs)
       else if val < - (2 ^ 31) \<or> val > 2 ^ 32 - 1 then Some (- E2BIG, bs)
       else append_element al bs name (\<lambda>name_off. [name_off, of_int val]) btf_type_inc_vlen
     }
   }"

definition btf__add_func_param :: "allocs \<Rightarrow> btf list \<Rightarrow> bytes option \<Rightarrow> int \<Rightarrow> (int \<times> btf list) option" where
  "btf__add_func_param al bs name type_id =
     (if validate_type_id type_id \<noteq> 0 then Some (- EINVAL, bs)
      else do {
        some \<leftarrow> has_types bs;
        if \<not> some then Some (- EINVAL, bs)
        else do {
          t \<leftarrow> btf_last_type bs;
          proto \<leftarrow> btf_is_func_proto t;
          if \<not> proto then Some (- EINVAL, bs)
          else append_element al bs name (\<lambda>name_off. [name_off, of_int type_id]) btf_type_inc_vlen
        }
      })"

definition btf__add_datasec_var_info :: "allocs \<Rightarrow> btf list \<Rightarrow> int \<Rightarrow> u32 \<Rightarrow> u32 \<Rightarrow> (int \<times> btf list) option" where
  "btf__add_datasec_var_info al bs var_type_id offset byte_sz = do {
     some \<leftarrow> has_types bs;
     if \<not> some then Some (- EINVAL, bs)
     else do {
       t \<leftarrow> btf_last_type bs;
       is_datasec \<leftarrow> btf_is_datasec t;
       if \<not> is_datasec then Some (- EINVAL, bs)
       else if validate_type_id var_type_id \<noteq> 0 then Some (- EINVAL, bs)
       else append_element al bs None (\<lambda>name_off. [of_int var_type_id, offset, byte_sz]) btf_type_inc_vlen
     }
   }"

end
