(* ===== verification/Btf_Build.thy ===== *)
theory Btf_Build
  imports Btf_Write
begin

text \<open>
  What building BTF guarantees: every function of \<open>Btf_Write\<close> keeps an object in the shape that
  loading demands of raw data, whatever allocation fails, and appends exactly the type, element or
  string asked for. Objects without a base, once modifiable.
\<close>

section \<open>Objects under construction\<close>

definition building :: "btf \<Rightarrow> bytes \<Rightarrow> u32 list \<Rightarrow> strset \<Rightarrow> bool" where
  "building btf m os ss \<longleftrightarrow> b_modifiable btf \<and> b_start_id btf = 1 \<and> b_start_str_off btf = 0 \<and>
     b_types_data btf = (m, 0) \<and> length m = unat (b_types_data_cap btf) \<and> length m < 2 ^ 32 \<and>
     unat (h_type_len (b_hdr btf)) \<le> length m \<and> idx_ok btf os \<and>
     types_chain m 0 (map unat os) (unat (h_type_len (b_hdr btf))) \<and>
     b_strs_data btf = None \<and> b_strs_set btf = Some ss \<and> ss_inv ss \<and>
     h_str_len (b_hdr btf) = ucast (strs_data_len ss) \<and>
     (0 < strs_data_len ss \<longrightarrow> strs_data ss ! (unat (strs_data_len ss) - 1) = 0) \<and>
     h_magic (b_hdr btf) = BTF_MAGIC \<and> h_hdr_len (b_hdr btf) = 24 \<and> h_type_off (b_hdr btf) = 0 \<and>
     h_str_off (b_hdr btf) = h_type_len (b_hdr btf) \<and> b_hdr_rest btf = []"

definition builder_ok :: "btf \<Rightarrow> bool" where
  "builder_ok btf \<longleftrightarrow> (\<exists>m os ss. building btf m os ss)"

lemma building_nr: "building btf m os ss \<Longrightarrow> unat (b_nr_types btf) = length os"
  by (simp add: building_def idx_ok_def)

lemma building_small: "building btf m os ss \<Longrightarrow> 12 * length os < 2 ^ 32"
  using types_chain_le [of m 0 "map unat os" "unat (h_type_len (b_hdr btf))"]
    unsigned_less [of "h_type_len (b_hdr btf)", where ?'a = nat]
  by (simp add: building_def)

text \<open>What stays when something is appended: the old types, the index and the old strings.\<close>

definition same_below :: "bytes \<Rightarrow> bytes \<Rightarrow> nat \<Rightarrow> bool" where
  "same_below m m' n \<longleftrightarrow> (\<forall>j. j + 4 \<le> n \<longrightarrow> ld32 m' j = ld32 m j)"

lemma same_below_refl: "same_below m m n"
  by (simp add: same_below_def)

lemma same_below_trans: "same_below m m' n \<Longrightarrow> same_below m' m'' n' \<Longrightarrow> n \<le> n' \<Longrightarrow> same_below m m'' n"
  by (simp add: same_below_def)

lemma add_type_mem_ok:
  assumes b: "building btf m os ss" and n: "n < 2 ^ 20"
  shows "btf_add_type_mem al btf n = Some (None, btf) \<or>
    (\<exists>m' cap_cnt. btf_add_type_mem al btf n = Some (Some (unat (h_type_len (b_hdr btf))),
         btf\<lparr>b_types_data := (m', 0), b_types_data_cap := cap_cnt\<rparr>) \<and>
       building (btf\<lparr>b_types_data := (m', 0), b_types_data_cap := cap_cnt\<rparr>) m' os ss \<and>
       same_below m m' (length m) \<and> unat (h_type_len (b_hdr btf)) + n \<le> length m')"
proof -
  let ?len = "h_type_len (b_hdr btf)" and ?cap = "b_types_data_cap btf"
  let ?cur = "ucast ?len :: u64" and ?add = "of_nat n :: u64" and ?max = "ucast (- 1 :: u32) :: u64"
  note B = b [unfolded building_def]
  have lm: "length m = unat ?cap" "length m < 2 ^ 32" "unat ?len \<le> length m" "fst (b_types_data btf) = m"
    "snd (b_types_data btf) = 0"
    using B by simp_all
  have cur: "unat ?cur = unat ?len" by (rule unat_ucast_u64)
  have add: "unat ?add = n" using n by (simp add: unsigned_of_nat take_bit_nat_eq_self)
  have max: "unat ?max = 2 ^ 32 - 1"
    by (simp only: unat_ucast_u64) (simp add: unsigned_minus_1_eq_mask mask_eq_exp_minus_1)
  have region: "region_ok m ?cap 1" using lm by (simp add: region_ok_def)
  have le: "?cur \<le> ?cap" using lm cur by (simp add: word_le_nat_alt)
  have small: "unat ?cur + unat ?add < 2 ^ 62" using cur add n lm(2,3) by simp
  have sum: "unat (?cur + ?add) = unat ?len + n"
    using small cur add by (simp add: unat_word_ariths)
  obtain r where r: "libbpf_add_mem (al_types al) (al_junk al) m ?cap 1 ?cur ?max ?add = Some r"
    and sp: "case r of None \<Rightarrow> ?cap < ?cur + ?add
     | Some (p, data', cap') \<Rightarrow>
         p = ?cur * 1 \<and> ?cap \<le> cap' \<and> ?cur + ?add \<le> cap' \<and> length data' = unat cap' * unat (1 :: u64) \<and>
         data' = m @ replicate (length data' - length m) 0 \<and> (cap' = ?cap \<or> cap' \<le> ?max)"
    using libbpf_add_mem_spec [OF region _ le small, of "al_types al" "al_junk al" ?max] by auto
  show ?thesis
  proof (cases r)
    case None
    then show ?thesis using r lm by (simp add: btf_add_type_mem_def)
  next
    case (Some a)
    obtain p m' cap' where a: "a = (p, m', cap')" by (cases a)
    note sp' = sp [unfolded Some a option.case prod.case]
    have p: "p = ?cur" "?cur + ?add \<le> cap'" "length m' = unat cap'" "cap' = ?cap \<or> cap' \<le> ?max"
      using sp' by simp_all
    have grown: "m' = m @ replicate (length m' - length m) 0" using sp' by blast
    have fits: "unat ?len + n \<le> length m'" using p(2,3) sum by (simp add: word_le_nat_alt)
    have lt: "length m' < 2 ^ 32" using p(3,4) lm(1,2) max by (auto simp: word_le_nat_alt)
    have keep: "same_below m m' (length m)"
      unfolding same_below_def by (subst grown) (simp add: ld32_append)
    then have ch: "types_chain m' 0 (map unat os) (unat ?len)"
      using types_chain_frame [of m 0 "map unat os" "unat ?len" m'] B lm(3) by (simp add: same_below_def)
    let ?b = "btf\<lparr>b_types_data := (m', 0), b_types_data_cap := cap'\<rparr>"
    have "building ?b m' os ss"
      using B p(3) lt fits ch by (simp add: building_def idx_ok_def)
    moreover have "btf_add_type_mem al btf n = Some (Some (unat ?len), ?b)"
      using r lm by (simp add: btf_add_type_mem_def Some a p(1) cur)
    ultimately show ?thesis using keep fits by blast
  qed
qed

section \<open>Strings\<close>

lemma last_byte_zero:
  assumes "c_string data off = s" "terminated data (off + length s + 1) off"
  shows "data ! (off + length s) = 0"
proof -
  let ?rest = "drop off data"
  have "0 \<in> set ?rest"
    using assms(2) by (auto simp: terminated_def dest: in_set_dropD) (metis drop_take in_set_takeD)
  then have "length (takeWhile (\<lambda>c. c \<noteq> 0) ?rest) < length ?rest"
    by (intro length_takeWhile_less_stop) auto
  then have "?rest ! length (takeWhile (\<lambda>c. c \<noteq> 0) ?rest) = 0"
    using nth_length_takeWhile by blast
  moreover have "off \<le> length data" using \<open>0 \<in> set ?rest\<close> by (cases "off \<le> length data") auto
  ultimately show ?thesis using assms(1) by (simp add: c_string_def)
qed
lemma ensure_modifiable_building:
  "building btf m os ss \<Longrightarrow> btf_ensure_modifiable al has_base btf = Some (0, btf_invalidate_raw_data btf)"
  "building btf m os ss \<Longrightarrow> building (btf_invalidate_raw_data btf) m os ss"
  by (simp_all add: building_def btf_ensure_modifiable_def btf_is_modifiable_def btf_invalidate_raw_data_def idx_ok_def)

definition name_ok :: "bytes option \<Rightarrow> bool" where
  "name_ok name = (case name of None \<Rightarrow> True | Some s \<Rightarrow> 0 \<notin> set s \<and> length s < 2 ^ 30)"

text \<open>What adding a string leaves alone.\<close>

definition same_types :: "btf \<Rightarrow> btf \<Rightarrow> bool" where
  "same_types btf btf' \<longleftrightarrow> b_types_data btf' = b_types_data btf \<and> b_types_data_cap btf' = b_types_data_cap btf \<and>
     b_type_offs btf' = b_type_offs btf \<and> b_type_offs_cap btf' = b_type_offs_cap btf \<and>
     b_nr_types btf' = b_nr_types btf \<and> h_type_len (b_hdr btf') = h_type_len (b_hdr btf)"

definition more_strs :: "strset \<Rightarrow> strset \<Rightarrow> bool" where
  "more_strs ss ss' \<longleftrightarrow> strs_data_len ss \<le> strs_data_len ss' \<and>
     take (unat (strs_data_len ss)) (strs_data ss') = take (unat (strs_data_len ss)) (strs_data ss)"

lemma more_strs_refl: "more_strs ss ss"
  by (simp add: more_strs_def)

lemma uint_small: "unat (w :: u64) < 2 ^ 31 \<Longrightarrow> uint w < 2 ^ 31"
proof -
  assume "unat w < 2 ^ 31"
  then have "int (unat w) < int (2 ^ 31)" by (simp only: of_nat_less_iff)
  then show ?thesis by (simp only: of_nat_unat of_nat_power of_nat_numeral)
qed

lemma strset_add_ends:
  assumes inv: "ss_inv ss" "0 \<notin> set s" "length s < 2 ^ 30"
    and z: "0 < strs_data_len ss \<longrightarrow> strs_data ss ! (unat (strs_data_len ss) - 1) = 0"
  shows "\<exists>r ss'. strset_add_str ok junk c1 c2 ss s = Some (r, ss') \<and> ss_inv ss' \<and> more_strs ss ss' \<and>
    (0 < strs_data_len ss' \<longrightarrow> strs_data ss' ! (unat (strs_data_len ss') - 1) = 0) \<and>
    (0 \<le> r \<longrightarrow> ss_lookup ss' s = Some (of_int r) \<and> r < 2 ^ 31) \<and>
    (r < 0 \<longrightarrow> strs_data_len ss' = strs_data_len ss)"
proof -
  let ?n = "strs_data_len ss"
  obtain r ss' where a: "strset_add_str ok junk c1 c2 ss s = Some (r, ss')" "ss_inv ss'"
    "take (unat ?n) (strs_data ss') = take (unat ?n) (strs_data ss)"
    "case ss_lookup ss s of
       Some off \<Rightarrow> (r = int (unat off) \<or> r = - ENOMEM) \<and> ss_lookup ss' = ss_lookup ss \<and>
         strs_data_len ss' = ?n
     | None \<Rightarrow>
         r = int (unat ?n) \<and> ss_lookup ss' = (ss_lookup ss)(s \<mapsto> ?n) \<and>
         unat (strs_data_len ss') = unat ?n + length s + 1
       \<or> r = - ENOMEM \<and> ss_lookup ss' = ss_lookup ss \<and> strs_data_len ss' = ?n"
    using strset_add_str_spec [OF inv, of ok junk c1 c2] by blast
  have small: "unat (strs_data_len ss) < 2 ^ 31" "unat (strs_data_len ss') < 2 ^ 31"
    using inv(1) a(2) by (auto simp: ss_inv_def word_le_nat_alt)
  have r: "(0 \<le> r \<longrightarrow> ss_lookup ss' s = Some (of_int r) \<and> r < 2 ^ 31) \<and>
      (r < 0 \<longrightarrow> strs_data_len ss' = strs_data_len ss)"
  proof (cases "ss_lookup ss s")
    case None
    then show ?thesis using a(4) uint_small [OF small(1)] by auto
  next
    case (Some off)
    then have "unat off < 2 ^ 31" using ss_lookup_Some(1) [OF inv(1) Some] small(1) by simp
    then show ?thesis using a(4) Some uint_small [of off] by auto
  qed
  have same: "strs_data ss' ! (unat ?n - 1) = strs_data ss ! (unat ?n - 1)" if "0 < ?n"
  proof -
    have "0 < unat ?n" using that by (simp add: word_less_nat_alt)
    then have "strs_data ss' ! (unat ?n - 1) = take (unat ?n) (strs_data ss') ! (unat ?n - 1)"
      "strs_data ss ! (unat ?n - 1) = take (unat ?n) (strs_data ss) ! (unat ?n - 1)" by simp_all
    then show ?thesis using a(3) by simp
  qed
  have "(0 < strs_data_len ss' \<longrightarrow> strs_data ss' ! (unat (strs_data_len ss') - 1) = 0) \<and> ?n \<le> strs_data_len ss'"
  proof (cases "strs_data_len ss' = ?n")
    case True
    then show ?thesis using same z by auto
  next
    case False
    then have new: "ss_lookup ss' s = Some ?n" "unat (strs_data_len ss') = unat ?n + length s + 1"
      using a(4) by (auto split: option.splits)
    have "strs_data ss' ! (unat ?n + length s) = 0"
      using last_byte_zero ss_lookup_Some(2,3) [OF a(2) new(1)] unfolding new(2) by blast
    then show ?thesis using new(2) by (simp add: word_le_nat_alt)
  qed
  then show ?thesis using a(1-3) r by (auto simp: more_strs_def)
qed

lemma add_str_ok:
  assumes b: "building btf m os ss" and s: "0 \<notin> set s" "length s < 2 ^ 30"
  shows "\<exists>r btf' ss'. btf__add_str al [btf] s = Some (r, [btf']) \<and> building btf' m os ss' \<and>
    same_types btf btf' \<and> more_strs ss ss' \<and> (0 \<le> r \<longrightarrow> r < 2 ^ 31 \<and> ss_lookup ss' s = Some (of_int r))"
proof -
  let ?b = "btf_invalidate_raw_data btf"
  note B = ensure_modifiable_building(2) [OF b, unfolded building_def]
  have ss: "b_strs_set ?b = Some ss" "ss_inv ss"
    "0 < strs_data_len ss \<longrightarrow> strs_data ss ! (unat (strs_data_len ss) - 1) = 0" "b_start_str_off ?b = 0"
    using B by blast+
  obtain r ss' where r: "strset_add_str (al_str al) (al_junk al) (al_entry al) (al_entry al) ss s = Some (r, ss')"
    "ss_inv ss'" "more_strs ss ss'" "0 < strs_data_len ss' \<longrightarrow> strs_data ss' ! (unat (strs_data_len ss') - 1) = 0"
    "0 \<le> r \<Longrightarrow> ss_lookup ss' s = Some (of_int r) \<and> r < 2 ^ 31" "r < 0 \<Longrightarrow> strs_data_len ss' = strs_data_len ss"
    using strset_add_ends [OF ss(2) s ss(3)] by metis
  show ?thesis
  proof (cases "r < 0")
    case True
    let ?b' = "?b\<lparr>b_strs_set := Some ss'\<rparr>"
    have "btf__add_str al [btf] s = Some (r, [?b'])"
      using r(1) True ss(1) by (simp add: ensure_modifiable_building(1) [OF b] Let_def)
    moreover have "building ?b' m os ss'"
      using B r(2,4) r(6) [OF True] by (simp add: building_def idx_ok_def)
    moreover have "same_types btf ?b'" by (simp add: same_types_def btf_invalidate_raw_data_def)
    ultimately show ?thesis using r(3) True by auto
  next
    case False
    let ?b' = "?b\<lparr>b_strs_set := Some ss', b_hdr := (b_hdr ?b)\<lparr>h_str_len := ucast (strset_data_size ss')\<rparr>\<rparr>"
    have "sint (of_int r :: u32) = r"
      using False r(5) by (simp add: signed_of_int signed_take_bit_int_eq_self)
    then have "btf__add_str al [btf] s = Some (r, [?b'])"
      using r(1) False ss(1,4) by (simp add: ensure_modifiable_building(1) [OF b] Let_def)
    moreover have "building ?b' m os ss'"
      using B r(2,4) by (simp add: building_def idx_ok_def strset_data_size_def)
    moreover have "same_types btf ?b'" by (simp add: same_types_def btf_invalidate_raw_data_def)
    ultimately show ?thesis using r(3,5) False by auto
  qed
qed

lemma add_name_ok:
  assumes b: "building btf m os ss" and name: "name_ok name"
  shows "\<exists>r btf' ss'. add_name al [btf] name = Some (r, [btf']) \<and> building btf' m os ss' \<and>
    same_types btf btf' \<and> more_strs ss ss' \<and>
    (0 \<le> r \<longrightarrow> r < 2 ^ 31 \<and> (if named name then ss_lookup ss' (the name) = Some (of_int r) else r = 0))"
proof (cases "named name")
  case False
  then show ?thesis using b by (auto simp: add_name_def same_types_def more_strs_refl)
next
  case True
  then obtain s where s: "name = Some s" "0 \<notin> set s" "length s < 2 ^ 30"
    using name by (cases name) (auto simp: named_def name_ok_def)
  show ?thesis using add_str_ok [OF b s(2,3), of al] True s(1) by (simp add: add_name_def)
qed

section \<open>Appending a type\<close>

lemma put_words_ok:
  "p + 4 * length ws \<le> length m \<Longrightarrow> \<exists>m'. put_words m p ws = Some m' \<and> length m' = length m \<and>
    (\<forall>i < length ws. ld32 m' (p + 4 * i) = Some (ws ! i)) \<and>
    (\<forall>j. j + 4 \<le> p \<or> p + 4 * length ws \<le> j \<longrightarrow> ld32 m' j = ld32 m j)"
proof (induction ws arbitrary: m p)
  case (Cons w ws)
  have "p + 4 \<le> length m" using Cons.prems by simp
  then obtain m1 where m1: "st32 m p w = Some m1" using st32_in_range by blast
  note s = ld32_st32 [OF m1]
  obtain m' where m': "put_words m1 (p + 4) ws = Some m'" "length m' = length m1"
    "\<And>i. i < length ws \<Longrightarrow> ld32 m' (p + 4 + 4 * i) = Some (ws ! i)"
    "\<And>j. j + 4 \<le> p + 4 \<or> p + 4 + 4 * length ws \<le> j \<Longrightarrow> ld32 m' j = ld32 m1 j"
    using Cons.IH [of "p + 4" m1] Cons.prems s(3) by auto
  have "ld32 m' (p + 4 * i) = Some ((w # ws) ! i)" if "i < length (w # ws)" for i
  proof (cases i)
    case 0
    then show ?thesis using m'(4) [of p] s(1) by simp
  next
    case (Suc k)
    then show ?thesis using m'(3) [of k] that by (simp add: algebra_simps)
  qed
  moreover have "ld32 m' j = ld32 m j" if "j + 4 \<le> p \<or> p + 4 * length (w # ws) \<le> j" for j
    using that m'(4) [of j] s(2) [of j] by auto
  ultimately show ?case using m1 m'(1,2) s(3) by auto
qed simp

text \<open>The size of a type is a matter of its info word.\<close>

definition info_size :: "u32 \<Rightarrow> int" where
  "info_size info = the (btf_type_size (Btf_at (le_bytes 4 0 @ le_bytes 4 (unat info)) 0))"

lemma ld32_info_block: "ld32 (le_bytes 4 0 @ le_bytes 4 (unat info)) 4 = Some info"
  by (simp add: ld32_def ldn_def of_nat_le_val_le_bytes)

lemma type_size_info:
  assumes "ld32 m (t + 4) = Some info"
  shows "btf_type_size (Btf_at m t) = Some (info_size info)"
proof -
  have "btf_type_size (Btf_at m t) = btf_type_size (Btf_at (le_bytes 4 0 @ le_bytes 4 (unat info)) 0)"
    using assms ld32_info_block [of info]
    by (simp add: btf_type_size_def btf_vlen_def btf_kind_def t_info_def)
  moreover have "\<exists>n. btf_type_size (Btf_at (le_bytes 4 0 @ le_bytes 4 (unat info)) 0) = Some n"
    using ld32_info_block [of info]
    by (simp add: btf_type_size_def btf_vlen_def btf_kind_def t_info_def)
  ultimately show ?thesis by (auto simp: info_size_def)
qed

lemma info_size_eq:
  assumes "kind < 32" "vlen < 0x10000" "kflag < 2"
  shows "info_size (btf_type_info (ucast (kind :: u16)) vlen kflag) =
    (if kind \<in> {BTF_KIND_FWD, BTF_KIND_CONST, BTF_KIND_VOLATILE, BTF_KIND_RESTRICT, BTF_KIND_PTR,
                BTF_KIND_TYPEDEF, BTF_KIND_FUNC, BTF_KIND_FLOAT} then 12
     else if kind \<in> {BTF_KIND_INT, BTF_KIND_VAR} then 16
     else if kind \<in> {BTF_KIND_ENUM, BTF_KIND_FUNC_PROTO} then 12 + uint vlen * 8
     else if kind = BTF_KIND_ARRAY then 24
     else if kind \<in> {BTF_KIND_STRUCT, BTF_KIND_UNION, BTF_KIND_DATASEC} then 12 + uint vlen * 12
     else - EINVAL)"
proof -
  have k: "unat (ucast kind :: u32) = unat kind"
    by (simp add: unsigned_ucast_eq take_bit_nat_eq_self order_less_le_trans [OF unsigned_less])
  then have "(ucast kind :: u32) < 32" using assms(1) by (simp add: word_less_nat_alt)
  note parts = btf_type_info_parts [OF this assms(2,3)]
  have rev_k: "(ucast (ucast kind :: u32) :: u16) = kind"
  proof -
    have "unat kind < 2 ^ 16" "unat (ucast kind :: u32) < 2 ^ 32"
      using unsigned_less [of kind, where ?'a = nat] k by simp_all
    then show ?thesis using k
      by (simp only: word_unat_eq_iff unsigned_ucast_eq [of "ucast kind :: u32", where ?'a = nat])
        (simp add: unsigned_take_bit_eq unsigned_ucast_eq take_bit_nat_eq_self)
  qed
  have v: "uint (ucast vlen :: u16) = uint vlen"
  proof -
    have "unat vlen < 2 ^ 16" using assms(2) by (simp add: word_less_nat_alt)
    then have "unat (ucast vlen :: u16) = unat vlen" by (simp add: unsigned_ucast_eq take_bit_nat_eq_self)
    then have "int (unat (ucast vlen :: u16)) = int (unat vlen)" by simp
    then show ?thesis by (simp only: of_nat_unat)
  qed
  show ?thesis
    by (simp add: info_size_def btf_type_size_def btf_vlen_def btf_kind_def t_info_def ld32_info_block parts rev_k v)
qed
lemma same_types_sym: "same_types btf btf' \<Longrightarrow> b_nr_types btf' = b_nr_types btf \<and> h_type_len (b_hdr btf') = h_type_len (b_hdr btf)"
  by (simp add: same_types_def)

lemma building_write:
  assumes b: "building btf m os ss" and w: "length m' = length m" "same_below m m' (unat (h_type_len (b_hdr btf)))"
  shows "building (btf\<lparr>b_types_data := (m', 0)\<rparr>) m' os ss"
proof -
  have "types_chain m' 0 (map unat os) (unat (h_type_len (b_hdr btf)))"
    by (rule types_chain_frame [of m]) (use b w(2) in \<open>simp_all add: building_def same_below_def\<close>)
  then show ?thesis using b w(1) by (simp add: building_def idx_ok_def)
qed

text \<open>The new type becomes part of the chain.\<close>

lemma commit_type_ok:
  assumes b: "building btf m os ss"
    and n: "12 \<le> n" "unat (h_type_len (b_hdr btf)) + n \<le> length m"
      "btf_type_size (Btf_at m (unat (h_type_len (b_hdr btf)))) = Some (int n)"
  shows "\<exists>r btf' os'. btf_commit_type al btf n = Some (r, btf') \<and> building btf' m os' ss \<and>
    (if 0 < r then r = int (length os) + 1 \<and> os' = os @ [h_type_len (b_hdr btf)] \<and>
       unat (h_type_len (b_hdr btf')) = unat (h_type_len (b_hdr btf)) + n
     else os' = os \<and> h_type_len (b_hdr btf') = h_type_len (b_hdr btf))"
proof -
  let ?len = "h_type_len (b_hdr btf)"
  note B = b [unfolded building_def]
  have lt: "length m < 2 ^ 32" using B by blast
  have "12 * length os \<le> unat ?len" using B types_chain_le [of m 0 "map unat os" "unat ?len"] by simp
  then have small: "length os + 1 < 2 ^ 31" using n(1,2) lt by simp
  have idx: "idx_ok btf os" using B by blast
  obtain btf1 where "btf_add_type_idx_entry al btf ?len = Some (- ENOMEM, btf1) \<and> btf1 = btf \<or>
     (\<exists>offs cap_cnt. btf1 = btf\<lparr>b_type_offs := offs, b_type_offs_cap := cap_cnt\<rparr> \<and>
       btf_add_type_idx_entry al btf ?len = Some (0, btf1) \<and>
       idx_ok (btf1\<lparr>b_nr_types := b_nr_types btf1 + 1\<rparr>) (os @ [?len]))"
    using add_type_idx_entry_ok [OF idx small, of al ?len] by blast
  then show ?thesis
  proof (elim disjE exE conjE)
    assume "btf_add_type_idx_entry al btf ?len = Some (- ENOMEM, btf1)" "btf1 = btf"
    then have "btf_commit_type al btf n = Some (- ENOMEM, btf)" by (simp add: btf_commit_type_def)
    then show ?thesis using b by (intro exI [of _ "- ENOMEM"] exI [of _ btf] exI [of _ os]) simp
  next
    fix offs cap_cnt
    assume b1: "btf1 = btf\<lparr>b_type_offs := offs, b_type_offs_cap := cap_cnt\<rparr>"
      and ok: "btf_add_type_idx_entry al btf ?len = Some (0, btf1)"
      and idx1: "idx_ok (btf1\<lparr>b_nr_types := b_nr_types btf1 + 1\<rparr>) (os @ [?len])"
    define btf' where "btf' = (add_type_len btf1 n)\<lparr>b_nr_types := b_nr_types btf + 1\<rparr>"
    have len': "unat (?len + of_nat n) = unat ?len + n"
      using n(2) lt by (simp add: unat_word_ariths unsigned_of_nat take_bit_nat_eq_self)
    have nr: "unat (b_nr_types btf + 1) = length os + 1"
      using building_nr [OF b] small by (simp add: unat_word_ariths)
    have "sint (b_nr_types btf + 1) = int (unat (b_nr_types btf + 1))"
      by (rule sint_small) (use nr small in simp)
    then have "sint (b_nr_types btf + 1) = int (length os) + 1" unfolding nr by simp
    moreover have "b_start_id btf + (b_nr_types btf + 1) - 1 = b_nr_types btf + 1" using B by simp
    ultimately have "sint (b_start_id btf + (b_nr_types btf + 1) - 1) = int (length os) + 1" by (simp only:)
    then have res: "btf_commit_type al btf n = Some (int (length os) + 1, btf')"
      using ok by (simp add: btf_commit_type_def btf'_def add_type_len_def b1 Let_def)
    have "types_chain m 0 (map unat (os @ [?len])) (unat ?len + n)"
      using B n(1,3) by (auto simp: types_chain_append)
    then have "building btf' m (os @ [?len]) ss"
      using B idx1 len' n(2) by (simp add: building_def btf'_def add_type_len_def b1 idx_ok_def)
    then show ?thesis
      using res len'
      by (intro exI [of _ "int (length os) + 1"] exI [of _ btf'] exI [of _ "os @ [?len]"])
        (simp add: btf'_def add_type_len_def b1)
  qed
qed

lemma append_type_ok:
  assumes b: "building btf m os ss" and name: "name_ok name"
    and ws: "ws \<noteq> []" "length ws \<le> 10" "info_size (hd ws) = 4 + 4 * int (length ws)" "2 \<le> length ws"
  shows "\<exists>r btf' m' os' ss'. append_type al [btf] name ws = Some (r, [btf']) \<and> building btf' m' os' ss' \<and>
    more_strs ss ss' \<and> same_below m m' (unat (h_type_len (b_hdr btf))) \<and>
    (if 0 < r then r = int (length os) + 1 \<and> os' = os @ [h_type_len (b_hdr btf)] \<and>
       (\<forall>i < length ws. ld32 m' (unat (h_type_len (b_hdr btf)) + 4 + 4 * i) = Some (ws ! i)) \<and>
       (\<exists>name_off. ld32 m' (unat (h_type_len (b_hdr btf))) = Some (of_int name_off) \<and> name_off < 2 ^ 31 \<and> 0 \<le> name_off \<and>
         (if named name then ss_lookup ss' (the name) = Some (of_int name_off) else name_off = 0))
     else os' = os)"
proof -
  let ?b = "btf_invalidate_raw_data btf" and ?n = "4 + 4 * length ws"
  let ?len = "h_type_len (b_hdr btf)" and ?at = "unat (h_type_len (b_hdr btf))"
  note b0 = ensure_modifiable_building(2) [OF b]
  have hb: "b_hdr ?b = b_hdr btf" by (simp add: btf_invalidate_raw_data_def)
  have "?n < 2 ^ 20" using ws(2) by simp
  from add_type_mem_ok [OF b0 this, of al, unfolded hb] show ?thesis
  proof (elim disjE exE conjE)
    assume "btf_add_type_mem al ?b ?n = Some (None, ?b)"
    then have "append_type al [btf] name ws = Some (- ENOMEM, [?b])"
      by (simp add: append_type_def ensure_modifiable_building(1) [OF b] Let_def)
    then show ?thesis
      using b0 by (intro exI [of _ "- ENOMEM"] exI [of _ ?b] exI [of _ m] exI [of _ os] exI [of _ ss])
        (simp add: more_strs_refl same_below_refl)
  next
    fix m1 cap1
    let ?b1 = "?b\<lparr>b_types_data := (m1, 0), b_types_data_cap := cap1\<rparr>"
    assume mem: "btf_add_type_mem al ?b ?n = Some (Some ?at, ?b1)"
      and b1: "building ?b1 m1 os ss" and keep1: "same_below m m1 (length m)" and fits: "?at + ?n \<le> length m1"
    have keep1': "same_below m m1 ?at" using keep1 b by (simp add: same_below_def building_def)
    obtain r btf2 ss2 where nm: "add_name al [?b1] name = Some (r, [btf2])" "building btf2 m1 os ss2"
      "same_types ?b1 btf2" "more_strs ss ss2"
      "0 \<le> r \<Longrightarrow> r < 2 ^ 31 \<and> (if named name then ss_lookup ss2 (the name) = Some (of_int r) else r = 0)"
      using add_name_ok [OF b1 name, of al] by blast
    note start = append_type_def [of al "[btf]" name ws, unfolded list.case ensure_modifiable_building(1) [OF b] bind.simps]
    show ?thesis
    proof (cases "r < 0")
      case True
      then have "append_type al [btf] name ws = Some (r, [btf2])"
        using nm(1) mem by (simp add: append_type_def ensure_modifiable_building(1) [OF b] Let_def)
      then show ?thesis
        using True nm(2,4) keep1'
        by (intro exI [of _ r] exI [of _ btf2] exI [of _ m1] exI [of _ os] exI [of _ ss2]) simp
    next
      case False
      then have r: "0 \<le> r" "r < 2 ^ 31" "if named name then ss_lookup ss2 (the name) = Some (of_int r) else r = 0"
        using nm(5) by simp_all
      have fits2: "?at + 4 * length ((of_int r :: u32) # ws) \<le> length m1" using fits by simp
      obtain m2 where m2: "put_words m1 ?at (of_int r # ws) = Some m2" "length m2 = length m1"
        "\<And>i. i < length ((of_int r :: u32) # ws) \<Longrightarrow> ld32 m2 (?at + 4 * i) = Some ((of_int r # ws) ! i)"
        "\<And>j. j + 4 \<le> ?at \<or> ?at + 4 * length ((of_int r :: u32) # ws) \<le> j \<Longrightarrow> ld32 m2 j = ld32 m1 j"
        using put_words_ok [OF fits2] by blast
      have hl: "h_type_len (b_hdr btf2) = ?len" using nm(3) by (simp add: same_types_def hb)
      have keep2: "same_below m1 m2 ?at" using m2(4) by (simp add: same_below_def)
      let ?b3 = "btf2\<lparr>b_types_data := (m2, 0)\<rparr>"
      have b3: "building ?b3 m2 os ss2" by (rule building_write [OF nm(2) m2(2)]) (simp add: hl keep2)
      have put: "put_in_types btf2 ?at (of_int r # ws) = Some ?b3"
        using m2(1) nm(2) by (simp add: put_in_types_def building_def)
      have words: "ld32 m2 ?at = Some (of_int r)" "\<forall>i < length ws. ld32 m2 (?at + 4 + 4 * i) = Some (ws ! i)"
        using m2(3) [of 0] m2(3) [of "Suc i" for i] by (simp_all add: algebra_simps)
      have "ld32 m2 (?at + 4) = Some (hd ws)" using words(2) ws(1) by (metis hd_conv_nth length_greater_0_conv mult_0_right add_0_right)
      then have size: "btf_type_size (Btf_at m2 ?at) = Some (int ?n)" using ws(3) by (simp add: type_size_info)
      obtain r' btf' os' where c: "btf_commit_type al ?b3 ?n = Some (r', btf')" "building btf' m2 os' ss2"
        "if 0 < r' then r' = int (length os) + 1 \<and> os' = os @ [?len] \<and> unat (h_type_len (b_hdr btf')) = ?at + ?n
         else os' = os \<and> h_type_len (b_hdr btf') = ?len"
        using commit_type_ok [OF b3, of ?n al] size fits m2(2) ws(4) hl by auto
      have "append_type al [btf] name ws = Some (r', [btf'])"
        using nm(1) mem r(1) put c(1) by (simp add: append_type_def ensure_modifiable_building(1) [OF b] Let_def)
      moreover have "same_below m m2 ?at" by (rule same_below_trans [OF keep1' keep2 order_refl])
      ultimately show ?thesis
        using c(2,3) words r nm(4)
        by (intro exI [of _ r'] exI [of _ btf'] exI [of _ m2] exI [of _ os'] exI [of _ ss2]) auto
    qed
  qed
qed

section \<open>Appending an element\<close>

lemma building_type_by_id:
  assumes b: "building btf m os ss" and i: "i < length os" "unat w = Suc i"
  shows "btf_type_by_id [btf] w = Some (Btf_at m (unat (os ! i)))"
proof -
  have "0 < unat w" using i(2) by simp
  then have "w \<noteq> 0" by auto
  moreover have "\<not> w < 1" using i(2) by (simp add: word_less_nat_alt)
  moreover have "unat (w - 1) = i" using i(2) by (simp add: unat_minus_one [OF \<open>w \<noteq> 0\<close>])
  moreover have "ld32 (b_type_offs btf) (4 * i) = Some (os ! i)"
    using b i(1) by (simp add: building_def idx_ok_def)
  ultimately show ?thesis
    using b by (subst btf_type_by_id.simps) (simp add: building_def)
qed

lemma building_last:
  assumes b: "building btf m os ss" and os: "os \<noteq> []"
  shows "btf_type_by_id [btf] (btf__get_nr_types btf) = Some (Btf_at m (unat (last os)))"
proof -
  have "btf__get_nr_types btf = b_nr_types btf" using b by (simp add: btf__get_nr_types_def building_def)
  then have "unat (btf__get_nr_types btf) = Suc (length os - 1)" using building_nr [OF b] os by simp
  then show ?thesis using building_type_by_id [OF b, of "length os - 1"] os by (simp add: last_conv_nth)
qed

lemma last_in_chain:
  assumes "types_chain m 0 (map unat os) e" "os \<noteq> []"
  obtains n where "btf_type_size (Btf_at m (unat (last os))) = Some (int n)" "unat (last os) + n = e"
    "types_chain m 0 (map unat (butlast os)) (unat (last os))" "12 \<le> n"
proof -
  have "os = butlast os @ [last os]" using assms(2) by simp
  then have "types_chain m 0 (map unat (butlast os) @ [unat (last os)]) e"
    using assms(1) by (metis list.map(1,2) map_append)
  then obtain k where "types_chain m 0 (map unat (butlast os)) (unat (last os))" "0 \<le> k"
    "btf_type_size (Btf_at m (unat (last os))) = Some k" "unat (last os) + nat k = e"
    by (auto simp: types_chain_append)
  moreover have "12 \<le> k" using calculation(2,3) btf_type_size_ge by blast
  ultimately show ?thesis using that [of "nat k"] by simp
qed

text \<open>The last type grows: its info word is replaced and its size extended over the new element.\<close>

lemma building_grow:
  assumes b: "building btf m os ss" and os: "os \<noteq> []"
    and at: "btf_type_size (Btf_at m (unat (last os))) = Some k"
    and m': "length m' = length m" "same_below m m' (unat (last os))"
      "ld32 m' (unat (last os) + 4) = Some w" "info_size w = k + int n"
    and fits: "unat (h_type_len (b_hdr btf)) + n \<le> length m"
  shows "building (add_type_len (btf\<lparr>b_types_data := (m', 0)\<rparr>) n) m' os ss"
proof -
  let ?len = "h_type_len (b_hdr btf)" and ?p = "unat (last os)"
  note B = b [unfolded building_def]
  obtain n0 where n0: "btf_type_size (Btf_at m ?p) = Some (int n0)" "?p + n0 = unat ?len"
    "types_chain m 0 (map unat (butlast os)) ?p" "12 \<le> n0"
    using last_in_chain [OF _ os, of m "unat ?len"] B by blast
  have lt: "length m < 2 ^ 32" using B by blast
  have len': "unat (?len + of_nat n) = unat ?len + n"
    using fits lt by (simp add: unat_word_ariths unsigned_of_nat take_bit_nat_eq_self)
  have "types_chain m' 0 (map unat (butlast os)) ?p"
    by (rule types_chain_frame [OF n0(3)]) (use m'(2) in \<open>simp add: same_below_def\<close>)
  moreover have "btf_type_size (Btf_at m' ?p) = Some (int (n0 + n))"
    using type_size_info [OF m'(3)] m'(4) n0(1) at by simp
  ultimately have "types_chain m' 0 (map unat (butlast os) @ [?p]) (unat ?len + n)"
    using n0(2) unfolding types_chain_append by auto
  moreover have "map unat (butlast os) @ [?p] = map unat os" using os by (metis append_butlast_last_id list.map(1,2) map_append)
  ultimately have "types_chain m' 0 (map unat os) (unat ?len + n)" by simp
  then show ?thesis
    using B m'(1) len' fits by (simp add: building_def add_type_len_def idx_ok_def)
qed

text \<open>What is left of the last type when an element is put behind it.\<close>

definition same_but_info :: "bytes \<Rightarrow> bytes \<Rightarrow> nat \<Rightarrow> nat \<Rightarrow> bool" where
  "same_but_info m m' p n \<longleftrightarrow> (\<forall>j. j + 4 \<le> n \<and> (j + 4 \<le> p + 4 \<or> p + 8 \<le> j) \<longrightarrow> ld32 m' j = ld32 m j)"

lemma append_element_ok:
  assumes b: "building btf m os ss" and name: "name_ok name" and os: "os \<noteq> []"
    and at: "btf_type_size (Btf_at m (unat (last os))) = Some k"
    and ws: "\<And>x. length (ws x) = l" "l \<le> 10"
    and info: "\<And>m'. ld32 m' (unat (last os) + 4) = ld32 m (unat (last os) + 4) \<Longrightarrow>
        info (Btf_at m' (unat (last os))) = Some w"
      "info_size w = k + 4 * int l"
  shows "\<exists>r btf' m' ss'. append_element al [btf] name ws info = Some (r, [btf']) \<and> building btf' m' os ss' \<and>
    more_strs ss ss' \<and> same_but_info m m' (unat (last os)) (unat (h_type_len (b_hdr btf))) \<and> r \<le> 0 \<and>
    (if r = 0 then ld32 m' (unat (last os) + 4) = Some w \<and>
       (\<exists>name_off. 0 \<le> name_off \<and> name_off < 2 ^ 31 \<and>
         (\<forall>i < l. ld32 m' (unat (h_type_len (b_hdr btf)) + 4 * i) = Some (ws (of_int name_off) ! i)) \<and>
         (if named name then ss_lookup ss' (the name) = Some (of_int name_off) else name_off = 0))
     else ld32 m' (unat (last os) + 4) = ld32 m (unat (last os) + 4))"
proof -
  let ?b = "btf_invalidate_raw_data btf" and ?n = "4 * l" and ?p = "unat (last os)"
  let ?len = "h_type_len (b_hdr btf)" and ?at = "unat (h_type_len (b_hdr btf))"
  note b0 = ensure_modifiable_building(2) [OF b]
  note start = append_element_def ensure_modifiable_building(1) [OF b] Let_def ws(1)
  have hb: "b_hdr ?b = b_hdr btf" by (simp add: btf_invalidate_raw_data_def)
  obtain n0 where n0: "btf_type_size (Btf_at m ?p) = Some (int n0)" "?p + n0 = ?at" "12 \<le> n0"
    using last_in_chain [OF _ os, of m ?at] b by (metis building_def)
  have le: "?at \<le> length m" using b by (simp add: building_def)
  have "?n < 2 ^ 20" using ws(2) by simp
  from add_type_mem_ok [OF b0 this, of al, unfolded hb] show ?thesis
  proof (elim disjE exE conjE)
    assume "btf_add_type_mem al ?b ?n = Some (None, ?b)"
    then have "append_element al [btf] name ws info = Some (- ENOMEM, [?b])" by (simp add: start)
    then show ?thesis
      using b0 by (intro exI [of _ "- ENOMEM"] exI [of _ ?b] exI [of _ m] exI [of _ ss])
        (simp add: more_strs_refl same_but_info_def)
  next
    fix m1 cap1
    let ?b1 = "?b\<lparr>b_types_data := (m1, 0), b_types_data_cap := cap1\<rparr>"
    assume mem: "btf_add_type_mem al ?b ?n = Some (Some ?at, ?b1)"
      and b1: "building ?b1 m1 os ss" and keep1: "same_below m m1 (length m)" and fits: "?at + ?n \<le> length m1"
    have keep1': "ld32 m1 j = ld32 m j" if "j + 4 \<le> ?at" for j using keep1 that le by (simp add: same_below_def)
    obtain r btf2 ss2 where nm: "add_name al [?b1] name = Some (r, [btf2])" "building btf2 m1 os ss2"
      "same_types ?b1 btf2" "more_strs ss ss2"
      "0 \<le> r \<Longrightarrow> r < 2 ^ 31 \<and> (if named name then ss_lookup ss2 (the name) = Some (of_int r) else r = 0)"
      using add_name_ok [OF b1 name, of al] by blast
    show ?thesis
    proof (cases "r < 0")
      case True
      then have "append_element al [btf] name ws info = Some (r, [btf2])"
        using nm(1) mem by (simp add: start)
      then show ?thesis
        using True nm(2,4) keep1' n0
        by (intro exI [of _ r] exI [of _ btf2] exI [of _ m1] exI [of _ ss2]) (simp add: same_but_info_def)
    next
      case False
      then have r: "0 \<le> r" "r < 2 ^ 31" "if named name then ss_lookup ss2 (the name) = Some (of_int r) else r = 0"
        using nm(5) by simp_all
      let ?ws = "ws (of_int r)"
      have fits2: "?at + 4 * length ?ws \<le> length m1" using fits ws(1) by simp
      obtain m2 where m2: "put_words m1 ?at ?ws = Some m2" "length m2 = length m1"
        "\<And>i. i < length ?ws \<Longrightarrow> ld32 m2 (?at + 4 * i) = Some (?ws ! i)"
        "\<And>j. j + 4 \<le> ?at \<or> ?at + 4 * length ?ws \<le> j \<Longrightarrow> ld32 m2 j = ld32 m1 j"
        using put_words_ok [OF fits2] by blast
      have hl: "h_type_len (b_hdr btf2) = ?len" using nm(3) by (simp add: same_types_def hb)
      have keep2: "same_below m1 m2 ?at" using m2(4) by (simp add: same_below_def)
      let ?b3 = "btf2\<lparr>b_types_data := (m2, 0)\<rparr>"
      have b3: "building ?b3 m2 os ss2" by (rule building_write [OF nm(2) m2(2)]) (simp add: hl keep2)
      have put: "put_in_types btf2 ?at ?ws = Some ?b3"
        using m2(1) nm(2) by (simp add: put_in_types_def building_def)
      have old: "ld32 m2 j = ld32 m j" if "j + 4 \<le> ?at" for j
        using that keep1' keep2 by (simp add: same_below_def)
      have "info (Btf_at m2 ?p) = Some w" using info(1) old n0 by simp
      moreover have "btf_type_by_id [?b3] (btf__get_nr_types ?b3) = Some (Btf_at m2 ?p)"
        by (rule building_last [OF b3 os])
      moreover have "?p + 4 + 4 * length [w] \<le> length m2" using n0 le m2(2) fits by simp
      then obtain m3 where m3: "put_words m2 (?p + 4) [w] = Some m3" "length m3 = length m2"
        "ld32 m3 (?p + 4) = Some w" "\<forall>j. j + 4 \<le> ?p + 4 \<or> ?p + 8 \<le> j \<longrightarrow> ld32 m3 j = ld32 m2 j"
        using put_words_ok [of "?p + 4" "[w]" m2] by (auto simp: add.commute)
      let ?b4 = "add_type_len (?b3\<lparr>b_types_data := (m3, 0)\<rparr>) ?n"
      have put3: "put_in_types ?b3 (?p + 4) [w] = Some (?b3\<lparr>b_types_data := (m3, 0)\<rparr>)"
        using m3(1) by (simp add: put_in_types_def)
      ultimately have res: "append_element al [btf] name ws info = Some (0, [?b4])"
        using nm(1) mem r(1) put by (simp add: start)
      have "building ?b4 m3 os ss2"
      proof (rule building_grow [OF b3 os _ m3(2) _ m3(3)])
        show "btf_type_size (Btf_at m2 ?p) = Some k"
          using at type_size_cong [of m2 "?p" m] old n0 by simp
        show "same_below m2 m3 ?p" using m3(4) by (simp add: same_below_def)
        show "info_size w = k + int ?n" using info(2) by simp
        show "unat (h_type_len (b_hdr ?b3)) + ?n \<le> length m2" using fits m2(2) hl by simp
      qed
      moreover have "same_but_info m m3 ?p ?at" using old m3(4) by (auto simp: same_but_info_def)
      moreover have "ld32 m3 (?at + 4 * i) = Some (?ws ! i)" if "i < l" for i
        using m2(3) [of i] spec [OF m3(4), of "?at + 4 * i"] that ws(1) n0 by simp
      ultimately show ?thesis
        using res m3(3) r nm(4)
        by (intro exI [of _ 0] exI [of _ ?b4] exI [of _ m3] exI [of _ ss2]) auto
    qed
  qed
qed

end
