(* ===== verification/Btf_Writer.thy ===== *)
theory Btf_Writer
  imports Btf_Build
begin

text \<open>
  The functions that build BTF, one after the other: any sequence of calls on an empty object stays
  in bounds and keeps the object in shape, and what was added is read back.
\<close>

section \<open>Calls\<close>





section \<open>Objects with room for elements\<close>

text \<open>The number of elements of the last type.\<close>

definition last_vlen :: "bytes \<Rightarrow> u32 list \<Rightarrow> nat" where
  "last_vlen m os = (if os = [] then 0 else
     (case btf_vlen (Btf_at m (unat (last os))) of None \<Rightarrow> 0 | Some v \<Rightarrow> unat v))"

definition in_shape :: "nat \<Rightarrow> btf \<Rightarrow> bool" where
  "in_shape k btf \<longleftrightarrow> (\<exists>m os ss. building btf m os ss \<and> last_vlen m os \<le> k)"


lemma in_shapeI [intro?]: "building btf m os ss \<Longrightarrow> last_vlen m os \<le> k \<Longrightarrow> in_shape k btf"
  by (auto simp: in_shape_def)






lemma last_below:
  assumes "building btf m os ss" "os \<noteq> []"
  shows "unat (last os) + 12 \<le> unat (h_type_len (b_hdr btf))"
proof -
  have "types_chain m 0 (map unat os) (unat (h_type_len (b_hdr btf)))" using assms(1) by (simp add: building_def)
  from last_in_chain [OF this assms(2)] show ?thesis by (metis add_left_mono)
qed

lemma last_info:
  assumes "building btf m os ss" "os \<noteq> []"
  obtains info where "ld32 m (unat (last os) + 4) = Some info"
  using last_below [OF assms] assms(1) ld32_in_range [of "unat (last os) + 4" m] by (auto simp: building_def)




text \<open>A type with an info word for no elements, \<open>n\<close> being the size that goes with its kind.\<close>

lemma new_info:
  assumes "kind < 32" "vlen < 0x10000" "kflag < 2"
  shows "unat (ucast (BTF_INFO_VLEN (btf_type_info (ucast (kind :: u16)) vlen kflag)) :: u16) = unat vlen"
    "(ucast (BTF_INFO_KIND (btf_type_info (ucast (kind :: u16)) vlen kflag)) :: u16) = kind"
    "BTF_INFO_KFLAG (btf_type_info (ucast (kind :: u16)) vlen kflag) = kflag"
proof -
  have k: "unat (ucast kind :: u32) = unat kind"
    by (simp add: unsigned_ucast_eq take_bit_nat_eq_self order_less_le_trans [OF unsigned_less])
  then have "(ucast kind :: u32) < 32" using assms(1) by (simp add: word_less_nat_alt)
  note parts = btf_type_info_parts [OF this assms(2,3)]
  show "BTF_INFO_KFLAG (btf_type_info (ucast (kind :: u16)) vlen kflag) = kflag" by (rule parts(3))
  show "unat (ucast (BTF_INFO_VLEN (btf_type_info (ucast (kind :: u16)) vlen kflag)) :: u16) = unat vlen"
    using assms(2) by (simp add: parts unsigned_ucast_eq take_bit_nat_eq_self word_less_nat_alt)
  have "unat kind < 2 ^ 16" "unat (ucast kind :: u32) < 2 ^ 32"
    using unsigned_less [of kind, where ?'a = nat] k by simp_all
  then show "(ucast (BTF_INFO_KIND (btf_type_info (ucast (kind :: u16)) vlen kflag)) :: u16) = kind" using k
    by (simp only: parts word_unat_eq_iff unsigned_ucast_eq [of "ucast kind :: u32", where ?'a = nat])
      (simp add: unsigned_take_bit_eq unsigned_ucast_eq take_bit_nat_eq_self)
qed




section \<open>Elements\<close>

definition elem_words :: "u16 \<Rightarrow> nat" where
  "elem_words kind = (if kind \<in> {BTF_KIND_STRUCT, BTF_KIND_UNION, BTF_KIND_DATASEC} then 3
     else if kind \<in> {BTF_KIND_ENUM, BTF_KIND_FUNC_PROTO} then 2 else 0)"

lemma elem_kinds:
  assumes "elem_words kind \<noteq> 0"
  shows "kind < 32" "elem_words kind \<le> 3"
    "kind \<in> {BTF_KIND_STRUCT, BTF_KIND_UNION, BTF_KIND_DATASEC, BTF_KIND_ENUM, BTF_KIND_FUNC_PROTO}"
  using assms by (auto simp: elem_words_def split: if_splits)

lemma elem_size:
  assumes "elem_words kind \<noteq> 0" "vlen < 0x10000" "kflag < 2"
  shows "info_size (btf_type_info (ucast kind) vlen kflag) = 12 + 4 * int (elem_words kind) * uint vlen"
  using elem_kinds(3) [OF assms(1)] info_size_eq [OF elem_kinds(1) [OF assms(1)] assms(2,3)]
  by (auto simp: elem_words_def)

lemma elem_type_size:
  assumes "btf_kind t = Some kind" "btf_vlen t = Some v" "elem_words kind \<noteq> 0"
  shows "btf_type_size t = Some (12 + 4 * int (elem_words kind) * uint v)"
  using elem_kinds(3) [OF assms(3)] assms(1,2)
  by (auto simp: btf_type_size_def elem_words_def)

lemma next_vlen:
  assumes "unat (v :: u16) < 65535"
  shows "(ucast v + 1 :: u32) < 0x10000" "uint (ucast v + 1 :: u32) = uint v + 1" "unat (ucast v + 1 :: u32) = unat v + 1"
proof -
  have c: "unat (ucast v :: u32) = unat v"
    using assms by (simp add: unsigned_ucast_eq take_bit_nat_eq_self)
  then show u: "unat (ucast v + 1 :: u32) = unat v + 1" using assms by (simp add: unat_word_ariths)
  then show "(ucast v + 1 :: u32) < 0x10000" using assms by (simp add: word_less_nat_alt)
  have "int (unat (ucast v + 1 :: u32)) = int (unat v) + 1" using u by simp
  then show "uint (ucast v + 1 :: u32) = uint v + 1" by (simp only: of_nat_unat)
qed



section \<open>Every call keeps the object in shape\<close>



lemma name_ok_None [simp]: "name_ok None"
  by (simp add: name_ok_def)



text \<open>The element calls look at the last type first.\<close>

lemma last_type_ok:
  assumes b: "building btf m os ss"
  shows "has_types [btf] = Some (os \<noteq> [])"
    "os \<noteq> [] \<Longrightarrow> btf_last_type [btf] = Some (Btf_at m (unat (last os)))"
    "os \<noteq> [] \<Longrightarrow> \<exists>w. ld32 m (unat (last os) + 4) = Some w"
proof -
  have "b_nr_types btf = 0 \<longleftrightarrow> os = []"
    using building_nr [OF b] by (metis length_0_conv unat_0 unat_eq_zero)
  then show "has_types [btf] = Some (os \<noteq> [])" by (simp add: has_types_def)
  show "os \<noteq> [] \<Longrightarrow> btf_last_type [btf] = Some (Btf_at m (unat (last os)))"
    using building_last [OF b] by (simp add: btf_last_type_def)
  show "os \<noteq> [] \<Longrightarrow> \<exists>w. ld32 m (unat (last os) + 4) = Some w"
    using last_info [OF b] by blast
qed



section \<open>A fresh object\<close>









section \<open>Reading back\<close>

lemma name_read_back:
  assumes b: "building btf m os ss" and s: "ss_lookup ss s = Some (of_int r)" and r: "0 \<le> r" "r < 2 ^ 31"
  shows "\<exists>q. btf__name_by_offset [btf] (of_int r) = Some (Some q) \<and> c_str q = Some s"
proof -
  note B = b [unfolded building_def]
  have inv: "ss_inv ss" using B by blast
  obtain k where k: "r = int k" "k < 2 ^ 31" using r nonneg_int_cases by auto
  have u: "unat (of_int r :: u64) = k" "unat (of_int r :: u32) = k"
    using k by (simp_all add: unsigned_of_nat take_bit_nat_eq_self)
  have off: "k < unat (strs_data_len ss)" "c_string (strs_data ss) k = s" "terminated (strs_data ss) (unat (strs_data_len ss)) k"
    using ss_lookup_Some [OF inv s] u(1) by simp_all
  have "unat (strs_data_len ss) < 2 ^ 32" using inv by (auto simp: ss_inv_def word_le_nat_alt)
  then have "unat (h_str_len (b_hdr btf)) = unat (strs_data_len ss)"
    using B by (simp add: unsigned_ucast_eq take_bit_nat_eq_self)
  then have "(of_int r :: u32) < h_str_len (b_hdr btf)" using u(2) off(1) by (simp add: word_less_nat_alt)
  then have "btf__name_by_offset [btf] (of_int r) = Some (Some (strs_data ss, k))"
    using B u(2) by (simp add: btf__name_by_offset_def btf_strs_data_def strset_data_def)
  moreover have "0 \<in> set (drop k (strs_data ss))"
    using off(3) by (metis drop_take in_set_takeD terminated_def)
  ultimately show ?thesis using off(2) by simp
qed

lemma member_word:
  assumes "n < 0x100" "off \<le> 0xffffff"
  shows "BTF_MEMBER_BIT_OFFSET (off OR push_bit 24 n) = off" "BTF_MEMBER_BITFIELD_SIZE (off OR push_bit 24 n) = n"
proof -
  have n: "bit n i \<Longrightarrow> i < 8" and o: "bit off i \<Longrightarrow> i < 24" for i
    using bit_less_power [of n 8 i] bit_less_power [of off 24 i] assms by (auto simp: word_less_nat_alt word_le_nat_alt)
  have m: "(0xffffff :: u32) = mask 24" by (simp add: mask_eq_decr_exp)
  show "BTF_MEMBER_BIT_OFFSET (off OR push_bit 24 n) = off"
    unfolding BTF_MEMBER_BIT_OFFSET_def m by (rule bit_word_eqI) (auto simp: bit_simps dest: o)
  show "BTF_MEMBER_BITFIELD_SIZE (off OR push_bit 24 n) = n"
    unfolding BTF_MEMBER_BITFIELD_SIZE_def by (rule bit_word_eqI) (auto simp: bit_simps dest: o n)
qed

text \<open>A field behind the last type, in words.\<close>

lemma added_field_words:
  assumes b: "building btf m os ss" and os: "os \<noteq> []" and name: "name_ok name"
    and w0: "ld32 m (unat (last os) + 4) = Some w0" and vlen: "btf_vlen (Btf_at m (unat (last os))) = Some v" "unat v < 65535"
    and add: "btf__add_field al [btf] name tid off n = Some (0, bs)"
  defines "p \<equiv> unat (last os)" and "flag \<equiv> n \<noteq> 0 \<or> off mod 8 \<noteq> 0 \<or> BTF_INFO_KFLAG w0 \<noteq> 0"
  shows "\<exists>btf' m' ss' w kind name_off. bs = [btf'] \<and> building btf' m' os ss' \<and>
    same_but_info m m' p (p + 12 + 12 * unat v) \<and> ld32 m' (p + 4) = Some w \<and>
    btf_kind (Btf_at m' p) = Some kind \<and> kind \<in> {BTF_KIND_STRUCT, BTF_KIND_UNION} \<and>
    btf_vlen (Btf_at m' p) = Some (v + 1) \<and> btf_kflag (Btf_at m' p) = Some flag \<and>
    0 \<le> name_off \<and> name_off < 2 ^ 31 \<and>
    (if named name then ss_lookup ss' (the name) = Some (of_int name_off) else name_off = 0) \<and>
    btf_members (Btf_at m' p) (unat v) =
      Some \<lparr>mb_name_off = of_int name_off, mb_type = of_int tid, mb_offset = off OR push_bit 24 n\<rparr> \<and>
    (n = 0 \<and> off mod 8 = 0 \<or> n < 0x100 \<and> off \<le> 0xffffff)"
proof -
  let ?t = "Btf_at m (unat (last os))" and ?bf = "n \<noteq> 0 \<or> off mod 8 \<noteq> 0"
  let ?kf = "if flag then 1 else 0 :: u32"
  let ?ws = "\<lambda>name_off. [name_off, of_int tid, off OR push_bit 24 n]"
  let ?info = "\<lambda>t. do { kind \<leftarrow> btf_kind t; vlen \<leftarrow> btf_vlen t; kflag \<leftarrow> btf_kflag t;
        Some (btf_type_info (ucast kind) (ucast vlen + 1) (if ?bf \<or> kflag then 1 else 0)) }"
  obtain kd where kd: "btf_kind ?t = Some kd" using w0 by (simp add: btf_kind_def t_info_def)
  note last = last_type_ok [OF b]
  have chk: "kd = BTF_KIND_STRUCT \<or> kd = BTF_KIND_UNION" "\<not> (?bf \<and> (n = 0 \<or> n > 255 \<or> off > 0xffffff))"
    and app: "append_element al [btf] name ?ws ?info = Some (0, bs)"
    using add os last(1,2) kd
    by (auto simp: btf__add_field_def btf_is_composite_def btf_is_union_def Let_def split: if_splits)
  define kind where "kind = kd"
  have ek: "elem_words kind = 3" using chk(1) by (auto simp: kind_def elem_words_def)
  let ?w = "btf_type_info (ucast kind) (ucast v + 1) ?kf"
  note nv = next_vlen [OF vlen(2)]
  have kf: "?kf < 2" by simp
  have size: "info_size ?w = 12 + 4 * int (elem_words kind) * uint v + 4 * int 3"
    using elem_size [of kind "ucast v + 1" ?kf] ek nv(1,2) by (simp add: algebra_simps)
  have ts: "btf_type_size ?t = Some (12 + 4 * int (elem_words kind) * uint v)"
    by (rule elem_type_size) (use kd vlen ek in \<open>simp_all add: kind_def\<close>)
  have info: "?info (Btf_at m' (unat (last os))) = Some ?w" if "ld32 m' (unat (last os) + 4) = ld32 m (unat (last os) + 4)" for m'
    using that w0 kd vlen(1)
    by (auto simp: flag_def kind_def btf_kind_def btf_vlen_def btf_kflag_def t_info_def)
  have len3: "length (?ws x) = 3" for x by simp
  obtain r0 btf' m' ss' where e: "append_element al [btf] name ?ws ?info = Some (r0, [btf'])" "building btf' m' os ss'"
    "same_but_info m m' (unat (last os)) (unat (h_type_len (b_hdr btf)))"
    "if r0 = 0 then ld32 m' (unat (last os) + 4) = Some ?w \<and>
       (\<exists>name_off. 0 \<le> name_off \<and> name_off < 2 ^ 31 \<and>
         (\<forall>i < 3. ld32 m' (unat (h_type_len (b_hdr btf)) + 4 * i) = Some (?ws (of_int name_off) ! i)) \<and>
         (if named name then ss_lookup ss' (the name) = Some (of_int name_off) else name_off = 0))
     else ld32 m' (unat (last os) + 4) = ld32 m (unat (last os) + 4)"
    using append_element_ok [where ws = ?ws and info = ?info, OF b name os ts len3 _ info size, of al] by fastforce
  then have "r0 = 0" and bs: "bs = [btf']" using app by simp_all
  then obtain name_off where r: "ld32 m' (unat (last os) + 4) = Some ?w" "0 \<le> name_off" "name_off < 2 ^ 31"
    "\<forall>i < 3. ld32 m' (unat (h_type_len (b_hdr btf)) + 4 * i) = Some (?ws (of_int name_off) ! i)"
    "if named name then ss_lookup ss' (the name) = Some (of_int name_off) else name_off = 0"
    using e(4) by auto
  have at: "unat (h_type_len (b_hdr btf)) = p + 12 + 12 * unat v"
  proof -
    have ch: "types_chain m 0 (map unat os) (unat (h_type_len (b_hdr btf)))" using b by (simp add: building_def)
    obtain k where "btf_type_size ?t = Some (int k)" "unat (last os) + k = unat (h_type_len (b_hdr btf))"
      using last_in_chain [OF ch os] by metis
    then have "unat (h_type_len (b_hdr btf)) = unat (last os) + k" "int k = 12 + 12 * uint v" using ts ek by simp_all
    moreover have "uint v = int (unat v)" by simp
    ultimately show ?thesis unfolding p_def by linarith
  qed
  have w: "btf_kind (Btf_at m' p) = Some kind" "btf_vlen (Btf_at m' p) = Some (v + 1)" "btf_kflag (Btf_at m' p) = Some flag"
  proof -
    have k32: "kind < 32" using ek elem_kinds(1) by simp
    note parts = new_info [OF k32 nv(1) kf]
    have "unat (v + 1) = unat v + 1" using vlen(2) by (simp add: unat_word_ariths)
    then have v1: "ucast (BTF_INFO_VLEN ?w) = v + 1" using parts(1) nv(3) by (simp add: word_unat_eq_iff)
    show "btf_kind (Btf_at m' p) = Some kind" "btf_vlen (Btf_at m' p) = Some (v + 1)" "btf_kflag (Btf_at m' p) = Some flag"
      using r(1) parts(2,3) v1 by (simp_all add: btf_kind_def btf_vlen_def btf_kflag_def t_info_def p_def)
  qed
  have "btf_members (Btf_at m' p) (unat v) =
      Some \<lparr>mb_name_off = of_int name_off, mb_type = of_int tid, mb_offset = off OR push_bit 24 n\<rparr>"
    using r(4) [unfolded at, rule_format, of 0] r(4) [unfolded at, rule_format, of 1] r(4) [unfolded at, rule_format, of 2]
    by (simp add: btf_members_def algebra_simps)
  moreover have "n = 0 \<and> off mod 8 = 0 \<or> n < 0x100 \<and> off \<le> 0xffffff" using chk(2) by (auto simp: word_less_nat_alt word_le_nat_alt)
  ultimately show ?thesis
    using bs e(2,3) r w chk(1) at by (intro exI [of _ btf'] exI [of _ m'] exI [of _ ss'] exI [of _ ?w] exI [of _ kind] exI [of _ name_off])
      (simp add: p_def kind_def)
qed

text \<open>One element more than fits in sixteen bits, and the type has none.\<close>

lemma vlen_wraps:
  assumes "btf_kind t = Some kind" "btf_vlen t = Some 0xffff" "btf_kflag t = Some kflag"
  shows "\<exists>w. btf_type_inc_vlen t = Some w \<and> BTF_INFO_VLEN w = 0"
proof -
  have "unat (kind AND 0xff) < 2 ^ 16 \<and> (push_bit 24 (ucast kind :: u32) AND 0xffff) = 0"
    using unsigned_less [of "kind AND 0xff", where ?'a = nat] by (auto intro!: bit_word_eqI simp: mask_16 bit_simps)
  moreover have "(push_bit 31 f :: u32) AND 0xffff = 0" for f by (rule bit_word_eqI) (auto simp: mask_16 bit_simps)
  ultimately show ?thesis
    using assms by (simp add: btf_type_inc_vlen_def BTF_INFO_VLEN_def btf_type_info_def word_ao_dist)
qed

section \<open>Properties\<close>


text \<open>
  C29. A field that was added is read back: the last type has one member more, and that member has the
  name, type, bit offset and bit-field size it was added with; the members before it read as before,
  also when the first bit field changes the encoding of all of them, as long as their offsets fit in
  24 bits.
\<close>

theorem added_field_reads_back:
  assumes b: "builder_ok btf" and t: "btf_last_type [btf] = Some t" "btf_vlen t = Some v" "btf_kflag t = Some kflag"
    and small: "unat v < 65535" "name_ok name" "off \<le> 0xffffff"
    and add: "btf__add_field al [btf] name tid off n = Some (0, bs)"
  shows "\<exists>btf' t' mb. bs = [btf'] \<and> builder_ok btf' \<and> btf_last_type [btf'] = Some t' \<and> btf_vlen t' = Some (v + 1) \<and>
    btf_members t' (unat v) = Some mb \<and> mb_type mb = of_int tid \<and>
    (if named name then \<exists>q. btf__name_by_offset [btf'] (mb_name_off mb) = Some (Some q) \<and> c_str q = name
     else mb_name_off mb = 0) \<and>
    btf_member_bit_offset t' (unat v) = Some off \<and> btf_member_bitfield_size t' (unat v) = Some n \<and>
    (\<forall>i < unat v. \<forall>mb. btf_members t i = Some mb \<and> (kflag \<or> mb_offset mb \<le> 0xffffff) \<longrightarrow>
       btf_members t' i = Some mb \<and> btf_member_bit_offset t' i = btf_member_bit_offset t i \<and>
       btf_member_bitfield_size t' i = btf_member_bitfield_size t i)"
proof -
  obtain m os ss where b: "building btf m os ss" using b by (auto simp: builder_ok_def)
  note last = last_type_ok [OF b]
  have os: "os \<noteq> []" using add last(1) by (auto simp: btf__add_field_def)
  let ?p = "unat (last os)"
  have tp: "t = Btf_at m ?p" using last(2) [OF os] t(1) by simp
  obtain w0 where w0: "ld32 m (?p + 4) = Some w0" using last(3) [OF os] by blast
  have kf: "kflag = (BTF_INFO_KFLAG w0 \<noteq> 0)" using t(3) w0 by (simp add: tp btf_kflag_def t_info_def)
  obtain btf' m' ss' w kind name_off where r: "bs = [btf']" "building btf' m' os ss'"
    "same_but_info m m' ?p (?p + 12 + 12 * unat v)" "btf_vlen (Btf_at m' ?p) = Some (v + 1)"
    "btf_kflag (Btf_at m' ?p) = Some (n \<noteq> 0 \<or> off mod 8 \<noteq> 0 \<or> BTF_INFO_KFLAG w0 \<noteq> 0)"
    "0 \<le> name_off" "name_off < 2 ^ 31"
    "if named name then ss_lookup ss' (the name) = Some (of_int name_off) else name_off = 0"
    "btf_members (Btf_at m' ?p) (unat v) =
      Some \<lparr>mb_name_off = of_int name_off, mb_type = of_int tid, mb_offset = off OR push_bit 24 n\<rparr>"
    "n = 0 \<and> off mod 8 = 0 \<or> n < 0x100 \<and> off \<le> 0xffffff"
    using added_field_words [OF b os small(2) w0 t(2) [unfolded tp] small(1) add]
    by (elim exE conjE) (rule that; assumption)
  let ?t' = "Btf_at m' ?p"
  have n: "n < 0x100" using r(10) by auto
  note mw = member_word [OF n small(3)]
  have nm: "if named name then \<exists>q. btf__name_by_offset [btf'] (of_int name_off) = Some (Some q) \<and> c_str q = name
     else (of_int name_off :: u32) = 0"
    using name_read_back [OF r(2) _ r(6,7)] r(8)
    by (cases name) (simp_all add: named_def del: c_str.simps split: if_splits)
  have old: "btf_members ?t' i = btf_members t i" if "i < unat v" for i
    using r(3) that by (simp add: tp btf_members_def same_but_info_def)
  have low: "BTF_MEMBER_BIT_OFFSET x = x" "BTF_MEMBER_BITFIELD_SIZE x = 0" if "x \<le> 0xffffff" for x
    using member_word [of 0 x] that by simp_all
  have "btf_member_bit_offset ?t' (unat v) = Some off" "btf_member_bitfield_size ?t' (unat v) = Some n"
    using r(5,9,10) mw low [OF small(3)] by (auto simp: btf_member_bit_offset_def btf_member_bitfield_size_def)
  moreover have "btf_members ?t' i = Some mb \<and> btf_member_bit_offset ?t' i = btf_member_bit_offset t i \<and>
       btf_member_bitfield_size ?t' i = btf_member_bitfield_size t i"
    if "i < unat v" "btf_members t i = Some mb" "kflag \<or> mb_offset mb \<le> 0xffffff" for i mb
    using that old [OF that(1)] r(5) t(3) kf low by (auto simp: btf_member_bit_offset_def btf_member_bitfield_size_def)
  ultimately show ?thesis
    using r(1,2,4,9) last_type_ok(2) [OF r(2) os] nm
    by (intro exI [of _ btf'] exI [of _ ?t'] exI [of _ "\<lparr>mb_name_off = of_int name_off, mb_type = of_int tid, mb_offset = off OR push_bit 24 n\<rparr>"])
      (auto simp: builder_ok_def simp del: c_str.simps)
qed

text \<open>A structure without members, with room behind it.\<close>

definition sample_struct :: bytes where
  "sample_struct = [0, 0, 0, 0, 0, 0, 0, 4, 8, 0, 0, 0, 0, 0, 0, 0, 0, 0, 0, 0, 0, 0, 0, 0, 0, 0, 0, 0, 0, 0, 0, 0]"

definition sample_builder :: btf where
  "sample_builder = zero_btf\<lparr>b_hdr := zero_hdr\<lparr>h_magic := BTF_MAGIC, h_version := BTF_VERSION, h_hdr_len := 24,
       h_type_len := 12, h_str_off := 12\<rparr>,
     b_modifiable := True, b_types_data := (sample_struct, 0), b_types_data_cap := 32,
     b_type_offs := [0, 0, 0, 0], b_type_offs_cap := 1, b_nr_types := 1, b_start_id := 1,
     b_strs_set := Some empty_strset\<rparr>"

lemma sample_struct_words: "ld32 sample_struct 4 = Some 0x4000000" "length sample_struct = 32"
  "ld32 [0, 0, 0, 0] 0 = Some 0"
  by (simp_all add: sample_struct_def ld32_def ldn_def)

lemma sample_struct_type:
  "btf_kind (Btf_at sample_struct 0) = Some BTF_KIND_STRUCT" "btf_vlen (Btf_at sample_struct 0) = Some 0"
  "btf_kflag (Btf_at sample_struct 0) = Some False"
  by (simp_all add: btf_kind_def btf_vlen_def btf_kflag_def t_info_def sample_struct_words BTF_INFO_KIND_def
      BTF_INFO_VLEN_def BTF_INFO_KFLAG_def)

lemma sample_building: "building sample_builder sample_struct [0] empty_strset"
proof -
  have "types_chain sample_struct 0 [0] 12"
    by (simp add: btf_type_size_def sample_struct_type)
  moreover have "strs_data_len empty_strset = 0" by (simp add: empty_strset_def)
  ultimately show ?thesis
    by (simp add: building_def sample_builder_def zero_btf_def zero_hdr_def idx_ok_def sample_struct_words empty_strset)
qed

lemma sample_last: "btf_last_type [sample_builder] = Some (Btf_at sample_struct 0)"
  using last_type_ok(2) [OF sample_building] by simp

lemma sample_add: "\<exists>bs. btf__add_field all_ok [sample_builder] None 1 0 0 = Some (0, bs)"
proof -
  let ?ws = "[0, 1, 0] :: u32 list"
  have inv: "btf_invalidate_raw_data sample_builder = sample_builder"
    by (simp add: btf_invalidate_raw_data_def sample_builder_def zero_btf_def)
  have mem: "btf_add_type_mem all_ok sample_builder 12 = Some (Some 12, sample_builder)"
    by (simp add: btf_add_type_mem_def libbpf_add_mem_def sample_builder_def zero_btf_def)
  obtain m1 where m1: "put_words sample_struct 12 ?ws = Some m1" "length m1 = 32" "ld32 m1 4 = Some 0x4000000"
    using put_words_ok [of 12 ?ws sample_struct] by (auto simp: sample_struct_words)
  let ?b1 = "sample_builder\<lparr>b_types_data := (m1, 0)\<rparr>"
  have put: "put_in_types sample_builder 12 ?ws = Some ?b1"
    using m1(1) by (simp add: put_in_types_def sample_builder_def zero_btf_def)
  have last: "btf_type_by_id [?b1] (btf__get_nr_types ?b1) = Some (Btf_at m1 0)"
    by (simp add: btf_type_by_id.simps btf__get_nr_types_def sample_builder_def zero_btf_def sample_struct_words(3))
  obtain m2 where m2: "put_words m1 4 [0x4000001] = Some m2"
    using put_words_ok [of 4 "[0x4000001]" m1] m1(2) by auto
  have kinds: "btf_kind (Btf_at m1 0) = Some BTF_KIND_STRUCT" "btf_vlen (Btf_at m1 0) = Some 0" "btf_kflag (Btf_at m1 0) = Some False"
    using m1(3) by (simp_all add: btf_kind_def btf_vlen_def btf_kflag_def t_info_def BTF_INFO_KIND_def
      BTF_INFO_VLEN_def BTF_INFO_KFLAG_def)
  have put2: "put_in_types ?b1 4 [0x4000001] = Some (?b1\<lparr>b_types_data := (m2, 0)\<rparr>)"
    using m2 by (simp add: put_in_types_def)
  show ?thesis
    using last_type_ok(1) [OF sample_building] sample_last mem put last kinds put2
      ensure_modifiable_building(1) [OF sample_building, of all_ok False]
    by (simp add: btf__add_field_def btf_is_composite_def btf_is_union_def sample_struct_type validate_type_id_def
        append_element_def inv add_name_def named_def btf_type_info_def)
qed

theorem added_field_reads_back_witness:
  "\<exists>btf' t' mb. btf_last_type [btf'] = Some t' \<and> btf_vlen t' = Some 1 \<and> btf_members t' 0 = Some mb \<and> mb_type mb = 1"
proof -
  obtain bs where bs: "btf__add_field all_ok [sample_builder] None 1 0 0 = Some (0, bs)" using sample_add by blast
  have b: "builder_ok sample_builder" using sample_building by (auto simp: builder_ok_def)
  have "\<exists>btf' t' mb. bs = [btf'] \<and> builder_ok btf' \<and> btf_last_type [btf'] = Some t' \<and> btf_vlen t' = Some (0 + 1) \<and>
      btf_members t' (unat (0 :: u16)) = Some mb \<and> mb_type mb = of_int 1"
    using added_field_reads_back [OF b sample_last sample_struct_type(2,3) _ _ _ bs] by auto
  then show ?thesis by auto
qed


end
