(* ===== verification/Ringbuf.thy ===== *)
theory Ringbuf
  imports Libbpf_Mem
begin

text \<open>
  The consumer of BPF ring buffers, \<open>ringbuf.c\<close>. The positions and the data lie in memory that the
  kernel's producer shares: before every acquiring load the producer may have acted, which is the
  parameter \<open>kern\<close>, a change of the ring for every point in time. The data pages are mapped twice, one
  behind the other, so the consumer reads \<open>r_data r @ r_data r\<close>. System calls are the fields of
  \<open>ring_sys\<close>; mapping and unmapping leave a trace.
\<close>

section \<open>Options\<close>

fun libbpf_is_mem_zeroed :: "bytes \<Rightarrow> nat \<Rightarrow> nat \<Rightarrow> bool option" where
  "libbpf_is_mem_zeroed m p 0 = Some True"
| "libbpf_is_mem_zeroed m p (Suc len) =
     (if p \<ge> length m then None
      else if m ! p \<noteq> 0 then Some False
      else libbpf_is_mem_zeroed m (p + 1) len)"

definition libbpf_validate_opts :: "bytes \<Rightarrow> u64 \<Rightarrow> u64 \<Rightarrow> bool option" where
  "libbpf_validate_opts opts opts_sz user_sz =
     (if user_sz < 8 then Some False
      else libbpf_is_mem_zeroed opts (unat opts_sz) (nat (sint (user_sz - opts_sz))))"

text \<open>\<open>OPTS_VALID\<close> for a structure whose known fields end at \<open>opts_sz\<close>; the size comes first in it.\<close>

definition OPTS_VALID :: "bytes option \<Rightarrow> u64 \<Rightarrow> bool option" where
  "OPTS_VALID opts opts_sz =
     (case opts of
        None \<Rightarrow> Some True
      | Some m \<Rightarrow> do { sz \<leftarrow> ld64 m 0; libbpf_validate_opts m opts_sz sz })"

section \<open>Rings\<close>

record 'c ring =
  r_sample_cb :: "'c \<Rightarrow> bytes \<Rightarrow> u64 \<Rightarrow> int \<times> 'c"
  r_ctx :: 'c
  r_data :: bytes
  r_consumer_pos :: "u64 option"
  r_producer_pos :: "u64 option"
  r_mask :: u64
  r_map_fd :: int

record 'c ring_buffer =
  rb_events :: "u32 list"
  rb_rings :: "'c ring list"
  rb_page_size :: u64
  rb_epoll_fd :: int
  rb_ring_cnt :: nat

datatype region = Consumer_page int | Producer_pages int

datatype ring_event = Mmap region u64 | Munmap region u64 | Close int

record ring_sys =
  sys_info :: "int \<Rightarrow> int + u32 \<times> u32"
  sys_mmap_consumer :: "int \<Rightarrow> u64 \<Rightarrow> int + u64"
  sys_mmap_producer :: "int \<Rightarrow> u64 \<Rightarrow> int + u64 \<times> bytes"
  sys_epoll_add :: "int \<Rightarrow> int \<Rightarrow> int"
  sys_epoll_create :: int
  sys_page_size :: u64
  sys_realloc_rings :: bool
  sys_realloc_events :: bool
  sys_calloc :: bool

abbreviation (input) BPF_MAP_TYPE_RINGBUF :: u32 where "BPF_MAP_TYPE_RINGBUF \<equiv> 27"
abbreviation (input) BPF_RINGBUF_BUSY_BIT :: u32 where "BPF_RINGBUF_BUSY_BIT \<equiv> 0x80000000"
abbreviation (input) BPF_RINGBUF_DISCARD_BIT :: u32 where "BPF_RINGBUF_DISCARD_BIT \<equiv> 0x40000000"
abbreviation (input) BPF_RINGBUF_HDR_SZ :: nat where "BPF_RINGBUF_HDR_SZ \<equiv> 8"

definition ringbuf_unmap_ring :: "u64 \<Rightarrow> 'c ring \<Rightarrow> 'c ring \<times> ring_event list" where
  "ringbuf_unmap_ring page_size r =
     (let (r, ev) = (if r_consumer_pos r \<noteq> None
            then (r\<lparr>r_consumer_pos := None\<rparr>, [Munmap (Consumer_page (r_map_fd r)) page_size])
            else (r, []))
      in if r_producer_pos r \<noteq> None
         then (r\<lparr>r_producer_pos := None\<rparr>,
               ev @ [Munmap (Producer_pages (r_map_fd r)) (page_size + 2 * (r_mask r + 1))])
         else (r, ev))"

text \<open>
  The sum \<open>rb->page_size + 2 * info.max_entries\<close> doubles a \<open>__u32\<close>. The entry of the event array
  holds the number of the ring, \<open>data.fd\<close>.
\<close>

definition mmap_size :: "u64 \<Rightarrow> u32 \<Rightarrow> u64" where
  "mmap_size page_size max_entries = page_size + ucast (2 * max_entries)"

definition ring_buffer_add :: "ring_sys \<Rightarrow> 'c ring_buffer \<Rightarrow> int \<Rightarrow> ('c \<Rightarrow> bytes \<Rightarrow> u64 \<Rightarrow> int \<times> 'c) \<Rightarrow> 'c \<Rightarrow>
    int \<times> 'c ring_buffer \<times> ring_event list" where
  "ring_buffer_add sys rb map_fd sample_cb ctx =
     (case sys_info sys map_fd of
        Inl err \<Rightarrow> (err, rb, [])
      | Inr (type, max_entries) \<Rightarrow>
          if type \<noteq> BPF_MAP_TYPE_RINGBUF then (- EINVAL, rb, [])
          else if \<not> sys_realloc_rings sys then (- ENOMEM, rb, [])
          else if \<not> sys_realloc_events sys then (- ENOMEM, rb, [])
          else
            let r = \<lparr>r_sample_cb = sample_cb, r_ctx = ctx, r_data = [], r_consumer_pos = None,
                     r_producer_pos = None, r_mask = ucast (max_entries - 1), r_map_fd = map_fd\<rparr>
            in (case sys_mmap_consumer sys map_fd (rb_page_size rb) of
                  Inl err \<Rightarrow> (err, rb, [])
                | Inr cons \<Rightarrow>
                    let r = r\<lparr>r_consumer_pos := Some cons\<rparr>;
                        ev = [Mmap (Consumer_page map_fd) (rb_page_size rb)];
                        mmap_sz = mmap_size (rb_page_size rb) max_entries
                    in (case sys_mmap_producer sys map_fd mmap_sz of
                          Inl err \<Rightarrow> (err, rb, ev @ snd (ringbuf_unmap_ring (rb_page_size rb) r))
                        | Inr (pos, data) \<Rightarrow>
                            let r = r\<lparr>r_producer_pos := Some pos, r_data := data\<rparr>;
                                ev = ev @ [Mmap (Producer_pages map_fd) mmap_sz];
                                err = sys_epoll_add sys (rb_epoll_fd rb) map_fd
                            in if err < 0 then (err, rb, ev @ snd (ringbuf_unmap_ring (rb_page_size rb) r))
                               else (0, rb\<lparr>rb_rings := take (rb_ring_cnt rb) (rb_rings rb) @ [r],
                                  rb_events := take (rb_ring_cnt rb) (rb_events rb) @ [of_nat (rb_ring_cnt rb)],
                                  rb_ring_cnt := rb_ring_cnt rb + 1\<rparr>, ev))))"

definition ring_buffer_free :: "'c ring_buffer option \<Rightarrow> ring_event list" where
  "ring_buffer_free rb =
     (case rb of
        None \<Rightarrow> []
      | Some rb \<Rightarrow>
          concat (map (\<lambda>r. snd (ringbuf_unmap_ring (rb_page_size rb) r)) (take (rb_ring_cnt rb) (rb_rings rb))) @
          (if rb_epoll_fd rb \<ge> 0 then [Close (rb_epoll_fd rb)] else []))"

text \<open>The result is the error in \<open>errno\<close>, or the manager; outside it \<open>None\<close> for a read beyond the options.\<close>

definition ring_buffer_new :: "ring_sys \<Rightarrow> int \<Rightarrow> ('c \<Rightarrow> bytes \<Rightarrow> u64 \<Rightarrow> int \<times> 'c) \<Rightarrow> 'c \<Rightarrow> bytes option \<Rightarrow>
    ((int + 'c ring_buffer) \<times> ring_event list) option" where
  "ring_buffer_new sys map_fd sample_cb ctx opts = do {
     valid \<leftarrow> OPTS_VALID opts 8;
     Some (if \<not> valid then (Inl EINVAL, [])
      else if \<not> sys_calloc sys then (Inl ENOMEM, [])
      else
        let rb = \<lparr>rb_events = [], rb_rings = [], rb_page_size = sys_page_size sys,
                  rb_epoll_fd = sys_epoll_create sys, rb_ring_cnt = 0\<rparr>
        in if rb_epoll_fd rb < 0 then (Inl (- rb_epoll_fd rb), ring_buffer_free (Some rb))
           else (case ring_buffer_add sys rb map_fd sample_cb ctx of (err, rb, ev) \<Rightarrow>
                   if err \<noteq> 0 then (Inl (- err), ev @ ring_buffer_free (Some rb))
                   else (Inr rb, ev)))
   }"

section \<open>Consuming\<close>

definition roundup_len :: "u32 \<Rightarrow> int" where
  "roundup_len len =
     (let len = push_bit 2 len;
          len = drop_bit 2 len;
          len = len + of_nat BPF_RINGBUF_HDR_SZ
      in sint ((len + 7) div 8 * 8))"

type_synonym 'c producer = "nat \<Rightarrow> 'c ring \<Rightarrow> 'c ring"

text \<open>
  The inner loop, from the position \<open>cons_pos\<close> up to the producer position last loaded. The value is
  the return value if the function returns from inside it, the time, the ring, the position,
  \<open>got_new_data\<close> and \<open>cnt\<close>.
\<close>

fun ringbuf_while :: "'c producer \<Rightarrow> nat \<Rightarrow> nat \<Rightarrow> 'c ring \<Rightarrow> u64 \<Rightarrow> u64 \<Rightarrow> bool \<Rightarrow> int \<Rightarrow>
    (int option \<times> nat \<times> 'c ring \<times> u64 \<times> bool \<times> int) option" where
  "ringbuf_while kern 0 t r cons_pos prod_pos got_new_data cnt = None"
| "ringbuf_while kern (Suc n) t r cons_pos prod_pos got_new_data cnt =
     (if cons_pos < prod_pos then do {
        let len_ptr = unat (cons_pos AND r_mask r);
        let r = kern t r;
        len \<leftarrow> ld32 (r_data r @ r_data r) len_ptr;
        if len AND BPF_RINGBUF_BUSY_BIT \<noteq> 0 then Some (Some cnt, t + 1, r, cons_pos, got_new_data, cnt)
        else do {
          let cons_pos = cons_pos + of_int (roundup_len len);
          if len AND BPF_RINGBUF_DISCARD_BIT = 0 then do {
            sample \<leftarrow> ldn (r_data r @ r_data r) (len_ptr + BPF_RINGBUF_HDR_SZ) (unat len);
            let (err, ctx) = r_sample_cb r (r_ctx r) sample (ucast len);
            let r = r\<lparr>r_ctx := ctx, r_consumer_pos := Some cons_pos\<rparr>;
            if err < 0 then Some (Some err, t + 1, r, cons_pos, True, cnt)
            else ringbuf_while kern n (t + 1) r cons_pos prod_pos True (cnt + 1)
          }
          else ringbuf_while kern n (t + 1) (r\<lparr>r_consumer_pos := Some cons_pos\<rparr>) cons_pos prod_pos True cnt
        }
      }
      else Some (None, t, r, cons_pos, got_new_data, cnt))"

text \<open>The outer loop; \<open>n\<close> bounds its rounds, \<open>fuel\<close> those of the inner one.\<close>

fun ringbuf_rounds :: "'c producer \<Rightarrow> nat \<Rightarrow> nat \<Rightarrow> nat \<Rightarrow> 'c ring \<Rightarrow> u64 \<Rightarrow> int \<Rightarrow> (int \<times> nat \<times> 'c ring) option" where
  "ringbuf_rounds kern fuel 0 t r cons_pos cnt = None"
| "ringbuf_rounds kern fuel (Suc n) t r cons_pos cnt = do {
     let r = kern t r;
     prod_pos \<leftarrow> r_producer_pos r;
     (ret, t, r, cons_pos, got_new_data, cnt) \<leftarrow> ringbuf_while kern fuel (t + 1) r cons_pos prod_pos False cnt;
     (case ret of
        Some v \<Rightarrow> Some (v, t, r)
      | None \<Rightarrow>
          if got_new_data then ringbuf_rounds kern fuel n t r cons_pos cnt
          else Some (cnt, t, r))
   }"

definition ringbuf_process_ring :: "'c producer \<Rightarrow> nat \<Rightarrow> nat \<Rightarrow> 'c ring \<Rightarrow> (int \<times> nat \<times> 'c ring) option" where
  "ringbuf_process_ring kern fuel t r = do {
     cons_pos \<leftarrow> r_consumer_pos r;
     ringbuf_rounds kern fuel fuel t r cons_pos 0
   }"

abbreviation (input) INT_MAX :: int where "INT_MAX \<equiv> 2 ^ 31 - 1"

text \<open>The rings of the given numbers, one after the other, each with its producer.\<close>

fun process_rings :: "(nat \<Rightarrow> 'c producer) \<Rightarrow> nat \<Rightarrow> nat \<Rightarrow> 'c ring_buffer \<Rightarrow> nat list \<Rightarrow> int \<Rightarrow>
    (int \<times> nat \<times> 'c ring_buffer) option" where
  "process_rings kern fuel t rb [] res = Some (if res > INT_MAX then INT_MAX else res, t, rb)"
| "process_rings kern fuel t rb (i # is) res = do {
     ring \<leftarrow> arr_get (rb_rings rb) i;
     (err, t, ring) \<leftarrow> ringbuf_process_ring (kern i) fuel t ring;
     let rb = rb\<lparr>rb_rings := (rb_rings rb)[i := ring]\<rparr>;
     if err < 0 then Some (err, t, rb)
     else process_rings kern fuel t rb is (res + err)
   }"

definition ring_buffer_consume :: "(nat \<Rightarrow> 'c producer) \<Rightarrow> nat \<Rightarrow> nat \<Rightarrow> 'c ring_buffer \<Rightarrow>
    (int \<times> nat \<times> 'c ring_buffer) option" where
  "ring_buffer_consume kern fuel t rb = process_rings kern fuel t rb [0..<rb_ring_cnt rb] 0"

text \<open>\<open>epoll_wait\<close> gives a negative error or the numbers it was registered with.\<close>

definition ring_buffer_poll :: "(nat \<Rightarrow> 'c producer) \<Rightarrow> nat \<Rightarrow> nat \<Rightarrow> (int + u32 list) \<Rightarrow> 'c ring_buffer \<Rightarrow>
    (int \<times> nat \<times> 'c ring_buffer) option" where
  "ring_buffer_poll kern fuel t epoll_wait rb =
     (case epoll_wait of
        Inl err \<Rightarrow> Some (err, t, rb)
      | Inr ids \<Rightarrow>
          let rb = rb\<lparr>rb_events := ids @ drop (length ids) (rb_events rb)\<rparr>
          in process_rings kern fuel t rb (map unat ids) 0)"

definition ring_buffer_epoll_fd :: "'c ring_buffer \<Rightarrow> int" where
  "ring_buffer_epoll_fd rb = rb_epoll_fd rb"

end
