(* ===== verification/Ringbuf_Delivery.thy ===== *)
theory Ringbuf_Delivery
  imports Ringbuf
begin

text \<open>
  What consuming a ring guarantees against a producer that behaves as the kernel documents: records
  are laid one behind the other, a record is final once its busy bit is clear, and space is reused
  only behind the consumer position.
\<close>

section \<open>The log of the producer\<close>

text \<open>
  The records the producer ever reserves, in order: whether the record ends up discarded, and its
  payload. A record takes its header and payload rounded up to eight bytes.
\<close>

type_synonym rec_log = "nat \<Rightarrow> bool \<times> bytes"

definition rec_size :: "bool \<times> bytes \<Rightarrow> nat" where
  "rec_size rec = (length (snd rec) + 8 + 7) div 8 * 8"

definition rec_pos :: "rec_log \<Rightarrow> nat \<Rightarrow> nat" where
  "rec_pos log k = (\<Sum>i < k. rec_size (log i))"

definition rec_hdr :: "bool \<times> bytes \<Rightarrow> u32" where
  "rec_hdr rec = of_nat (length (snd rec)) OR (if fst rec then BPF_RINGBUF_DISCARD_BIT else 0)"

definition ring_size :: "'c ring \<Rightarrow> nat" where
  "ring_size r = length (r_data r)"

definition rec_at :: "rec_log \<Rightarrow> 'c ring \<Rightarrow> nat \<Rightarrow> nat" where
  "rec_at log r k = rec_pos log k mod ring_size r"

definition rec_busy :: "rec_log \<Rightarrow> 'c ring \<Rightarrow> nat \<Rightarrow> bool" where
  "rec_busy log r k \<longleftrightarrow>
     (\<exists>w. ld32 (r_data r @ r_data r) (rec_at log r k) = Some w \<and> w AND BPF_RINGBUF_BUSY_BIT \<noteq> 0)"

definition rec_final :: "rec_log \<Rightarrow> 'c ring \<Rightarrow> nat \<Rightarrow> bool" where
  "rec_final log r k \<longleftrightarrow>
     ld32 (r_data r @ r_data r) (rec_at log r k) = Some (rec_hdr (log k)) \<and>
     ldn (r_data r @ r_data r) (rec_at log r k + 8) (length (snd (log k))) = Some (snd (log k))"

text \<open>The ring when the consumer has passed \<open>i\<close> records and \<open>n\<close> have been reserved.\<close>

definition ring_ok :: "rec_log \<Rightarrow> nat \<Rightarrow> nat \<Rightarrow> 'c ring \<Rightarrow> bool" where
  "ring_ok log i n r \<longleftrightarrow> i \<le> n \<and>
     r_consumer_pos r = Some (of_nat (rec_pos log i)) \<and> r_producer_pos r = Some (of_nat (rec_pos log n)) \<and>
     (\<exists>b. r_mask r = mask b \<and> ring_size r = 2 ^ b \<and> b < 64) \<and>
     rec_pos log n < 2 ^ 64 \<and> (\<forall>k. length (snd (log k)) < 2 ^ 30) \<and>
     (\<forall>k. i \<le> k \<and> k < n \<longrightarrow> rec_busy log r k \<or> rec_final log r k)"

text \<open>What the producer may do: reserve records, at most \<open>N\<close> in all, and make records final.\<close>

definition producer_ok :: "rec_log \<Rightarrow> nat \<Rightarrow> 'c producer \<Rightarrow> bool" where
  "producer_ok log N kern \<longleftrightarrow> (\<forall>t i n r. ring_ok log i n r \<and> n \<le> N \<longrightarrow>
     (\<exists>n' pos data. n \<le> n' \<and> n' \<le> N \<and> kern t r = r\<lparr>r_producer_pos := pos, r_data := data\<rparr> \<and>
        ring_ok log i n' (kern t r) \<and>
        (\<forall>k. i \<le> k \<and> k < n \<and> rec_final log r k \<longrightarrow> rec_final log (kern t r) k)))"

text \<open>Handing records to the callback: the error that stopped it, the context and the number delivered.\<close>

fun deliver :: "('c \<Rightarrow> bytes \<Rightarrow> u64 \<Rightarrow> int \<times> 'c) \<Rightarrow> 'c \<Rightarrow> int \<Rightarrow> (bool \<times> bytes) list \<Rightarrow> int option \<times> 'c \<times> int" where
  "deliver cb ctx cnt [] = (None, ctx, cnt)"
| "deliver cb ctx cnt ((discarded, payload) # recs) =
     (if discarded then deliver cb ctx cnt recs
      else case cb ctx payload (of_nat (length payload)) of (err, ctx) \<Rightarrow>
        if err < 0 then (Some err, ctx, cnt) else deliver cb ctx (cnt + 1) recs)"

lemma deliver_append:
  "deliver cb ctx cnt (xs @ ys) =
     (case deliver cb ctx cnt xs of (None, ctx, cnt) \<Rightarrow> deliver cb ctx cnt ys | r \<Rightarrow> r)"
  by (induction cb ctx cnt xs rule: deliver.induct) (auto split: prod.splits)

section \<open>Positions and headers\<close>

lemma rec_size_ge: "8 \<le> rec_size rec"
  by (simp add: rec_size_def)

lemma rec_pos_Suc: "rec_pos log (Suc k) = rec_pos log k + rec_size (log k)"
  by (simp add: rec_pos_def)

lemma rec_pos_mono: "i \<le> j \<Longrightarrow> rec_pos log i \<le> rec_pos log j"
  by (rule lift_Suc_mono_le) (simp add: rec_pos_Suc)

lemma rec_pos_strict:
  assumes "i < j"
  shows "rec_pos log i < rec_pos log j"
proof (rule lift_Suc_mono_less [OF _ assms])
  show "rec_pos log k < rec_pos log (Suc k)" for k using rec_size_ge [of "log k"] by (simp add: rec_pos_Suc)
qed

lemma rec_pos_less_iff: "rec_pos log i < rec_pos log j \<longleftrightarrow> i < j"
  using rec_pos_strict rec_pos_mono by (metis linorder_not_less)

lemma unat_pos: "rec_pos log n < 2 ^ 64 \<Longrightarrow> i \<le> n \<Longrightarrow> unat (of_nat (rec_pos log i) :: u64) = rec_pos log i"
  using rec_pos_mono [of i n log] by (simp add: unsigned_of_nat take_bit_nat_eq_self)

lemma pos_less_iff:
  assumes "rec_pos log n < 2 ^ 64" "i \<le> n" "p \<le> n"
  shows "(of_nat (rec_pos log i) :: u64) < of_nat (rec_pos log p) \<longleftrightarrow> i < p"
  using unat_pos [OF assms(1,2)] unat_pos [OF assms(1,3)] by (simp add: word_less_nat_alt rec_pos_less_iff)

lemma bit_small: "(k :: nat) < 2 ^ 30 \<Longrightarrow> bit k n \<Longrightarrow> n < 30"
proof (rule ccontr)
  assume "k < 2 ^ 30" "bit k n" "\<not> n < 30"
  then have "k < 2 ^ n" using power_increasing [of 30 n "2 :: nat"] by linarith
  then have "k div 2 ^ n = 0" by simp
  then show False using \<open>bit k n\<close> by (simp add: bit_iff_odd)
qed

lemma flag_bits: "bit (BPF_RINGBUF_BUSY_BIT) n \<longleftrightarrow> n = 31" "bit (BPF_RINGBUF_DISCARD_BIT) n \<longleftrightarrow> n = 30"
proof -
  have "bit (push_bit 31 1 :: u32) n \<longleftrightarrow> n = 31" "bit (push_bit 30 1 :: u32) n \<longleftrightarrow> n = 30"
    unfolding bit_push_bit_iff by (auto simp: bit_1_iff)
  then show "bit (BPF_RINGBUF_BUSY_BIT) n \<longleftrightarrow> n = 31" "bit (BPF_RINGBUF_DISCARD_BIT) n \<longleftrightarrow> n = 30" by simp_all
qed

lemmas hdr_bits = bit_and_iff bit_or_iff bit_push_bit_iff bit_of_nat_iff possible_bit_def flag_bits

lemma hdr_parts:
  assumes "length (snd rec) < 2 ^ 30"
  shows "rec_hdr rec AND BPF_RINGBUF_BUSY_BIT = 0"
    "rec_hdr rec AND BPF_RINGBUF_DISCARD_BIT = 0 \<longleftrightarrow> \<not> fst rec"
    "push_bit 2 (rec_hdr rec) = push_bit 2 (of_nat (length (snd rec)))"
proof -
  note len = bit_small [OF assms]
  show "rec_hdr rec AND BPF_RINGBUF_BUSY_BIT = 0"
    unfolding rec_hdr_def by (rule bit_word_eqI) (auto simp: hdr_bits simp del: bit_numeral_word_iff dest: len)
  have "bit (rec_hdr rec) 30 = fst rec" unfolding rec_hdr_def using len [of 30] by (auto simp: hdr_bits simp del: bit_numeral_word_iff)
  moreover have "w AND BPF_RINGBUF_DISCARD_BIT = 0 \<longleftrightarrow> \<not> bit w 30" for w
  proof
    assume "w AND BPF_RINGBUF_DISCARD_BIT = 0"
    then have "bit (w AND BPF_RINGBUF_DISCARD_BIT) 30 = bit (0 :: u32) 30" by simp
    then show "\<not> bit w 30" by (simp add: hdr_bits del: bit_numeral_word_iff)
  next
    assume "\<not> bit w 30"
    then show "w AND BPF_RINGBUF_DISCARD_BIT = 0"
      by (intro bit_word_eqI) (auto simp: hdr_bits simp del: bit_numeral_word_iff)
  qed
  ultimately show "rec_hdr rec AND BPF_RINGBUF_DISCARD_BIT = 0 \<longleftrightarrow> \<not> fst rec" by simp
  show "push_bit 2 (rec_hdr rec) = push_bit 2 (of_nat (length (snd rec)))"
    unfolding rec_hdr_def by (rule bit_word_eqI) (auto simp: hdr_bits simp del: bit_numeral_word_iff)
qed

lemma roundup_rec:
  assumes "length (snd rec) < 2 ^ 30"
  shows "roundup_len (rec_hdr rec) = int (rec_size rec)"
proof -
  let ?n = "length (snd rec)"
  have "drop_bit 2 (push_bit 2 (of_nat ?n :: u32)) = of_nat ?n"
    using bit_small [OF assms] by (intro bit_word_eqI) (auto simp: bit_simps)
  then have "roundup_len (rec_hdr rec) = sint ((of_nat ?n + 8 + 7) div 8 * 8 :: u32)"
    by (simp add: roundup_len_def hdr_parts(3) [OF assms] add.commute)
  also have "(of_nat ?n + 8 + 7) div 8 * 8 = (of_nat (rec_size rec) :: u32)"
  proof -
    have "unat ((of_nat ?n + 8 + 7) div 8 * 8 :: u32) = rec_size rec"
      using assms by (simp add: rec_size_def unat_word_ariths unsigned_of_nat take_bit_nat_eq_self unat_div)
    moreover have "rec_size rec < 2 ^ 32" using assms by (simp add: rec_size_def)
    then have "unat (of_nat (rec_size rec) :: u32) = rec_size rec"
      by (simp add: unsigned_of_nat take_bit_nat_eq_self)
    ultimately show ?thesis by (simp only: word_unat_eq_iff)
  qed
  also have "sint (of_nat (rec_size rec) :: u32) = int (rec_size rec)"
  proof -
    have "rec_size rec < 2 ^ 31" using assms by (simp add: rec_size_def)
    then show ?thesis by (simp add: signed_of_nat signed_take_bit_int_eq_self)
  qed
  finally show ?thesis .
qed

section \<open>One record\<close>

lemma ring_ok_off:
  assumes "ring_ok log i n r" "k \<le> n"
  shows "unat (of_nat (rec_pos log k) AND r_mask r) = rec_at log r k"
proof -
  obtain b where b: "r_mask r = mask b" "ring_size r = 2 ^ b" "rec_pos log n < 2 ^ 64" "b < 64"
    using assms(1) by (auto simp: ring_ok_def)
  then have "unat (of_nat (rec_pos log k) AND r_mask r) = take_bit b (unat (of_nat (rec_pos log k) :: u64))"
    by (simp add: unsigned_take_bit_eq flip: take_bit_eq_mask)
  then show ?thesis using unat_pos [OF b(3) assms(2)] b(2) by (simp add: rec_at_def take_bit_eq_mod)
qed

lemma next_pos:
  assumes "length (snd (log i)) < 2 ^ 30"
  shows "(of_nat (rec_pos log i) :: u64) + of_int (roundup_len (rec_hdr (log i))) = of_nat (rec_pos log (Suc i))"
  by (simp add: roundup_rec [OF assms] rec_pos_Suc)

lemma ring_ok_ctx [simp]: "ring_ok log i n (r\<lparr>r_ctx := ctx\<rparr>) = ring_ok log i n r"
  by (simp add: ring_ok_def rec_busy_def rec_final_def rec_at_def ring_size_def)

lemma ring_ok_consumed:
  assumes "ring_ok log i n r" "i < n"
  shows "ring_ok log (Suc i) n (r\<lparr>r_consumer_pos := Some (of_nat (rec_pos log (Suc i)))\<rparr>)"
  using assms by (auto simp: ring_ok_def rec_busy_def rec_final_def rec_at_def ring_size_def)

text \<open>What the producer leaves alone: records not yet passed stay final.\<close>

definition keeps :: "rec_log \<Rightarrow> nat \<Rightarrow> nat \<Rightarrow> 'c ring \<Rightarrow> 'c ring \<Rightarrow> bool" where
  "keeps log j n r r' \<longleftrightarrow> (\<forall>k. j \<le> k \<and> k < n \<and> rec_final log r k \<longrightarrow> rec_final log r' k)"

lemma keeps_trans: "keeps log i n r r' \<Longrightarrow> keeps log j n' r' r'' \<Longrightarrow> i \<le> j \<Longrightarrow> n \<le> n' \<Longrightarrow> keeps log j n r r''"
  by (simp add: keeps_def)

lemma keeps_consumed [simp]:
  "keeps log j n r (r'\<lparr>r_ctx := ctx\<rparr>) = keeps log j n r r'"
  "keeps log j n r (r'\<lparr>r_consumer_pos := c\<rparr>) = keeps log j n r r'"
  by (simp_all add: keeps_def rec_final_def rec_at_def ring_size_def)

lemma keeps_mono: "keeps log i n r r' \<Longrightarrow> i \<le> j \<Longrightarrow> keeps log j n r r'"
  by (simp add: keeps_def)

lemma producer_step:
  assumes "producer_ok log N kern" "ring_ok log i n r" "n \<le> N"
  obtains n' where "n \<le> n'" "n' \<le> N" "ring_ok log i n' (kern t r)" "r_ctx (kern t r) = r_ctx r"
    "r_sample_cb (kern t r) = r_sample_cb r" "r_mask (kern t r) = r_mask r" "keeps log i n r (kern t r)"
proof -
  obtain n' pos data where k: "n \<le> n'" "n' \<le> N" "kern t r = r\<lparr>r_producer_pos := pos, r_data := data\<rparr>"
    "ring_ok log i n' (kern t r)" "\<forall>k. i \<le> k \<and> k < n \<and> rec_final log r k \<longrightarrow> rec_final log (kern t r) k"
    using assms unfolding producer_ok_def by blast
  have "r_ctx (kern t r) = r_ctx r" "r_sample_cb (kern t r) = r_sample_cb r" "r_mask (kern t r) = r_mask r"
    using k(3) by simp_all
  then show ?thesis using that k(1,2,4,5) by (simp add: keeps_def)
qed

text \<open>The inner loop takes records up to the producer position it knows, or stops at one.\<close>

definition while_result where
  "while_result N log i n p r got cnt ret r' cons got' cnt' \<longleftrightarrow> (\<exists>j n'. i \<le> j \<and> j \<le> p \<and> p \<le> n' \<and> n' \<le> N \<and> ring_ok log j n' r' \<and> keeps log j n r r' \<and>
     r_sample_cb r' = r_sample_cb r \<and> cons = of_nat (rec_pos log j) \<and> got' = (got \<or> i < j) \<and>
     (case ret of
        None \<Rightarrow> j = p \<and> deliver (r_sample_cb r) (r_ctx r) cnt (map log [i..<j]) = (None, r_ctx r', cnt')
      | Some v \<Rightarrow>
          v = cnt' \<and> rec_busy log r' j \<and> deliver (r_sample_cb r) (r_ctx r) cnt (map log [i..<j]) = (None, r_ctx r', v) \<or>
          v < 0 \<and> i < j \<and> deliver (r_sample_cb r) (r_ctx r) cnt (map log [i..<j]) = (Some v, r_ctx r', cnt')))"

lemma upt_first: "i < j \<Longrightarrow> map log [i..<j] = log i # map log [Suc i..<j]"
  by (simp add: upt_conv_Cons)

lemma while_step:
  assumes "while_result N log (Suc i) n' p r1 True cnt1 ret r' cons got' cnt'" "i < p" "r_sample_cb r1 = r_sample_cb r"
    "keeps log i n r r1" "n \<le> n'"
    "\<And>recs. deliver (r_sample_cb r) (r_ctx r) cnt (log i # recs) = deliver (r_sample_cb r) (r_ctx r1) cnt1 recs"
  shows "while_result N log i n p r got cnt ret r' cons got' cnt'"
proof -
  obtain j n2 where j: "Suc i \<le> j" "j \<le> p" "p \<le> n2" "n2 \<le> N" "ring_ok log j n2 r'" "keeps log j n' r1 r'"
    "r_sample_cb r' = r_sample_cb r1" "cons = of_nat (rec_pos log j)" "got'"
    "case ret of
        None \<Rightarrow> j = p \<and> deliver (r_sample_cb r1) (r_ctx r1) cnt1 (map log [Suc i..<j]) = (None, r_ctx r', cnt')
      | Some v \<Rightarrow>
          v = cnt' \<and> rec_busy log r' j \<and> deliver (r_sample_cb r1) (r_ctx r1) cnt1 (map log [Suc i..<j]) = (None, r_ctx r', v) \<or>
          v < 0 \<and> Suc i < j \<and> deliver (r_sample_cb r1) (r_ctx r1) cnt1 (map log [Suc i..<j]) = (Some v, r_ctx r', cnt')"
    using assms(1) unfolding while_result_def by auto
  have "map log [i..<j] = log i # map log [Suc i..<j]" using j(1) by (intro upt_first) simp
  moreover have "keeps log j n r r'" using keeps_trans [OF assms(4) j(6) _ assms(5)] j(1) by simp
  ultimately show ?thesis
    unfolding while_result_def using j assms(3,6)
    by (intro exI [of _ j] exI [of _ n2]) (auto split: option.splits)
qed

lemma ringbuf_while_ok:
  assumes K: "producer_ok log N kern"
  shows "ring_ok log i n r \<Longrightarrow> i \<le> p \<Longrightarrow> p \<le> n \<Longrightarrow> n \<le> N \<Longrightarrow> p - i < fuel \<Longrightarrow>
    \<exists>ret t' r' cons got' cnt'.
      ringbuf_while kern fuel t r (of_nat (rec_pos log i)) (of_nat (rec_pos log p)) got cnt =
        Some (ret, t', r', cons, got', cnt') \<and> while_result N log i n p r got cnt ret r' cons got' cnt'"
proof (induction fuel arbitrary: i n r t got cnt)
  case (Suc fuel)
  have lt: "rec_pos log n < 2 ^ 64" using Suc.prems(1) by (simp add: ring_ok_def)
  have guard: "(of_nat (rec_pos log i) :: u64) < of_nat (rec_pos log p) \<longleftrightarrow> i < p"
    using pos_less_iff [OF lt, of i p] Suc.prems(2,3) by simp
  show ?case
  proof (cases "i < p")
    case False
    then have "i = p" using Suc.prems(2) by simp
    then have "while_result N log i n p r got cnt None r (of_nat (rec_pos log i)) got cnt"
      unfolding while_result_def using Suc.prems by (intro exI [of _ i] exI [of _ n]) (simp add: keeps_def)
    then show ?thesis using False guard by simp
  next
    case True
    let ?r = "kern t r" and ?at = "unat (of_nat (rec_pos log i) AND r_mask r)"
    obtain n' where n': "n \<le> n'" "n' \<le> N" "ring_ok log i n' ?r" "r_ctx ?r = r_ctx r"
      "r_sample_cb ?r = r_sample_cb r" "r_mask ?r = r_mask r" "keeps log i n r ?r"
      using producer_step [OF K Suc.prems(1,4)] by blast
    have at: "?at = rec_at log ?r i" using ring_ok_off [OF n'(3), of i] n'(6) True Suc.prems(3) n'(1) by simp
    have len30: "length (snd (log i)) < 2 ^ 30" using n'(3) by (simp add: ring_ok_def)
    have "rec_busy log ?r i \<or> rec_final log ?r i"
      using n'(1,3) True Suc.prems(3) by (simp add: ring_ok_def)
    then show ?thesis
    proof
      assume busy: "rec_busy log ?r i"
      then have "while_result N log i n p r got cnt (Some cnt) ?r (of_nat (rec_pos log i)) got cnt"
        unfolding while_result_def using True n' Suc.prems(2,3) by (intro exI [of _ i] exI [of _ n']) simp
      then show ?thesis using True guard at busy by (auto simp: rec_busy_def)
    next
      assume fin: "rec_final log ?r i"
      note parts = hdr_parts(1,2) [OF len30]
      obtain discarded payload where li: "log i = (discarded, payload)" by (cases "log i")
      let ?cons = "of_nat (rec_pos log (Suc i)) :: u64"
      let ?c = "\<lambda>r. r\<lparr>r_consumer_pos := Some ?cons\<rparr>"
      have ok': "ring_ok log (Suc i) n' (?c ?r)"
        by (rule ring_ok_consumed [OF n'(3)]) (use True Suc.prems(3) n'(1) in simp)
      have next': "(of_nat (rec_pos log i) :: u64) + of_int (roundup_len (rec_hdr (log i))) = ?cons"
        by (rule next_pos [where log = log, OF len30])
      have rest: "Suc i \<le> p" "p \<le> n'" "n' \<le> N" "p - Suc i < fuel" using True Suc.prems n'(1,2) by simp_all
      show ?thesis
      proof (cases discarded)
        case True
        have "ringbuf_while kern (Suc fuel) t r (of_nat (rec_pos log i)) (of_nat (rec_pos log p)) got cnt =
            ringbuf_while kern fuel (t + 1) (?c ?r) ?cons (of_nat (rec_pos log p)) True cnt"
          using guard \<open>i < p\<close> fin parts li True at next' by (simp add: rec_final_def Let_def)
        moreover obtain ret t' r' cons got' cnt' where w:
          "ringbuf_while kern fuel (t + 1) (?c ?r) ?cons (of_nat (rec_pos log p)) True cnt =
             Some (ret, t', r', cons, got', cnt')" "while_result N log (Suc i) n' p (?c ?r) True cnt ret r' cons got' cnt'"
          using Suc.IH [OF ok' rest] by blast
        moreover have "while_result N log i n p r got cnt ret r' cons got' cnt'"
          by (rule while_step [OF w(2) \<open>i < p\<close>]) (use n'(1,4,5,7) li True in simp_all)
        ultimately show ?thesis by metis
      next
        case False
        obtain err ctx where cb: "r_sample_cb r (r_ctx r) payload (of_nat (length payload)) = (err, ctx)" by fastforce
        have hdr: "rec_hdr (log i) = of_nat (length payload)" using li False by (simp add: rec_hdr_def)
        have ulen: "unat (of_nat (length payload) :: u32) = length payload"
          "(ucast (of_nat (length payload) :: u32) :: u64) = of_nat (length payload)"
          using len30 li by (simp_all add: unsigned_of_nat take_bit_nat_eq_self unsigned_ucast_eq word_unat_eq_iff)
        let ?r1 = "?r\<lparr>r_ctx := ctx, r_consumer_pos := Some ?cons\<rparr>"
        have ok1: "ring_ok log (Suc i) n' ?r1"
          using ring_ok_consumed [of log i n' "?r\<lparr>r_ctx := ctx\<rparr>"] n'(1,3) Suc.prems(3) \<open>i < p\<close> by simp
        have step: "ringbuf_while kern (Suc fuel) t r (of_nat (rec_pos log i)) (of_nat (rec_pos log p)) got cnt =
            (if err < 0 then Some (Some err, t + 1, ?r1, ?cons, True, cnt)
             else ringbuf_while kern fuel (t + 1) ?r1 ?cons (of_nat (rec_pos log p)) True (cnt + 1))"
          using guard \<open>i < p\<close> fin [unfolded rec_final_def] parts li False at next' cb n'(4,5) ulen hdr
          by (simp add: Let_def)
        show ?thesis
        proof (cases "err < 0")
          case neg: True
          have "while_result N log i n p r got cnt (Some err) ?r1 ?cons True cnt"
            unfolding while_result_def using ok1 rest(1,2,3) n'(5) keeps_mono [OF n'(7), of "Suc i"] neg cb li False
            by (intro exI [of _ "Suc i"] exI [of _ n']) (simp add: upt_first)
          then show ?thesis using step neg by auto
        next
          case pos: False
          obtain ret t' r' cons got' cnt' where w:
            "ringbuf_while kern fuel (t + 1) ?r1 ?cons (of_nat (rec_pos log p)) True (cnt + 1) =
               Some (ret, t', r', cons, got', cnt')" "while_result N log (Suc i) n' p ?r1 True (cnt + 1) ret r' cons got' cnt'"
            using Suc.IH [OF ok1 rest] by blast
          have "while_result N log i n p r got cnt ret r' cons got' cnt'"
            by (rule while_step [OF w(2) \<open>i < p\<close>]) (use n'(1,5,7) li False cb pos in simp_all)
          then show ?thesis using step w(1) pos by auto
        qed
      qed
    qed
  qed
qed simp

section \<open>A run of the consumer\<close>

lemma ringbuf_rounds_ok:
  assumes K: "producer_ok log N kern"
  shows "ring_ok log i n r \<Longrightarrow> n \<le> N \<Longrightarrow> N - i < m \<Longrightarrow> N - i < fuel \<Longrightarrow>
    \<exists>v t' r' j n' c. ringbuf_rounds kern fuel m t r (of_nat (rec_pos log i)) cnt = Some (v, t', r') \<and>
      i \<le> j \<and> n \<le> n' \<and> n' \<le> N \<and> ring_ok log j n' r' \<and> keeps log j n r r' \<and>
      (deliver (r_sample_cb r) (r_ctx r) cnt (map log [i..<j]) = (None, r_ctx r', v) \<and> (j = n' \<or> rec_busy log r' j) \<or>
       v < 0 \<and> i < j \<and> deliver (r_sample_cb r) (r_ctx r) cnt (map log [i..<j]) = (Some v, r_ctx r', c))"
proof (induction m arbitrary: i n r t cnt)
  case (Suc m)
  let ?r = "kern t r"
  obtain p where p: "n \<le> p" "p \<le> N" "ring_ok log i p ?r" "r_ctx ?r = r_ctx r"
    "r_sample_cb ?r = r_sample_cb r" "r_mask ?r = r_mask r" "keeps log i n r ?r"
    using producer_step [OF K Suc.prems(1,2)] by blast
  have prod: "r_producer_pos ?r = Some (of_nat (rec_pos log p))" and ip: "i \<le> p" using p(3) by (simp_all add: ring_ok_def)
  have "p - i < fuel" using p(2) Suc.prems(4) by simp
  from ringbuf_while_ok [OF K p(3) ip order_refl p(2) this, of "t + 1" False cnt]
  obtain ret t' r' cons got' cnt' where
    w: "ringbuf_while kern fuel (t + 1) ?r (of_nat (rec_pos log i)) (of_nat (rec_pos log p)) False cnt =
       Some (ret, t', r', cons, got', cnt')" "while_result N log i p p ?r False cnt ret r' cons got' cnt'" by blast
  obtain j n' where j: "i \<le> j" "j \<le> p" "p \<le> n'" "n' \<le> N" "ring_ok log j n' r'" "r_sample_cb r' = r_sample_cb ?r"
    "keeps log j p ?r r'"
    "cons = of_nat (rec_pos log j)" "got' = (i < j)"
    "case ret of
        None \<Rightarrow> j = p \<and> deliver (r_sample_cb ?r) (r_ctx ?r) cnt (map log [i..<j]) = (None, r_ctx r', cnt')
      | Some v \<Rightarrow>
          v = cnt' \<and> rec_busy log r' j \<and> deliver (r_sample_cb ?r) (r_ctx ?r) cnt (map log [i..<j]) = (None, r_ctx r', v) \<or>
          v < 0 \<and> i < j \<and> deliver (r_sample_cb ?r) (r_ctx ?r) cnt (map log [i..<j]) = (Some v, r_ctx r', cnt')"
    using w(2) unfolding while_result_def by auto
  note cb = p(4,5)
  have kp: "keeps log j n r r'" by (rule keeps_trans [OF p(7) j(7) j(1) p(1)])
  show ?case
  proof (cases "i = p")
    case True
    have "(of_nat (rec_pos log i) :: u64) < of_nat (rec_pos log p) \<longleftrightarrow> False" using True by simp
    moreover have "fuel \<noteq> 0" using Suc.prems(4) by simp
    then obtain f where "fuel = Suc f" by (cases fuel) auto
    ultimately have "ringbuf_rounds kern fuel (Suc m) t r (of_nat (rec_pos log i)) cnt = Some (cnt, t + 1, ?r)"
      using prod by simp
    then show ?thesis
      using p True cb by (intro exI [of _ cnt] exI [of _ "t + 1"] exI [of _ ?r] exI [of _ i] exI [of _ p]) simp
  next
    case False
    show ?thesis
    proof (cases ret)
      case (Some v)
      then have "ringbuf_rounds kern fuel (Suc m) t r (of_nat (rec_pos log i)) cnt = Some (v, t', r')"
        using prod w(1) by (simp add: Let_def)
      then show ?thesis
        using j(1,3,4,5,10) kp p(1) Some cb
        by (intro exI [of _ v] exI [of _ t'] exI [of _ r'] exI [of _ j] exI [of _ n'] exI [of _ cnt']) auto
    next
      case None
      then have jp: "j = p" "deliver (r_sample_cb r) (r_ctx r) cnt (map log [i..<j]) = (None, r_ctx r', cnt')" "got'"
        using j(9,10) cb False ip by auto
      have rounds: "ringbuf_rounds kern fuel (Suc m) t r (of_nat (rec_pos log i)) cnt =
          ringbuf_rounds kern fuel m t' r' (of_nat (rec_pos log j)) cnt'"
        using prod w(1) None jp(3) j(8) by (simp add: Let_def)
      have "N - j < m" "N - j < fuel" using Suc.prems(3,4) jp(1) False ip p(2) by simp_all
      from Suc.IH [OF j(5,4) this, of t' cnt']
      obtain v t2 r2 k n2 c where k: "ringbuf_rounds kern fuel m t' r' (of_nat (rec_pos log j)) cnt' = Some (v, t2, r2)"
        "j \<le> k" "n' \<le> n2" "n2 \<le> N" "ring_ok log k n2 r2" "keeps log k n' r' r2"
        "deliver (r_sample_cb r') (r_ctx r') cnt' (map log [j..<k]) = (None, r_ctx r2, v) \<and> (k = n2 \<or> rec_busy log r2 k) \<or>
         v < 0 \<and> j < k \<and> deliver (r_sample_cb r') (r_ctx r') cnt' (map log [j..<k]) = (Some v, r_ctx r2, c)"
        by blast
      have split: "map log [i..<k] = map log [i..<j] @ map log [j..<k]"
        using j(1) k(2) by (metis map_append upt_add_eq_append le_add_diff_inverse)
      have "deliver (r_sample_cb r) (r_ctx r) cnt (map log [i..<k]) =
          deliver (r_sample_cb r') (r_ctx r') cnt' (map log [j..<k])"
        unfolding split using jp(2) j(6) cb by (simp add: deliver_append)
      then show ?thesis
        using rounds k j(1,3) p(1) keeps_trans [OF kp k(6) k(2)] by (intro exI [of _ v] exI [of _ t2] exI [of _ r2] exI [of _ k] exI [of _ n2] exI [of _ c]) auto
    qed
  qed
qed simp

lemma deliver_count: "deliver cb ctx cnt recs = (None, ctx', v) \<Longrightarrow> cnt \<le> v"
  by (induction cb ctx cnt recs rule: deliver.induct) (fastforce split: prod.splits if_splits)+

lemma final_not_busy:
  assumes "rec_final log r k" "length (snd (log k)) < 2 ^ 30"
  shows "\<not> rec_busy log r k"
  using assms hdr_parts(1) [OF assms(2)] by (simp add: rec_final_def rec_busy_def)

section \<open>Properties\<close>

text \<open>
  C30. Consuming a ring comes back, however the producer interleaves with it, as long as it reserves
  finitely many records: nothing is read outside the mapped pages, and the callback is handed the
  records behind the consumer position that are not discarded, each once, in order and whole. Unless
  the callback reports an error, which is returned with the consumer position behind the record it was
  given, the number delivered is returned, the consumer stops only where nothing is left or the next
  record is still being written, and it delivers at least all records that were final when it started.
\<close>

theorem ringbuf_delivers:
  assumes K: "producer_ok log N kern" and r: "ring_ok log i n r" "n \<le> N" and fuel: "N - i < fuel"
  shows "\<exists>v t' r' j n'. ringbuf_process_ring kern fuel t r = Some (v, t', r') \<and> i \<le> j \<and> ring_ok log j n' r' \<and>
    (0 \<le> v \<longrightarrow> deliver (r_sample_cb r) (r_ctx r) 0 (map log [i..<j]) = (None, r_ctx r', v) \<and>
       (j = n' \<or> rec_busy log r' j) \<and>
       (\<forall>k \<le> n. (\<forall>q. i \<le> q \<and> q < k \<longrightarrow> rec_final log r q) \<longrightarrow> k \<le> j)) \<and>
    (v < 0 \<longrightarrow> i < j \<and> (\<exists>c. deliver (r_sample_cb r) (r_ctx r) 0 (map log [i..<j]) = (Some v, r_ctx r', c)))"
proof -
  obtain v t' r' j n' c where v: "ringbuf_rounds kern fuel fuel t r (of_nat (rec_pos log i)) 0 = Some (v, t', r')"
    "i \<le> j" "n \<le> n'" "n' \<le> N" "ring_ok log j n' r'" "keeps log j n r r'"
    "deliver (r_sample_cb r) (r_ctx r) 0 (map log [i..<j]) = (None, r_ctx r', v) \<and> (j = n' \<or> rec_busy log r' j) \<or>
     v < 0 \<and> i < j \<and> deliver (r_sample_cb r) (r_ctx r) 0 (map log [i..<j]) = (Some v, r_ctx r', c)"
    using ringbuf_rounds_ok [OF K r fuel fuel, of t 0] by blast
  have run: "ringbuf_process_ring kern fuel t r = Some (v, t', r')"
    using r(1) v(1) by (simp add: ringbuf_process_ring_def ring_ok_def)
  have "k \<le> j" if "j = n' \<or> rec_busy log r' j" "k \<le> n" "\<forall>q. i \<le> q \<and> q < k \<longrightarrow> rec_final log r q" for k
  proof (rule ccontr)
    assume "\<not> k \<le> j"
    then have "j < k" "j \<noteq> n'" "rec_final log r j" using that v(2,3) by auto
    then have "rec_final log r' j" "rec_busy log r' j" using v(6) that by (simp_all add: keeps_def)
    then show False using final_not_busy v(5) by (auto simp: ring_ok_def)
  qed
  note seen = this
  have pos: "deliver (r_sample_cb r) (r_ctx r) 0 (map log [i..<j]) = (None, r_ctx r', v) \<and> (j = n' \<or> rec_busy log r' j)"
    if "0 \<le> v" using v(7) that by auto
  have neg: "i < j \<and> deliver (r_sample_cb r) (r_ctx r) 0 (map log [i..<j]) = (Some v, r_ctx r', c)" if "v < 0"
    using v(7) that deliver_count [of "r_sample_cb r" "r_ctx r" 0 "map log [i..<j]" "r_ctx r'" v] by auto
  show ?thesis
  proof (intro exI conjI impI allI)
    show "ringbuf_process_ring kern fuel t r = Some (v, t', r')" by (rule run)
    show "i \<le> j" "ring_ok log j n' r'" by (fact v)+
  next
    assume "0 \<le> v"
    then show "deliver (r_sample_cb r) (r_ctx r) 0 (map log [i..<j]) = (None, r_ctx r', v)" "j = n' \<or> rec_busy log r' j"
      using pos by simp_all
  next
    fix k assume "0 \<le> v" "k \<le> n" "\<forall>q. i \<le> q \<and> q < k \<longrightarrow> rec_final log r q"
    then show "k \<le> j" using seen pos by simp
  next
    assume "v < 0"
    then show "i < j" "deliver (r_sample_cb r) (r_ctx r) 0 (map log [i..<j]) = (Some v, r_ctx r', c)"
      using neg by simp_all
  qed
qed

text \<open>A producer that writes one record while the consumer looks at an empty ring.\<close>

definition sample_log :: rec_log where
  "sample_log k = (if k = 0 then (False, [65]) else (True, []))"

definition sample_page :: bytes where
  "sample_page = [1, 0, 0, 0, 0, 0, 0, 0, 65, 0, 0, 0, 0, 0, 0, 0]"

definition sample_ring :: "bytes list ring" where
  "sample_ring = \<lparr>r_sample_cb = (\<lambda>ctx sample len. (0, ctx @ [sample])), r_ctx = [], r_data = replicate 16 0,
     r_consumer_pos = Some 0, r_producer_pos = Some 0, r_mask = 15, r_map_fd = 3\<rparr>"

definition sample_producer :: "bytes list producer" where
  "sample_producer t r = (if r_mask r = 15 then r\<lparr>r_producer_pos := Some 16, r_data := sample_page\<rparr> else r)"

lemma sample_log_pos: "rec_pos sample_log 0 = 0" "rec_pos sample_log 1 = 16"
  by (simp_all add: rec_pos_def sample_log_def rec_size_def)

lemma sample_final: "r_data r = sample_page \<Longrightarrow> rec_final sample_log r 0"
  by (simp add: rec_final_def rec_at_def sample_log_pos ring_size_def rec_hdr_def sample_page_def sample_log_def ld32_def ldn_def)

lemma sample_producer_ok: "producer_ok sample_log 1 sample_producer"
  unfolding producer_ok_def
proof (intro allI impI)
  fix t i n and r :: "bytes list ring"
  assume a: "ring_ok sample_log i n r \<and> n \<le> 1"
  let ?r = "sample_producer t r"
  have small: "\<forall>k. length (snd (sample_log k)) < 2 ^ 30" by (simp add: sample_log_def)
  show "\<exists>n' pos data. n \<le> n' \<and> n' \<le> 1 \<and> ?r = r\<lparr>r_producer_pos := pos, r_data := data\<rparr> \<and>
      ring_ok sample_log i n' ?r \<and> (\<forall>k. i \<le> k \<and> k < n \<and> rec_final sample_log r k \<longrightarrow> rec_final sample_log ?r k)"
  proof (cases "r_mask r = 15")
    case False
    then show ?thesis using a
      by (intro exI [of _ n] exI [of _ "r_producer_pos r"] exI [of _ "r_data r"]) (simp add: sample_producer_def)
  next
    case True
    have m: "(15 :: u64) = mask 4" by (simp add: mask_eq_decr_exp)
    have fin: "rec_final sample_log ?r 0" by (rule sample_final) (simp add: sample_producer_def True)
    have ok: "ring_ok sample_log i 1 ?r"
      using a True fin small sample_log_pos
      by (auto simp: ring_ok_def sample_producer_def ring_size_def sample_page_def m intro!: exI [of _ 4])
    have "k = 0" if "k < n" for k using that a by simp
    then have "\<forall>k. i \<le> k \<and> k < n \<and> rec_final sample_log r k \<longrightarrow> rec_final sample_log ?r k" using fin by blast
    moreover have "?r = r\<lparr>r_producer_pos := Some 16, r_data := sample_page\<rparr>" by (simp add: sample_producer_def True)
    ultimately show ?thesis using a ok by blast
  qed
qed

theorem ringbuf_delivers_witness:
  "\<exists>v t' r' j n'. ringbuf_process_ring sample_producer 2 0 sample_ring = Some (v, t', r') \<and> ring_ok sample_log j n' r'"
proof -
  have m: "(15 :: u64) = mask 4" by (simp add: mask_eq_decr_exp)
  have "ring_ok sample_log 0 0 sample_ring"
    using sample_log_pos
    by (auto simp: ring_ok_def sample_ring_def ring_size_def m sample_log_def intro!: exI [of _ 4])
  from ringbuf_delivers [OF sample_producer_ok this, of 2 0] show ?thesis by fastforce
qed

end
