(* ===== verification/Ringbuf_Mapping.thy ===== *)
theory Ringbuf_Mapping
  imports Ringbuf "HOL-Library.Multiset"
begin

text \<open>
  The pages a ring buffer manager maps are unmapped again, with the lengths they were mapped with, when
  the sizes of the rings do not overflow the sum the library computes.
\<close>

fun mapped :: "ring_event \<Rightarrow> (region \<times> u64) list" where
  "mapped (Mmap reg len) = [(reg, len)]"
| "mapped e = []"

fun unmapped :: "ring_event \<Rightarrow> (region \<times> u64) list" where
  "unmapped (Munmap reg len) = [(reg, len)]"
| "unmapped e = []"

definition all_mapped :: "ring_event list \<Rightarrow> (region \<times> u64) multiset" where
  "all_mapped ev = mset (concat (map mapped ev))"

definition all_unmapped :: "ring_event list \<Rightarrow> (region \<times> u64) multiset" where
  "all_unmapped ev = mset (concat (map unmapped ev))"

lemma all_events_simps [simp]:
  "all_mapped [] = {#}" "all_unmapped [] = {#}"
  "all_mapped (e # ev) = mset (mapped e) + all_mapped ev" "all_unmapped (e # ev) = mset (unmapped e) + all_unmapped ev"
  "all_mapped (ev @ ev') = all_mapped ev + all_mapped ev'" "all_unmapped (ev @ ev') = all_unmapped ev + all_unmapped ev'"
  by (simp_all add: all_mapped_def all_unmapped_def)

text \<open>Sizes of rings as the kernel makes them, and small enough for the doubling of a \<open>__u32\<close>.\<close>

definition sizes_ok :: "ring_sys \<Rightarrow> bool" where
  "sizes_ok sys \<longleftrightarrow> (\<forall>fd type n. sys_info sys fd = Inr (type, n) \<longrightarrow> 0 < n \<and> n < 0x80000000)"

lemma unmap_length:
  assumes "0 < n" "n < (0x80000000 :: u32)"
  shows "page_size + 2 * (ucast (n - 1) + 1) = mmap_size page_size n"
proof -
  have n: "0 < unat n" "unat n < 2 ^ 31" using assms by (simp_all add: word_less_nat_alt)
  have "unat (n - 1) = unat n - 1" using assms(1) by (simp add: unat_minus_one)
  then have "unat (ucast (n - 1) + 1 :: u64) = unat (ucast n :: u64)"
    using n by (simp add: unat_word_ariths unsigned_ucast_eq take_bit_nat_eq_self)
  then have e: "ucast (n - 1) + 1 = (ucast n :: u64)" by (simp only: word_unat_eq_iff)
  have "unat (2 * ucast n :: u64) = 2 * unat n" "unat (ucast (2 * n) :: u64) = 2 * unat n"
    using n by (simp_all add: unsigned_ucast_eq take_bit_nat_eq_self unat_word_ariths)
  then have "2 * ucast n = (ucast (2 * n) :: u64)" by (simp only: word_unat_eq_iff)
  then show ?thesis unfolding e by (simp add: mmap_size_def)
qed

text \<open>The ring of \<open>2 ^ 31\<close> bytes maps no data pages at all and unmaps four gigabytes.\<close>

lemma unmap_too_much: "mmap_size page_size 0x80000000 = page_size"
  "page_size + 2 * (ucast (0x80000000 - 1 :: u32) + 1 :: u64) = page_size + 2 ^ 32"
  by (simp_all add: mmap_size_def)

definition ring_unmaps :: "u64 \<Rightarrow> 'c ring \<Rightarrow> (region \<times> u64) multiset" where
  "ring_unmaps page_size r = all_unmapped (snd (ringbuf_unmap_ring page_size r))"

definition held :: "'c ring_buffer \<Rightarrow> (region \<times> u64) multiset" where
  "held rb = (\<Sum>r \<leftarrow> take (rb_ring_cnt rb) (rb_rings rb). ring_unmaps (rb_page_size rb) r)"

lemma ring_unmaps_both:
  "r_consumer_pos r = Some a \<Longrightarrow> r_producer_pos r = Some b \<Longrightarrow> ring_unmaps page_size r =
     {#(Consumer_page (r_map_fd r), page_size), (Producer_pages (r_map_fd r), page_size + 2 * (r_mask r + 1))#}"
  "r_consumer_pos r = Some a \<Longrightarrow> r_producer_pos r = None \<Longrightarrow> ring_unmaps page_size r =
     {#(Consumer_page (r_map_fd r), page_size)#}"
  by (simp_all add: ring_unmaps_def ringbuf_unmap_ring_def)

lemma unmap_maps_nothing: "all_mapped (snd (ringbuf_unmap_ring page_size r)) = {#}"
  by (simp add: ringbuf_unmap_ring_def Let_def)

lemma free_unmaps_held: "all_unmapped (ring_buffer_free (Some rb)) = held rb" "all_mapped (ring_buffer_free (Some rb)) = {#}"
proof -
  have "all_unmapped (concat (map (\<lambda>r. snd (ringbuf_unmap_ring p r)) rs)) = (\<Sum>r \<leftarrow> rs. ring_unmaps p r)"
    "all_mapped (concat (map (\<lambda>r. snd (ringbuf_unmap_ring p r)) rs)) = {#}" for p and rs :: "'a ring list"
    by (induction rs) (simp_all add: ring_unmaps_def unmap_maps_nothing)
  then show "all_unmapped (ring_buffer_free (Some rb)) = held rb" "all_mapped (ring_buffer_free (Some rb)) = {#}"
    by (simp_all add: ring_buffer_free_def held_def)
qed

text \<open>An added ring is held with the lengths it was mapped with; a failed addition unmaps what it mapped.\<close>

lemma add_balanced:
  assumes "sizes_ok sys" "rb_ring_cnt rb = length (rb_rings rb)" "ring_buffer_add sys rb fd cb ctx = (err, rb', ev)"
  shows "held rb + all_mapped ev = held rb' + all_unmapped ev \<and> rb_ring_cnt rb' = length (rb_rings rb') \<and>
    rb_page_size rb' = rb_page_size rb"
proof (cases "sys_info sys fd")
  case (Inl e)
  then show ?thesis using assms(2,3) by (simp add: ring_buffer_add_def)
next
  case (Inr p)
  obtain type n where p: "p = (type, n)" by (cases p)
  have len: "rb_page_size rb + 2 * (ucast (n - 1) + 1) = mmap_size (rb_page_size rb) n"
    using assms(1) Inr p by (intro unmap_length) (auto simp: sizes_ok_def)
  show ?thesis
    using assms(2,3) Inr p len
    by (auto simp: ring_buffer_add_def held_def ring_unmaps_def [symmetric] ring_unmaps_both unmap_maps_nothing
        Let_def distrib_left split: if_splits sum.splits prod.splits)
qed

fun ring_adds :: "ring_sys \<Rightarrow> 'c ring_buffer \<Rightarrow> (int \<times> ('c \<Rightarrow> bytes \<Rightarrow> u64 \<Rightarrow> int \<times> 'c) \<times> 'c) list \<Rightarrow>
    'c ring_buffer \<times> ring_event list" where
  "ring_adds sys rb [] = (rb, [])"
| "ring_adds sys rb ((fd, cb, ctx) # adds) =
     (case ring_buffer_add sys rb fd cb ctx of (err, rb, ev) \<Rightarrow>
        case ring_adds sys rb adds of (rb, ev') \<Rightarrow> (rb, ev @ ev'))"

lemma multiset_exchange:
  assumes "h + m1 = h1 + u1" "h1 + m2 = h2 + u2"
  shows "h + (m1 + m2) = h2 + (u1 + (u2 :: 'a multiset))"
proof -
  have "h + (m1 + m2) = (h1 + u1) + m2" using assms(1) by (simp add: add.assoc [symmetric])
  also have "\<dots> = (h1 + m2) + u1" by (simp add: ac_simps)
  also have "\<dots> = h2 + (u1 + u2)" using assms(2) by (simp add: ac_simps)
  finally show ?thesis .
qed

lemma adds_balanced:
  "sizes_ok sys \<Longrightarrow> rb_ring_cnt rb = length (rb_rings rb) \<Longrightarrow> ring_adds sys rb adds = (rb', ev) \<Longrightarrow>
    held rb + all_mapped ev = held rb' + all_unmapped ev"
proof (induction adds arbitrary: rb ev)
  case (Cons a adds)
  obtain fd cb ctx where a: "a = (fd, cb, ctx)" by (cases a)
  obtain err rb1 ev1 where s: "ring_buffer_add sys rb fd cb ctx = (err, rb1, ev1)" by (cases "ring_buffer_add sys rb fd cb ctx")
  obtain ev2 where t: "ring_adds sys rb1 adds = (rb', ev2)" "ev = ev1 @ ev2"
    using Cons.prems(3) a s by (auto split: prod.splits)
  have "held rb + all_mapped ev1 = held rb1 + all_unmapped ev1" "rb_ring_cnt rb1 = length (rb_rings rb1)"
    using add_balanced [OF Cons.prems(1,2) s] by simp_all
  moreover have "held rb1 + all_mapped ev2 = held rb' + all_unmapped ev2"
    using Cons.IH [OF Cons.prems(1) _ t(1)] calculation(2) by simp
  ultimately show ?case using t(2) multiset_exchange by simp
qed simp

text \<open>
  C31. What a ring buffer manager maps is unmapped again, page by page with the length it was mapped
  with: when the manager cannot be made, and when it is freed after any number of additions, failed
  ones included, as long as no ring is empty or has two gigabytes or more.
\<close>

theorem ring_mappings_balanced:
  assumes "sizes_ok sys" "ring_buffer_new sys fd cb ctx opts = Some (r, ev)"
  shows "case r of
      Inl err \<Rightarrow> all_mapped ev = all_unmapped ev
    | Inr rb \<Rightarrow> (case ring_adds sys rb adds of (rb', ev') \<Rightarrow>
        all_mapped (ev @ ev' @ ring_buffer_free (Some rb')) = all_unmapped (ev @ ev' @ ring_buffer_free (Some rb')))"
proof -
  let ?rb = "\<lparr>rb_events = [], rb_rings = [], rb_page_size = sys_page_size sys, rb_epoll_fd = sys_epoll_create sys,
    rb_ring_cnt = 0\<rparr> :: 'a ring_buffer"
  have empty: "held ?rb = {#}" "rb_ring_cnt ?rb = length (rb_rings ?rb)" by (simp_all add: held_def)
  obtain err rb1 ev1 where a: "ring_buffer_add sys ?rb fd cb ctx = (err, rb1, ev1)"
    by (cases "ring_buffer_add sys ?rb fd cb ctx")
  have b: "all_mapped ev1 = held rb1 + all_unmapped ev1" "rb_ring_cnt rb1 = length (rb_rings rb1)"
    using add_balanced [OF assms(1) empty(2) a] empty(1) by simp_all
  have new: "r = Inl EINVAL \<and> ev = [] \<or> r = Inl ENOMEM \<and> ev = [] \<or> (\<exists>e. r = Inl e \<and> ev = ring_buffer_free (Some ?rb)) \<or>
      (\<exists>e. r = Inl e \<and> ev = ev1 @ ring_buffer_free (Some rb1)) \<or> r = Inr rb1 \<and> ev = ev1"
    using assms(2) a by (auto simp: ring_buffer_new_def Let_def bind_eq_Some_conv split: if_splits)
  have final: "all_mapped (ev1 @ ev' @ ring_buffer_free (Some rb')) = all_unmapped (ev1 @ ev' @ ring_buffer_free (Some rb'))"
    if "ring_adds sys rb1 adds = (rb', ev')" for rb' ev'
    using adds_balanced [OF assms(1) b(2) that] b(1) by (simp add: free_unmaps_held ac_simps)
  show ?thesis
    using new empty(1) b(1) final by (auto simp: free_unmaps_held split: prod.splits)
qed

definition sample_sys :: ring_sys where
  "sample_sys = \<lparr>sys_info = (\<lambda>fd. Inr (BPF_MAP_TYPE_RINGBUF, 4096)), sys_mmap_consumer = (\<lambda>fd len. Inr 0),
     sys_mmap_producer = (\<lambda>fd len. if fd = 5 then Inl (- ENOMEM) else Inr (0, replicate 4096 0)),
     sys_epoll_add = (\<lambda>ep fd. 0), sys_epoll_create = 7, sys_page_size = 4096, sys_realloc_rings = True,
     sys_realloc_events = True, sys_calloc = True\<rparr>"

theorem ring_mappings_balanced_witness:
  "\<exists>rb ev. ring_buffer_new sample_sys 3 (\<lambda>ctx sample len. (0, ctx)) () None = Some (Inr rb, ev) \<and>
    all_mapped ev = {#(Consumer_page 3, 4096), (Producer_pages 3, 12288)#} \<and>
    (case ring_adds sample_sys rb [(5, \<lambda>ctx sample len. (0, ctx), ())] of (rb', ev') \<Rightarrow>
      all_mapped (ev @ ev' @ ring_buffer_free (Some rb')) = all_unmapped (ev @ ev' @ ring_buffer_free (Some rb')))"
proof -
  have ok: "sizes_ok sample_sys" by (auto simp: sizes_ok_def sample_sys_def)
  obtain rb ev where new: "ring_buffer_new sample_sys 3 (\<lambda>ctx sample len. (0, ctx)) () None = Some (Inr rb, ev)"
    "all_mapped ev = {#(Consumer_page 3, 4096), (Producer_pages 3, 12288)#}"
    by (auto simp: ring_buffer_new_def OPTS_VALID_def ring_buffer_add_def sample_sys_def mmap_size_def Let_def)
  from ring_mappings_balanced [OF ok new(1), of "[(5, \<lambda>ctx sample len. (0, ctx), ())]"] new show ?thesis by auto
qed

end
