(* ===== verification/Core_Types.thy ===== *)
theory Core_Types
  imports Btf_Query
begin

text \<open>
  What CO-RE relocation asks of types (\<open>libbpf.c\<close>): the type behind modifiers and typedefs, names
  without their flavor, the compatibility of two types and the search for candidate types.

  A name is read as a whole where its address is taken; the inner \<open>None\<close> is the null pointer. As in
  the other theories the outer \<open>None\<close> is an access outside an object, here also the use of a null
  pointer, and for the loops that have no bound it is also that they do not end.
\<close>

section \<open>Types behind modifiers\<close>

text \<open>\<open>t\<close> is the type at hand; a null pointer is followed by the conditions of the loop already.\<close>

partial_function (option) skip_mods_loop :: "btf list \<Rightarrow> u32 \<Rightarrow> btf_ptr option \<Rightarrow> (btf_ptr \<times> u32) option" where
  "skip_mods_loop bs res_id t = do {
     t \<leftarrow> t;
     is_mod \<leftarrow> btf_is_mod t;
     is_typedef \<leftarrow> btf_is_typedef t;
     if is_mod \<or> is_typedef then do {
       type \<leftarrow> t_type t;
       t \<leftarrow> btf__type_by_id bs type;
       skip_mods_loop bs type t
     }
     else Some (t, res_id)
   }"

declare skip_mods_loop.simps [code]

definition skip_mods_and_typedefs :: "btf list \<Rightarrow> u32 \<Rightarrow> (btf_ptr \<times> u32) option" where
  "skip_mods_and_typedefs bs i = do {
     t \<leftarrow> btf__type_by_id bs i;
     skip_mods_loop bs i t
   }"

definition kind_str :: "u16 \<Rightarrow> char list" where
  "kind_str kind =
     (if kind = BTF_KIND_UNKN then ''void'' else if kind = BTF_KIND_INT then ''int''
      else if kind = BTF_KIND_PTR then ''ptr'' else if kind = BTF_KIND_ARRAY then ''array''
      else if kind = BTF_KIND_STRUCT then ''struct'' else if kind = BTF_KIND_UNION then ''union''
      else if kind = BTF_KIND_ENUM then ''enum'' else if kind = BTF_KIND_FWD then ''fwd''
      else if kind = BTF_KIND_TYPEDEF then ''typedef'' else if kind = BTF_KIND_VOLATILE then ''volatile''
      else if kind = BTF_KIND_CONST then ''const'' else if kind = BTF_KIND_RESTRICT then ''restrict''
      else if kind = BTF_KIND_FUNC then ''func'' else if kind = BTF_KIND_FUNC_PROTO then ''func_proto''
      else if kind = BTF_KIND_VAR then ''var'' else if kind = BTF_KIND_DATASEC then ''datasec''
      else if kind = BTF_KIND_FLOAT then ''float'' else ''unknown'')"

definition btf_kind_str :: "btf_ptr \<Rightarrow> bytes option" where
  "btf_kind_str t = map_option (\<lambda>kind. chars (kind_str kind)) (btf_kind t)"

section \<open>Names\<close>

definition name_at :: "btf list \<Rightarrow> u32 \<Rightarrow> bytes option option" where
  "name_at bs off = do {
     p \<leftarrow> btf__name_by_offset bs off;
     (case p of None \<Rightarrow> Some None | Some p \<Rightarrow> map_option Some (c_str p))
   }"

definition str_is_empty :: "bytes option \<Rightarrow> bool" where
  "str_is_empty s \<longleftrightarrow> s = None \<or> s = Some []"

text \<open>\<open>strncmp(a, b, n) == 0\<close>, the terminating zeroes included.\<close>

definition strncmp_eq :: "bytes \<Rightarrow> bytes \<Rightarrow> nat \<Rightarrow> bool" where
  "strncmp_eq a b n \<longleftrightarrow> take n (a @ [0]) = take n (b @ [0])"

abbreviation (input) underscore :: u8 where "underscore \<equiv> 0x5f"

definition bpf_core_is_flavor_sep :: "bytes \<Rightarrow> bool" where
  "bpf_core_is_flavor_sep s \<longleftrightarrow>
     s ! 0 \<noteq> underscore \<and> s ! 1 = underscore \<and> s ! 2 = underscore \<and> s ! 3 = underscore \<and> s ! 4 \<noteq> underscore"

text \<open>The loop counts \<open>i\<close> down from \<open>n - 5\<close>; the argument is \<open>i + 1\<close>.\<close>

fun essential_loop :: "bytes \<Rightarrow> nat \<Rightarrow> nat" where
  "essential_loop name 0 = length name"
| "essential_loop name (Suc i) =
     (if bpf_core_is_flavor_sep (drop i name) then i + 1 else essential_loop name i)"

definition bpf_core_essential_name_len :: "bytes \<Rightarrow> nat" where
  "bpf_core_essential_name_len name = essential_loop name (length name - 4)"

section \<open>Compatible types\<close>

text \<open>
  The jump to \<open>recur\<close> lowers \<open>depth\<close>, the calls for parameters start with a depth of their own and
  are not bounded: \<open>n\<close> is the fuel for all steps, and \<open>None\<close> also says that it was not enough.
\<close>

text \<open>The function up to the label, which goes on with \<open>recur\<close>, and the loop over the parameters.\<close>

definition roots_compat :: "(u32 \<Rightarrow> u32 \<Rightarrow> int option) \<Rightarrow> btf list \<Rightarrow> u32 \<Rightarrow> btf list \<Rightarrow> u32 \<Rightarrow> int option" where
  "roots_compat recur local_btf local_id targ_btf targ_id = do {
     local_type \<leftarrow> the_type local_btf local_id;
     targ_type \<leftarrow> the_type targ_btf targ_id;
     local_kind \<leftarrow> btf_kind local_type;
     targ_kind \<leftarrow> btf_kind targ_type;
     if local_kind \<noteq> targ_kind then Some 0 else recur local_id targ_id
   }"

primrec params_compat :: "(u32 \<Rightarrow> u32 \<Rightarrow> int option) \<Rightarrow> btf list \<Rightarrow> btf_ptr \<Rightarrow> btf list \<Rightarrow> btf_ptr \<Rightarrow> nat list \<Rightarrow> int option" where
  "params_compat types_are_compat local_btf local_type targ_btf targ_type [] = Some 1"
| "params_compat types_are_compat local_btf local_type targ_btf targ_type (i # is) = do {
     local_p \<leftarrow> btf_params local_type i;
     targ_p \<leftarrow> btf_params targ_type i;
     (_, local_id) \<leftarrow> skip_mods_and_typedefs local_btf (pa_type local_p);
     (_, targ_id) \<leftarrow> skip_mods_and_typedefs targ_btf (pa_type targ_p);
     err \<leftarrow> types_are_compat local_id targ_id;
     if err \<le> 0 then Some err
     else params_compat types_are_compat local_btf local_type targ_btf targ_type is
   }"

primrec types_compat_recur :: "nat \<Rightarrow> btf list \<Rightarrow> btf list \<Rightarrow> nat \<Rightarrow> u32 \<Rightarrow> u32 \<Rightarrow> int option" where
  "types_compat_recur 0 local_btf targ_btf depth local_id targ_id = None"
| "types_compat_recur (Suc n) local_btf targ_btf depth local_id targ_id =
     (if depth = 0 then Some (- EINVAL)
      else do {
        let depth = depth - 1;
        (local_type, local_id) \<leftarrow> skip_mods_and_typedefs local_btf local_id;
        (targ_type, targ_id) \<leftarrow> skip_mods_and_typedefs targ_btf targ_id;
        local_kind \<leftarrow> btf_kind local_type;
        targ_kind \<leftarrow> btf_kind targ_type;
        if local_kind \<noteq> targ_kind then Some 0
        else if local_kind \<in> {BTF_KIND_UNKN, BTF_KIND_STRUCT, BTF_KIND_UNION, BTF_KIND_ENUM, BTF_KIND_FWD} then Some 1
        else if local_kind = BTF_KIND_INT then do {
          local_off \<leftarrow> btf_int_offset local_type;
          if local_off \<noteq> 0 then Some 0
          else do {
            targ_off \<leftarrow> btf_int_offset targ_type;
            Some (if targ_off = 0 then 1 else 0)
          }
        }
        else if local_kind = BTF_KIND_PTR then do {
          local_id \<leftarrow> t_type local_type;
          targ_id \<leftarrow> t_type targ_type;
          types_compat_recur n local_btf targ_btf depth local_id targ_id
        }
        else if local_kind = BTF_KIND_ARRAY then do {
          local_arr \<leftarrow> btf_array local_type;
          targ_arr \<leftarrow> btf_array targ_type;
          types_compat_recur n local_btf targ_btf depth (ar_type local_arr) (ar_type targ_arr)
        }
        else if local_kind = BTF_KIND_FUNC_PROTO then do {
          local_vlen \<leftarrow> btf_vlen local_type;
          targ_vlen \<leftarrow> btf_vlen targ_type;
          if local_vlen \<noteq> targ_vlen then Some 0
          else do {
            err \<leftarrow> params_compat
              (\<lambda>l t. roots_compat (types_compat_recur n local_btf targ_btf 32) local_btf l targ_btf t)
              local_btf local_type targ_btf targ_type [0 ..< unat local_vlen];
            if err \<le> 0 then Some err
            else do {
              local_ret \<leftarrow> t_type local_type;
              targ_ret \<leftarrow> t_type targ_type;
              (_, local_id) \<leftarrow> skip_mods_and_typedefs local_btf local_ret;
              (_, targ_id) \<leftarrow> skip_mods_and_typedefs targ_btf targ_ret;
              types_compat_recur n local_btf targ_btf depth local_id targ_id
            }
          }
        }
        else Some 0
      })"

definition bpf_core_types_are_compat :: "nat \<Rightarrow> btf list \<Rightarrow> u32 \<Rightarrow> btf list \<Rightarrow> u32 \<Rightarrow> int option" where
  "bpf_core_types_are_compat n local_btf local_id targ_btf targ_id =
     roots_compat (types_compat_recur n local_btf targ_btf 32) local_btf local_id targ_btf targ_id"

section \<open>Candidates\<close>

record bpf_core_cand =
  cand_btf :: "btf list"
  cand_t :: btf_ptr
  cand_name :: bytes
  cand_id :: u32

text \<open>The search adds to the candidates found so far; \<open>al n\<close> says whether the array can hold \<open>n\<close>.\<close>

primrec add_cands_loop :: "(nat \<Rightarrow> bool) \<Rightarrow> bpf_core_cand \<Rightarrow> nat \<Rightarrow> btf list \<Rightarrow> u32 list \<Rightarrow> bpf_core_cand list \<Rightarrow>
    (int \<times> bpf_core_cand list) option" where
  "add_cands_loop al local_cand local_essent_len targ_btf [] cands = Some (0, cands)"
| "add_cands_loop al local_cand local_essent_len targ_btf (i # is) cands = do {
     t \<leftarrow> the_type targ_btf i;
     kind \<leftarrow> btf_kind t;
     local_kind \<leftarrow> btf_kind (cand_t local_cand);
     if kind \<noteq> local_kind then add_cands_loop al local_cand local_essent_len targ_btf is cands
     else do {
       name_off \<leftarrow> t_name_off t;
       targ_name \<leftarrow> name_at targ_btf name_off;
       (case targ_name of
          None \<Rightarrow> add_cands_loop al local_cand local_essent_len targ_btf is cands
        | Some name \<Rightarrow>
            if name = [] then add_cands_loop al local_cand local_essent_len targ_btf is cands
            else if bpf_core_essential_name_len name \<noteq> local_essent_len then
              add_cands_loop al local_cand local_essent_len targ_btf is cands
            else if \<not> strncmp_eq (cand_name local_cand) name local_essent_len then
              add_cands_loop al local_cand local_essent_len targ_btf is cands
            else if \<not> al (length cands + 1) then Some (- ENOMEM, cands)
            else add_cands_loop al local_cand local_essent_len targ_btf is
              (cands @ [\<lparr>cand_btf = targ_btf, cand_t = t, cand_name = name, cand_id = i\<rparr>]))
     }
   }"

definition bpf_core_add_cands :: "(nat \<Rightarrow> bool) \<Rightarrow> bpf_core_cand \<Rightarrow> nat \<Rightarrow> btf list \<Rightarrow> u32 \<Rightarrow>
    bpf_core_cand list \<Rightarrow> (int \<times> bpf_core_cand list) option" where
  "bpf_core_add_cands al local_cand local_essent_len targ_btf targ_start_id cands =
     (case targ_btf of
        [] \<Rightarrow> None
      | btf # base \<Rightarrow> add_cands_loop al local_cand local_essent_len targ_btf
          (map of_nat [unat targ_start_id ..< unat (btf__get_nr_types btf) + 1]) cands)"

text \<open>
  The objects to search: an override of the kernel's BTF, the kernel's, and what
  \<open>load_module_btfs\<close> returns, which asks the kernel for the BTF of its modules.
\<close>

record btf_sources =
  btf_vmlinux_override :: "btf list option"
  btf_vmlinux :: "btf list"
  module_btfs :: "int \<times> btf list list"

primrec add_module_cands :: "(nat \<Rightarrow> bool) \<Rightarrow> bpf_core_cand \<Rightarrow> nat \<Rightarrow> btf list list \<Rightarrow> u32 \<Rightarrow> bpf_core_cand list \<Rightarrow>
    (int \<times> bpf_core_cand list) option" where
  "add_module_cands al local_cand local_essent_len [] start_id cands = Some (0, cands)"
| "add_module_cands al local_cand local_essent_len (targ_btf # modules) start_id cands = do {
     (err, cands) \<leftarrow> bpf_core_add_cands al local_cand local_essent_len targ_btf start_id cands;
     if err \<noteq> 0 then Some (err, cands)
     else add_module_cands al local_cand local_essent_len modules start_id cands
   }"

definition bpf_core_find_cands :: "bool \<Rightarrow> (nat \<Rightarrow> bool) \<Rightarrow> btf_sources \<Rightarrow> btf list \<Rightarrow> u32 \<Rightarrow>
    (int + bpf_core_cand list) option" where
  "bpf_core_find_cands al_list al obj local_btf local_type_id = do {
     t \<leftarrow> btf__type_by_id local_btf local_type_id;
     (case t of
        None \<Rightarrow> Some (Inl (- EINVAL))
      | Some t \<Rightarrow> do {
          name_off \<leftarrow> t_name_off t;
          name \<leftarrow> name_at local_btf name_off;
          if str_is_empty name then Some (Inl (- EINVAL))
          else do {
            name \<leftarrow> name;
            let local_cand = \<lparr>cand_btf = local_btf, cand_t = t, cand_name = name, cand_id = 0\<rparr>;
            let local_essent_len = bpf_core_essential_name_len name;
            if \<not> al_list then Some (Inl (- ENOMEM))
            else do {
              let main_btf = (case btf_vmlinux_override obj of Some bs \<Rightarrow> bs | None \<Rightarrow> btf_vmlinux obj);
              (err, cands) \<leftarrow> bpf_core_add_cands al local_cand local_essent_len main_btf 1 [];
              if err \<noteq> 0 then Some (Inl err)
              else if cands \<noteq> [] then Some (Inr cands)
              else if btf_vmlinux_override obj \<noteq> None then Some (Inr cands)
              else do {
                let (err, modules) = module_btfs obj;
                if err \<noteq> 0 then Some (Inl err)
                else do {
                  vmlinux \<leftarrow> (case btf_vmlinux obj of [] \<Rightarrow> None | btf # base \<Rightarrow> Some btf);
                  (err, cands) \<leftarrow> add_module_cands al local_cand local_essent_len modules
                    (btf__get_nr_types vmlinux + 1) cands;
                  Some (if err \<noteq> 0 then Inl err else Inr cands)
                }
              }
            }
          }
        })
   }"

end
