(* ===== verification/Relo_Core.thy ===== *)
theory Relo_Core
  imports Core_Types
begin

text \<open>
  CO-RE relocation, \<open>relo_core.c\<close>: access strings, specs and their matching against target types,
  the values of a relocation. A spec keeps its arrays as lists of the used length; the warnings are
  left out. \<open>btf__resolve_size\<close> fills in the pointer size of the object it is given when it is called
  first; the size it returns then is the one it returns later, so only the size is kept here.
\<close>

section \<open>Specs\<close>

abbreviation (input) BPF_CORE_SPEC_MAX_LEN :: nat where "BPF_CORE_SPEC_MAX_LEN \<equiv> 64"

text \<open>The last constructor stands for the values of the enum's type that have no name.\<close>

datatype bpf_core_relo_kind =
  BPF_FIELD_BYTE_OFFSET | BPF_FIELD_BYTE_SIZE | BPF_FIELD_EXISTS | BPF_FIELD_SIGNED
| BPF_FIELD_LSHIFT_U64 | BPF_FIELD_RSHIFT_U64 | BPF_TYPE_ID_LOCAL | BPF_TYPE_ID_TARGET
| BPF_TYPE_EXISTS | BPF_TYPE_SIZE | BPF_ENUMVAL_EXISTS | BPF_ENUMVAL_VALUE | Other_kind u32

record bpf_core_relo =
  r_insn_off :: u32
  r_type_id :: u32
  r_access_str_off :: u32
  r_kind :: bpf_core_relo_kind

record bpf_core_accessor =
  acc_type_id :: u32
  acc_idx :: u32
  acc_name :: "bytes option"

record bpf_core_spec =
  sp_btf :: "btf list"
  sp_spec :: "bpf_core_accessor list"
  sp_root_type_id :: u32
  sp_relo_kind :: bpf_core_relo_kind
  sp_raw_spec :: "int list"
  sp_bit_offset :: u32

abbreviation push_acc :: "bpf_core_accessor \<Rightarrow> bpf_core_spec \<Rightarrow> bpf_core_spec" where
  "push_acc acc spec \<equiv> spec\<lparr>sp_spec := sp_spec spec @ [acc]\<rparr>"

abbreviation add_bits :: "u32 \<Rightarrow> bpf_core_spec \<Rightarrow> bpf_core_spec" where
  "add_bits n spec \<equiv> spec\<lparr>sp_bit_offset := sp_bit_offset spec + n\<rparr>"

abbreviation push_raw :: "int \<Rightarrow> bpf_core_spec \<Rightarrow> bpf_core_spec" where
  "push_raw i spec \<equiv> spec\<lparr>sp_raw_spec := sp_raw_spec spec @ [i]\<rparr>"

definition empty_spec :: "btf list \<Rightarrow> u32 \<Rightarrow> bpf_core_relo_kind \<Rightarrow> bpf_core_spec" where
  "empty_spec bs type_id relo_kind = \<lparr>sp_btf = bs, sp_spec = [], sp_root_type_id = type_id,
     sp_relo_kind = relo_kind, sp_raw_spec = [], sp_bit_offset = 0\<rparr>"

definition is_flex_arr :: "btf list \<Rightarrow> bpf_core_accessor \<Rightarrow> btf_array_s \<Rightarrow> bool option" where
  "is_flex_arr bs acc arr =
     (if acc_name acc = None \<or> ar_nelems arr > 0 then Some False
      else do {
        t \<leftarrow> the_type bs (acc_type_id acc);
        vlen \<leftarrow> btf_vlen t;
        Some (acc_idx acc = ucast vlen - 1)
      })"

definition core_relo_is_field_based :: "bpf_core_relo_kind \<Rightarrow> bool" where
  "core_relo_is_field_based kind \<longleftrightarrow> kind \<in> {BPF_FIELD_BYTE_OFFSET, BPF_FIELD_BYTE_SIZE, BPF_FIELD_EXISTS,
     BPF_FIELD_SIGNED, BPF_FIELD_LSHIFT_U64, BPF_FIELD_RSHIFT_U64}"

definition core_relo_is_type_based :: "bpf_core_relo_kind \<Rightarrow> bool" where
  "core_relo_is_type_based kind \<longleftrightarrow>
     kind \<in> {BPF_TYPE_ID_LOCAL, BPF_TYPE_ID_TARGET, BPF_TYPE_EXISTS, BPF_TYPE_SIZE}"

definition core_relo_is_enumval_based :: "bpf_core_relo_kind \<Rightarrow> bool" where
  "core_relo_is_enumval_based kind \<longleftrightarrow> kind \<in> {BPF_ENUMVAL_EXISTS, BPF_ENUMVAL_VALUE}"

definition size_of :: "btf list \<Rightarrow> u32 \<Rightarrow> int option" where
  "size_of bs type_id = map_option fst (btf__resolve_size bs type_id)"

text \<open>A pointer to a type moved by a signed number of bytes.\<close>

fun ptr_add :: "btf_ptr \<Rightarrow> int \<Rightarrow> btf_ptr option" where
  "ptr_add Btf_void d = (if d = 0 then Some Btf_void else None)"
| "ptr_add (Btf_at m p) d = (if 0 \<le> int p + d then Some (Btf_at m (nat (int p + d))) else None)"

section \<open>Access strings\<close>

text \<open>
  \<open>sscanf(s, "%d%n", ...)\<close>: the number and the rest of the string, \<open>None\<close> when there is no number.
  A number that no \<open>int\<close> can hold has no defined result in C.
\<close>

definition is_space :: "u8 \<Rightarrow> bool" where
  "is_space c \<longleftrightarrow> c = 0x20 \<or> 9 \<le> c \<and> c \<le> 13"

definition is_digit :: "u8 \<Rightarrow> bool" where
  "is_digit c \<longleftrightarrow> 0x30 \<le> c \<and> c \<le> 0x39"

definition decimal :: "bytes \<Rightarrow> int" where
  "decimal = foldl (\<lambda>v c. 10 * v + (uint c - 0x30)) 0"

definition scan_d :: "bytes \<Rightarrow> (int \<times> bytes) option" where
  "scan_d s =
     (let s = dropWhile is_space s;
          neg = (s \<noteq> [] \<and> hd s = 0x2d);
          s = (if s \<noteq> [] \<and> hd s \<in> {0x2b, 0x2d} then tl s else s);
          ds = takeWhile is_digit s
      in if ds = [] then None
         else Some (if neg then - decimal ds else decimal ds, dropWhile is_digit s))"

lemma length_scan_d: "scan_d s = Some (v, rest) \<Longrightarrow> length rest < length s"
proof -
  define s1 where "s1 = dropWhile is_space s"
  define s2 where "s2 = (if s1 \<noteq> [] \<and> hd s1 \<in> {0x2b, 0x2d} then tl s1 else s1)"
  assume "scan_d s = Some (v, rest)"
  then have "takeWhile is_digit s2 \<noteq> []" "rest = dropWhile is_digit s2"
    by (auto simp: scan_d_def s1_def s2_def Let_def split: if_splits)
  then have "length rest < length s2"
    by (metis takeWhile_dropWhile_id length_append length_greater_0_conv less_add_same_cancel2)
  also have "length s2 \<le> length s1" by (simp add: s2_def)
  also have "length s1 \<le> length s" by (simp add: s1_def length_dropWhile_le)
  finally show ?thesis .
qed

abbreviation (input) colon :: u8 where "colon \<equiv> 0x3a"

text \<open>The loop over the string; the early returns are \<open>Inl\<close>.\<close>

function parse_raw_spec :: "bytes \<Rightarrow> int list \<Rightarrow> (int + int list) option" where
  "parse_raw_spec spec_str raw_spec =
     (if spec_str = [] then Some (Inr raw_spec)
      else case scan_d (if hd spec_str = colon then tl spec_str else spec_str) of
        None \<Rightarrow> Some (Inl (- EINVAL))
      | Some (access_idx, rest) \<Rightarrow>
          if access_idx < - (2 ^ 31) \<or> 2 ^ 31 \<le> access_idx then None
          else if length raw_spec = BPF_CORE_SPEC_MAX_LEN then Some (Inl (- E2BIG))
          else parse_raw_spec rest (raw_spec @ [access_idx]))"
  by pat_completeness auto

termination
  by (relation "measure (\<lambda>(s, raw). length s)") (auto dest!: length_scan_d split: if_splits)

declare parse_raw_spec.simps [simp del]

text \<open>The loop of \<open>bpf_core_parse_spec\<close> over the indices but the first, \<open>id\<close> the type reached.\<close>

primrec parse_accessors :: "btf list \<Rightarrow> int list \<Rightarrow> u32 \<Rightarrow> bpf_core_spec \<Rightarrow> (int \<times> bpf_core_spec) option" where
  "parse_accessors bs [] i spec = Some (0, spec)"
| "parse_accessors bs (access_idx # raw) i spec = do {
     (t, i) \<leftarrow> skip_mods_and_typedefs bs i;
     is_composite \<leftarrow> btf_is_composite t;
     is_array \<leftarrow> btf_is_array t;
     if is_composite then do {
       vlen \<leftarrow> btf_vlen t;
       if access_idx \<ge> uint vlen then Some (- EINVAL, spec)
       else do {
         bit_offset \<leftarrow> btf_member_bit_offset t (unat (of_int access_idx :: u32));
         let spec = add_bits bit_offset spec;
         mt \<leftarrow> ptr_add t (access_idx * int sizeof_btf_member);
         m \<leftarrow> btf_members mt 0;
         if mb_name_off m \<noteq> 0 then do {
           name \<leftarrow> name_at bs (mb_name_off m);
           if str_is_empty name then Some (- EINVAL, spec)
           else parse_accessors bs raw (mb_type m)
             (push_acc \<lparr>acc_type_id = i, acc_idx = of_int access_idx, acc_name = name\<rparr> spec)
         }
         else parse_accessors bs raw (mb_type m) spec
       }
     }
     else if is_array then do {
       a \<leftarrow> btf_array t;
       (t, i) \<leftarrow> skip_mods_and_typedefs bs (ar_type a);
       flex \<leftarrow> is_flex_arr bs (last (sp_spec spec)) a;
       if \<not> flex \<and> (of_int access_idx :: u32) \<ge> ar_nelems a then Some (- EINVAL, spec)
       else do {
         let spec = push_acc \<lparr>acc_type_id = i, acc_idx = of_int access_idx, acc_name = None\<rparr> spec;
         sz \<leftarrow> size_of bs i;
         if sz < 0 then Some (sz, spec)
         else parse_accessors bs raw i (add_bits (of_int (access_idx * sz * 8)) spec)
       }
     }
     else Some (- EINVAL, spec)
   }"

definition bpf_core_parse_spec :: "btf list \<Rightarrow> u32 \<Rightarrow> bytes \<Rightarrow> bpf_core_relo_kind \<Rightarrow> (int \<times> bpf_core_spec) option" where
  "bpf_core_parse_spec bs type_id spec_str relo_kind =
     (let spec = empty_spec bs type_id relo_kind in
      if spec_str = [] \<or> hd spec_str = colon then Some (- EINVAL, spec)
      else if core_relo_is_type_based relo_kind then
        Some (if spec_str \<noteq> chars ''0'' then - EINVAL else 0, spec)
      else do {
        raw \<leftarrow> parse_raw_spec spec_str [];
        (case raw of
           Inl err \<Rightarrow> Some (err, spec)
         | Inr [] \<Rightarrow> Some (- EINVAL, spec)
         | Inr (access_idx # raw) \<Rightarrow> do {
             let spec = spec\<lparr>sp_raw_spec := access_idx # raw\<rparr>;
             (t, i) \<leftarrow> skip_mods_and_typedefs bs type_id;
             if core_relo_is_enumval_based relo_kind then do {
               is_enum \<leftarrow> btf_is_enum t;
               vlen \<leftarrow> btf_vlen t;
               let spec_with = (\<lambda>name. push_acc \<lparr>acc_type_id = i, acc_idx = of_int access_idx, acc_name = name\<rparr> spec);
               if \<not> is_enum \<or> raw \<noteq> [] \<or> access_idx \<ge> uint vlen then Some (- EINVAL, spec_with None)
               else do {
                 et \<leftarrow> ptr_add t (access_idx * int sizeof_btf_enum);
                 e \<leftarrow> btf_enum et 0;
                 name \<leftarrow> name_at bs (en_name_off e);
                 Some (0, spec_with name)
               }
             }
             else do {
               let spec = push_acc \<lparr>acc_type_id = i, acc_idx = of_int access_idx, acc_name = None\<rparr> spec;
               if \<not> core_relo_is_field_based relo_kind then Some (- EINVAL, spec)
               else do {
                 sz \<leftarrow> size_of bs i;
                 if sz < 0 then Some (sz, spec)
                 else parse_accessors bs raw i (spec\<lparr>sp_bit_offset := of_int (access_idx * sz * 8)\<rparr>)
               }
             }
           })
      })"

section \<open>Matching target types\<close>

text \<open>The names of forward declarations and enums agree up to the flavor, or one is anonymous.\<close>

definition names_compat :: "btf list \<Rightarrow> btf_ptr \<Rightarrow> btf list \<Rightarrow> btf_ptr \<Rightarrow> int option" where
  "names_compat local_btf local_type targ_btf targ_type = do {
     local_off \<leftarrow> t_name_off local_type;
     local_name \<leftarrow> name_at local_btf local_off;
     targ_off \<leftarrow> t_name_off targ_type;
     targ_name \<leftarrow> name_at targ_btf targ_off;
     local_name \<leftarrow> local_name;
     targ_name \<leftarrow> targ_name;
     let local_len = bpf_core_essential_name_len local_name;
     let targ_len = bpf_core_essential_name_len targ_name;
     Some (if local_len = 0 \<or> targ_len = 0 \<or>
       local_len = targ_len \<and> strncmp_eq local_name targ_name local_len then 1 else 0)
   }"

partial_function (option) bpf_core_fields_are_compat :: "btf list \<Rightarrow> u32 \<Rightarrow> btf list \<Rightarrow> u32 \<Rightarrow> int option" where
  "bpf_core_fields_are_compat local_btf local_id targ_btf targ_id = do {
     (local_type, local_id) \<leftarrow> skip_mods_and_typedefs local_btf local_id;
     (targ_type, targ_id) \<leftarrow> skip_mods_and_typedefs targ_btf targ_id;
     local_composite \<leftarrow> btf_is_composite local_type;
     targ_composite \<leftarrow> btf_is_composite targ_type;
     local_kind \<leftarrow> btf_kind local_type;
     targ_kind \<leftarrow> btf_kind targ_type;
     if local_composite \<and> targ_composite then Some 1
     else if local_kind \<noteq> targ_kind then Some 0
     else if local_kind = BTF_KIND_PTR \<or> local_kind = BTF_KIND_FLOAT then Some 1
     else if local_kind = BTF_KIND_FWD \<or> local_kind = BTF_KIND_ENUM then
       names_compat local_btf local_type targ_btf targ_type
     else if local_kind = BTF_KIND_INT then do {
       local_off \<leftarrow> btf_int_offset local_type;
       if local_off \<noteq> 0 then Some 0
       else do {
         targ_off \<leftarrow> btf_int_offset targ_type;
         Some (if targ_off = 0 then 1 else 0)
       }
     }
     else if local_kind = BTF_KIND_ARRAY then do {
       local_arr \<leftarrow> btf_array local_type;
       targ_arr \<leftarrow> btf_array targ_type;
       bpf_core_fields_are_compat local_btf (ar_type local_arr) targ_btf (ar_type targ_arr)
     }
     else Some 0
   }"

declare bpf_core_fields_are_compat.simps [code]

text \<open>
  The search for a member of the wanted name. The loop \<open>match_members\<close> runs over the indices left;
  \<open>deeper\<close> is the recursive call for an embedded structure. Every call but the last pushes an index
  on the raw spec, which holds 64, so the depth 65 that \<open>bpf_core_match_member\<close> allows is enough
  (lemma \<open>match_member_fuel\<close>). Results are the return value, the spec and \<open>next_targ_id\<close>.
\<close>

abbreviation pop_raw :: "u32 \<Rightarrow> bpf_core_spec \<Rightarrow> bpf_core_spec" where
  "pop_raw bit_offset spec \<equiv> spec\<lparr>sp_bit_offset := sp_bit_offset spec - bit_offset,
     sp_raw_spec := butlast (sp_raw_spec spec)\<rparr>"

abbreviation pop_acc :: "bpf_core_spec \<Rightarrow> bpf_core_spec" where
  "pop_acc spec \<equiv> spec\<lparr>sp_spec := butlast (sp_spec spec)\<rparr>"

type_synonym match_result = "int \<times> bpf_core_spec \<times> u32"

primrec match_members :: "(u32 \<Rightarrow> bpf_core_spec \<Rightarrow> u32 \<Rightarrow> match_result option) \<Rightarrow> btf list \<Rightarrow> btf_member_s \<Rightarrow>
    bytes option \<Rightarrow> btf list \<Rightarrow> btf_ptr \<Rightarrow> u32 \<Rightarrow> nat list \<Rightarrow> bpf_core_spec \<Rightarrow> u32 \<Rightarrow> match_result option" where
  "match_members deeper local_btf local_member local_name targ_btf targ_type targ_id [] spec next =
     Some (0, spec, next)"
| "match_members deeper local_btf local_member local_name targ_btf targ_type targ_id (i # is) spec next = do {
     bit_offset \<leftarrow> btf_member_bit_offset targ_type i;
     if length (sp_raw_spec spec) = BPF_CORE_SPEC_MAX_LEN then Some (- E2BIG, spec, next)
     else do {
       let spec = push_raw (int i) (add_bits bit_offset spec);
       m \<leftarrow> btf_members targ_type i;
       targ_name \<leftarrow> name_at targ_btf (mb_name_off m);
       if str_is_empty targ_name then do {
         (found, spec, next) \<leftarrow> deeper (mb_type m) spec next;
         if found \<noteq> 0 then Some (found, spec, next)
         else match_members deeper local_btf local_member local_name targ_btf targ_type targ_id is
           (pop_raw bit_offset spec) next
       }
       else do {
         local_str \<leftarrow> local_name;
         targ_str \<leftarrow> targ_name;
         if local_str = targ_str then do {
           let spec = push_acc \<lparr>acc_type_id = targ_id, acc_idx = of_nat i, acc_name = targ_name\<rparr> spec;
           found \<leftarrow> bpf_core_fields_are_compat local_btf (mb_type local_member) targ_btf (mb_type m);
           Some (found, if found = 0 then pop_acc spec else spec, mb_type m)
         }
         else match_members deeper local_btf local_member local_name targ_btf targ_type targ_id is
           (pop_raw bit_offset spec) next
       }
     }
   }"

primrec match_member :: "nat \<Rightarrow> btf list \<Rightarrow> bpf_core_accessor \<Rightarrow> btf list \<Rightarrow> u32 \<Rightarrow> bpf_core_spec \<Rightarrow> u32 \<Rightarrow>
    match_result option" where
  "match_member 0 local_btf local_acc targ_btf targ_id spec next = None"
| "match_member (Suc n) local_btf local_acc targ_btf targ_id spec next = do {
     (targ_type, targ_id) \<leftarrow> skip_mods_and_typedefs targ_btf targ_id;
     is_composite \<leftarrow> btf_is_composite targ_type;
     if \<not> is_composite then Some (0, spec, next)
     else do {
       local_type \<leftarrow> the_type local_btf (acc_type_id local_acc);
       local_member \<leftarrow> btf_members local_type (unat (acc_idx local_acc));
       local_name \<leftarrow> name_at local_btf (mb_name_off local_member);
       vlen \<leftarrow> btf_vlen targ_type;
       match_members (match_member n local_btf local_acc targ_btf) local_btf local_member local_name targ_btf
         targ_type targ_id [0 ..< unat vlen] spec next
     }
   }"

definition bpf_core_match_member :: "btf list \<Rightarrow> bpf_core_accessor \<Rightarrow> btf list \<Rightarrow> u32 \<Rightarrow> bpf_core_spec \<Rightarrow> u32 \<Rightarrow>
    match_result option" where
  "bpf_core_match_member = match_member 65"

text \<open>The loops of \<open>bpf_core_spec_match\<close>: over the values of an enum, and over the local accessors.\<close>

primrec match_enumval :: "bpf_core_accessor \<Rightarrow> btf list \<Rightarrow> btf_ptr \<Rightarrow> u32 \<Rightarrow> nat list \<Rightarrow> bpf_core_spec \<Rightarrow>
    (int \<times> bpf_core_spec) option" where
  "match_enumval local_acc targ_btf targ_type targ_id [] spec = Some (0, spec)"
| "match_enumval local_acc targ_btf targ_type targ_id (i # is) spec = do {
     local_name \<leftarrow> acc_name local_acc;
     let local_essent_len = bpf_core_essential_name_len local_name;
     e \<leftarrow> btf_enum targ_type i;
     targ_name \<leftarrow> name_at targ_btf (en_name_off e);
     targ_str \<leftarrow> targ_name;
     if bpf_core_essential_name_len targ_str = local_essent_len \<and> strncmp_eq local_name targ_str local_essent_len then
       Some (1, push_raw (int i) (push_acc \<lparr>acc_type_id = targ_id, acc_idx = of_nat i, acc_name = targ_name\<rparr> spec))
     else match_enumval local_acc targ_btf targ_type targ_id is spec
   }"

primrec match_accessors :: "btf list \<Rightarrow> btf list \<Rightarrow> bool \<Rightarrow> bpf_core_accessor list \<Rightarrow> u32 \<Rightarrow> bpf_core_spec \<Rightarrow>
    (int \<times> bpf_core_spec) option" where
  "match_accessors local_btf targ_btf is_first [] targ_id spec = Some (1, spec)"
| "match_accessors local_btf targ_btf is_first (local_acc # accs) targ_id spec = do {
     (targ_type, targ_id) \<leftarrow> skip_mods_and_typedefs targ_btf targ_id;
     if acc_name local_acc \<noteq> None then do {
       (matched, spec, targ_id) \<leftarrow> bpf_core_match_member local_btf local_acc targ_btf targ_id spec targ_id;
       if matched \<le> 0 then Some (matched, spec)
       else match_accessors local_btf targ_btf False accs targ_id spec
     }
     else do {
       elem \<leftarrow> (if is_first then Some (Some targ_id)
         else do {
           is_array \<leftarrow> btf_is_array targ_type;
           if \<not> is_array then Some None
           else do {
             a \<leftarrow> btf_array targ_type;
             flex \<leftarrow> is_flex_arr targ_btf (last (sp_spec spec)) a;
             if \<not> flex \<and> acc_idx local_acc \<ge> ar_nelems a then Some None
             else map_option (\<lambda>(t, i). Some i) (skip_mods_and_typedefs targ_btf (ar_type a))
           }
         });
       (case elem of
          None \<Rightarrow> Some (0, spec)
        | Some targ_id \<Rightarrow>
            if length (sp_raw_spec spec) = BPF_CORE_SPEC_MAX_LEN then Some (- E2BIG, spec)
            else do {
              let spec = push_raw (sint (acc_idx local_acc))
                (push_acc \<lparr>acc_type_id = targ_id, acc_idx = acc_idx local_acc, acc_name = None\<rparr> spec);
              size \<leftarrow> size_of targ_btf targ_id;
              let sz = sint (of_int size :: u32);
              if sz < 0 then Some (sz, spec)
              else match_accessors local_btf targ_btf False accs targ_id
                (add_bits (acc_idx local_acc * of_int sz * 8) spec)
            })
     }
   }"

definition bpf_core_spec_match :: "nat \<Rightarrow> bpf_core_spec \<Rightarrow> btf list \<Rightarrow> u32 \<Rightarrow> (int \<times> bpf_core_spec) option" where
  "bpf_core_spec_match n local_spec targ_btf targ_id =
     (let targ_spec = empty_spec targ_btf targ_id (sp_relo_kind local_spec) in
      if core_relo_is_type_based (sp_relo_kind local_spec) then
        map_option (\<lambda>compat. (compat, targ_spec))
          (bpf_core_types_are_compat n (sp_btf local_spec) (sp_root_type_id local_spec) targ_btf targ_id)
      else if core_relo_is_enumval_based (sp_relo_kind local_spec) then do {
        (targ_type, targ_id) \<leftarrow> skip_mods_and_typedefs targ_btf targ_id;
        is_enum \<leftarrow> btf_is_enum targ_type;
        if \<not> is_enum then Some (0, targ_spec)
        else do {
          local_acc \<leftarrow> (case sp_spec local_spec of [] \<Rightarrow> None | acc # accs \<Rightarrow> Some acc);
          _ \<leftarrow> acc_name local_acc;
          vlen \<leftarrow> btf_vlen targ_type;
          match_enumval local_acc targ_btf targ_type targ_id [0 ..< unat vlen] targ_spec
        }
      }
      else if \<not> core_relo_is_field_based (sp_relo_kind local_spec) then Some (- EINVAL, targ_spec)
      else match_accessors (sp_btf local_spec) targ_btf True (sp_spec local_spec) targ_id targ_spec)"

end
