(* ===== verification/Relo_Insn.thy ===== *)
theory Relo_Insn
  imports Relo_Core
begin

text \<open>
  CO-RE relocation, \<open>relo_core.c\<close> and its caller in \<open>libbpf.c\<close>: the values of a relocation for a
  spec, the rewriting of the instruction, and the relocation of one instruction against a list of
  candidates. A program is a list of instructions; the warnings are left out.
\<close>

section \<open>Values of relocations\<close>

text \<open>
  The window of a bit field: the loop that doubles the size of the load until the field lies in one
  aligned load. A size of zero is a division by zero in C. The early return is \<open>Inl\<close>.
\<close>

definition byte_window :: "u32 \<Rightarrow> u32 \<Rightarrow> u32" where
  "byte_window bit_off byte_sz = bit_off div 8 div byte_sz * byte_sz"

lemma double_less: "(w :: u32) \<noteq> 0 \<Longrightarrow> w < 8 \<Longrightarrow> 8 - unat (w * 2) < 8 - unat w"
  by (simp add: word_less_nat_alt unat_word_ariths unat_gt_0 [symmetric] del: unat_gt_0)

function bitfield_window :: "u32 \<Rightarrow> u32 \<Rightarrow> u32 \<Rightarrow> (int + u32 \<times> u32) option" where
  "bitfield_window bit_off bit_sz byte_sz =
     (if byte_sz = 0 then None
      else
        let byte_off = byte_window bit_off byte_sz in
        if bit_off + bit_sz - byte_off * 8 > byte_sz * 8 then
          (if byte_sz \<ge> 8 then Some (Inl (- E2BIG)) else bitfield_window bit_off bit_sz (byte_sz * 2))
        else Some (Inr (byte_off, byte_sz)))"
  by pat_completeness auto

termination
  by (relation "measure (\<lambda>(bit_off, bit_sz, byte_sz). 8 - unat byte_sz)") (auto simp: not_le intro!: double_less)

declare bitfield_window.simps [simp del]

text \<open>What a field relocation sets: \<open>*val\<close>, \<open>*field_sz\<close>, \<open>*type_id\<close> and \<open>*validate\<close>.\<close>

record field_out =
  fo_val :: u32
  fo_field_sz :: u32
  fo_type_id :: u32
  fo_validate :: bool

definition fresh_out :: field_out where
  "fresh_out = \<lparr>fo_val = 0, fo_field_sz = 0, fo_type_id = 0, fo_validate = True\<rparr>"

definition calc_array_relo :: "bpf_core_relo_kind \<Rightarrow> bpf_core_spec \<Rightarrow> bpf_core_accessor \<Rightarrow> field_out \<Rightarrow>
    (int \<times> field_out) option" where
  "calc_array_relo kind spec acc out =
     (if kind = BPF_FIELD_BYTE_OFFSET then do {
        let out = out\<lparr>fo_val := sp_bit_offset spec div 8\<rparr>;
        sz \<leftarrow> size_of (sp_btf spec) (acc_type_id acc);
        Some (if sz < 0 then (- EINVAL, out)
          else (0, out\<lparr>fo_field_sz := of_int sz, fo_type_id := acc_type_id acc, fo_validate := True\<rparr>))
      }
      else if kind = BPF_FIELD_BYTE_SIZE then do {
        sz \<leftarrow> size_of (sp_btf spec) (acc_type_id acc);
        Some (if sz < 0 then (- EINVAL, out) else (0, out\<lparr>fo_val := of_int sz, fo_validate := True\<rparr>))
      }
      else Some (- EINVAL, out))"

definition bpf_core_calc_field_relo :: "bpf_core_relo_kind \<Rightarrow> bpf_core_spec option \<Rightarrow> field_out \<Rightarrow>
    (int \<times> field_out) option" where
  "bpf_core_calc_field_relo kind spec out =
     (let out = out\<lparr>fo_field_sz := 0\<rparr> in
      if kind = BPF_FIELD_EXISTS then Some (0, out\<lparr>fo_val := (if spec \<noteq> None then 1 else 0)\<rparr>)
      else case spec of
        None \<Rightarrow> Some (- EUCLEAN, out)
      | Some spec \<Rightarrow> do {
          acc \<leftarrow> (if sp_spec spec = [] then None else Some (last (sp_spec spec)));
          t \<leftarrow> btf__type_by_id (sp_btf spec) (acc_type_id acc);
          if acc_name acc = None then calc_array_relo kind spec acc out
          else do {
            t \<leftarrow> t;
            m \<leftarrow> btf_members t (unat (acc_idx acc));
            (mt, field_type_id) \<leftarrow> skip_mods_and_typedefs (sp_btf spec) (mb_type m);
            let bit_off = sp_bit_offset spec;
            bit_sz \<leftarrow> btf_member_bitfield_size t (unat (acc_idx acc));
            let bitfield = bit_sz > 0;
            window \<leftarrow> (if bitfield then do {
                size \<leftarrow> t_size mt;
                bitfield_window bit_off bit_sz size
              }
              else do {
                sz \<leftarrow> size_of (sp_btf spec) field_type_id;
                Some (if sz < 0 then Inl (- EINVAL) else Inr (bit_off div 8, of_int sz))
              });
            (case window of
               Inl err \<Rightarrow> Some (err, out)
             | Inr (byte_off, byte_sz) \<Rightarrow> do {
                 let bit_sz = (if bitfield then bit_sz else byte_sz * 8);
                 let out = out\<lparr>fo_validate := \<not> bitfield\<rparr>;
                 if kind = BPF_FIELD_BYTE_OFFSET then
                   Some (0, if bitfield then out\<lparr>fo_val := byte_off\<rparr>
                     else out\<lparr>fo_val := byte_off, fo_field_sz := byte_sz, fo_type_id := field_type_id\<rparr>)
                 else if kind = BPF_FIELD_BYTE_SIZE then Some (0, out\<lparr>fo_val := byte_sz\<rparr>)
                 else if kind = BPF_FIELD_SIGNED then do {
                   is_enum \<leftarrow> btf_is_enum mt;
                   signed \<leftarrow> (if is_enum then Some True
                     else map_option (\<lambda>enc. uint enc AND BTF_INT_SIGNED \<noteq> 0) (btf_int_encoding mt));
                   Some (0, out\<lparr>fo_val := (if signed then 1 else 0), fo_validate := True\<rparr>)
                 }
                 else if kind = BPF_FIELD_LSHIFT_U64 then
                   Some (0, out\<lparr>fo_val :=
                     (if is_host_big_endian then (8 - byte_sz) * 8 + (bit_off - byte_off * 8)
                      else 64 - (bit_off + bit_sz - byte_off * 8))\<rparr>)
                 else if kind = BPF_FIELD_RSHIFT_U64 then
                   Some (0, out\<lparr>fo_val := 64 - bit_sz, fo_validate := True\<rparr>)
                 else Some (- EOPNOTSUPP, out)
               })
          }
        })"

definition bpf_core_calc_type_relo :: "bpf_core_relo_kind \<Rightarrow> bpf_core_spec option \<Rightarrow> u32 \<Rightarrow> (int \<times> u32) option" where
  "bpf_core_calc_type_relo kind spec val =
     (case spec of
        None \<Rightarrow> Some (0, 0)
      | Some spec \<Rightarrow>
          if kind = BPF_TYPE_ID_TARGET then Some (0, sp_root_type_id spec)
          else if kind = BPF_TYPE_EXISTS then Some (0, 1)
          else if kind = BPF_TYPE_SIZE then do {
            sz \<leftarrow> size_of (sp_btf spec) (sp_root_type_id spec);
            Some (if sz < 0 then (- EINVAL, val) else (0, of_int sz))
          }
          else Some (- EOPNOTSUPP, val))"

definition bpf_core_calc_enumval_relo :: "bpf_core_relo_kind \<Rightarrow> bpf_core_spec option \<Rightarrow> u32 \<Rightarrow> (int \<times> u32) option" where
  "bpf_core_calc_enumval_relo kind spec val =
     (if kind = BPF_ENUMVAL_EXISTS then Some (0, if spec \<noteq> None then 1 else 0)
      else if kind = BPF_ENUMVAL_VALUE then
        (case spec of
           None \<Rightarrow> Some (- EUCLEAN, val)
         | Some spec \<Rightarrow> do {
             acc \<leftarrow> (case sp_spec spec of [] \<Rightarrow> None | acc # accs \<Rightarrow> Some acc);
             t \<leftarrow> the_type (sp_btf spec) (acc_type_id acc);
             e \<leftarrow> btf_enum t (unat (acc_idx acc));
             Some (0, en_val e)
           })
      else Some (- EOPNOTSUPP, val))"

record bpf_core_relo_res =
  res_orig_val :: u32
  res_new_val :: u32
  res_poison :: bool
  res_validate :: bool
  res_fail_memsz_adjust :: bool
  res_orig_sz :: u32
  res_orig_type_id :: u32
  res_new_sz :: u32
  res_new_type_id :: u32

definition zero_res :: bpf_core_relo_res where
  "zero_res = \<lparr>res_orig_val = 0, res_new_val = 0, res_poison = False, res_validate = True,
     res_fail_memsz_adjust = False, res_orig_sz = 0, res_orig_type_id = 0, res_new_sz = 0,
     res_new_type_id = 0\<rparr>"

text \<open>Whether the size of a load may change: between pointers, and between unsigned integers.\<close>

definition memsz_adjustable :: "btf_ptr \<Rightarrow> btf_ptr \<Rightarrow> bool option" where
  "memsz_adjustable orig_t new_t = do {
     orig_ptr \<leftarrow> btf_is_ptr orig_t;
     new_ptr \<leftarrow> btf_is_ptr new_t;
     if orig_ptr \<and> new_ptr then Some True
     else do {
       orig_int \<leftarrow> btf_is_int orig_t;
       new_int \<leftarrow> btf_is_int new_t;
       if orig_int \<and> new_int then do {
         orig_enc \<leftarrow> btf_int_encoding orig_t;
         new_enc \<leftarrow> btf_int_encoding new_t;
         Some (uint orig_enc \<noteq> BTF_INT_SIGNED \<and> uint new_enc \<noteq> BTF_INT_SIGNED)
       }
       else Some False
     }
   }"

definition calc_field_res :: "bpf_core_relo_kind \<Rightarrow> bpf_core_spec \<Rightarrow> bpf_core_spec option \<Rightarrow>
    (int \<times> bpf_core_relo_res) option" where
  "calc_field_res kind local_spec targ_spec = do {
     (err, orig) \<leftarrow> bpf_core_calc_field_relo kind (Some local_spec) fresh_out;
     let res = zero_res\<lparr>res_orig_val := fo_val orig, res_orig_sz := fo_field_sz orig,
       res_orig_type_id := fo_type_id orig, res_validate := fo_validate orig\<rparr>;
     if err \<noteq> 0 then Some (err, res)
     else do {
       (err, new) \<leftarrow> bpf_core_calc_field_relo kind targ_spec fresh_out;
       let res = res\<lparr>res_new_val := fo_val new, res_new_sz := fo_field_sz new, res_new_type_id := fo_type_id new\<rparr>;
       if err \<noteq> 0 then Some (err, res)
       else if res_orig_sz res = res_new_sz res then Some (0, res)
       else do {
         targ_spec \<leftarrow> targ_spec;
         orig_t \<leftarrow> the_type (sp_btf local_spec) (res_orig_type_id res);
         new_t \<leftarrow> the_type (sp_btf targ_spec) (res_new_type_id res);
         adjustable \<leftarrow> memsz_adjustable orig_t new_t;
         Some (0, res\<lparr>res_fail_memsz_adjust := \<not> adjustable\<rparr>)
       }
     }
   }"

text \<open>The two values of a relocation on types or enum values, by the function that computes one.\<close>

definition calc_both :: "(bpf_core_spec option \<Rightarrow> u32 \<Rightarrow> (int \<times> u32) option) \<Rightarrow> bpf_core_spec \<Rightarrow>
    bpf_core_spec option \<Rightarrow> (int \<times> bpf_core_relo_res) option" where
  "calc_both calc local_spec targ_spec = do {
     (err, orig_val) \<leftarrow> calc (Some local_spec) 0;
     let res = zero_res\<lparr>res_orig_val := orig_val\<rparr>;
     if err \<noteq> 0 then Some (err, res)
     else do {
       (err, new_val) \<leftarrow> calc targ_spec 0;
       Some (err, res\<lparr>res_new_val := new_val\<rparr>)
     }
   }"

definition bpf_core_calc_relo :: "bpf_core_relo \<Rightarrow> bpf_core_spec \<Rightarrow> bpf_core_spec option \<Rightarrow>
    (int \<times> bpf_core_relo_res) option" where
  "bpf_core_calc_relo relo local_spec targ_spec = do {
     let kind = r_kind relo;
     (err, res) \<leftarrow>
       (if core_relo_is_field_based kind then calc_field_res kind local_spec targ_spec
        else if core_relo_is_type_based kind then calc_both (bpf_core_calc_type_relo kind) local_spec targ_spec
        else if core_relo_is_enumval_based kind then calc_both (bpf_core_calc_enumval_relo kind) local_spec targ_spec
        else Some (- EOPNOTSUPP, zero_res));
     Some (if err = - EUCLEAN then (0, res\<lparr>res_poison := True\<rparr>) else (err, res))
   }"

section \<open>Instructions\<close>

record bpf_insn =
  i_code :: u8
  dst_reg :: "4 word"
  src_reg :: "4 word"
  i_off :: u16
  i_imm :: u32

definition BPF_CLASS :: "u8 \<Rightarrow> u8" where "BPF_CLASS code = code AND 0x07"
definition BPF_SIZE :: "u8 \<Rightarrow> u8" where "BPF_SIZE code = code AND 0x18"
definition BPF_MODE :: "u8 \<Rightarrow> u8" where "BPF_MODE code = code AND 0xe0"
definition BPF_SRC :: "u8 \<Rightarrow> u8" where "BPF_SRC code = code AND 0x08"

abbreviation (input) BPF_LD :: u8 where "BPF_LD \<equiv> 0x00"
abbreviation (input) BPF_LDX :: u8 where "BPF_LDX \<equiv> 0x01"
abbreviation (input) BPF_ST :: u8 where "BPF_ST \<equiv> 0x02"
abbreviation (input) BPF_STX :: u8 where "BPF_STX \<equiv> 0x03"
abbreviation (input) BPF_ALU :: u8 where "BPF_ALU \<equiv> 0x04"
abbreviation (input) BPF_JMP :: u8 where "BPF_JMP \<equiv> 0x05"
abbreviation (input) BPF_ALU64 :: u8 where "BPF_ALU64 \<equiv> 0x07"
abbreviation (input) BPF_W :: u8 where "BPF_W \<equiv> 0x00"
abbreviation (input) BPF_H :: u8 where "BPF_H \<equiv> 0x08"
abbreviation (input) BPF_B :: u8 where "BPF_B \<equiv> 0x10"
abbreviation (input) BPF_DW :: u8 where "BPF_DW \<equiv> 0x18"
abbreviation (input) BPF_IMM :: u8 where "BPF_IMM \<equiv> 0x00"
abbreviation (input) BPF_K :: u8 where "BPF_K \<equiv> 0x00"
abbreviation (input) BPF_CALL :: u8 where "BPF_CALL \<equiv> 0x80"
abbreviation (input) SHRT_MAX :: u32 where "SHRT_MAX \<equiv> 0x7fff"

definition is_ldimm64_insn :: "bpf_insn \<Rightarrow> bool" where
  "is_ldimm64_insn insn \<longleftrightarrow> i_code insn = (BPF_LD OR BPF_IMM OR BPF_DW)"

definition bpf_core_poison_insn :: "bpf_insn \<Rightarrow> bpf_insn" where
  "bpf_core_poison_insn insn =
     insn\<lparr>i_code := BPF_JMP OR BPF_CALL, dst_reg := 0, src_reg := 0, i_off := 0, i_imm := 195896080\<rparr>"

definition insn_bpf_size_to_bytes :: "bpf_insn \<Rightarrow> int" where
  "insn_bpf_size_to_bytes insn =
     (let size = BPF_SIZE (i_code insn) in
      if size = BPF_DW then 8 else if size = BPF_W then 4 else if size = BPF_H then 2
      else if size = BPF_B then 1 else - 1)"

definition insn_bytes_to_bpf_size :: "u32 \<Rightarrow> int" where
  "insn_bytes_to_bpf_size bytes_sz =
     (if bytes_sz = 8 then uint BPF_DW else if bytes_sz = 4 then uint BPF_W else if bytes_sz = 2 then uint BPF_H
      else if bytes_sz = 1 then uint BPF_B else - 1)"

text \<open>The instruction at an index; the list updated there.\<close>

definition insn_at :: "bpf_insn list \<Rightarrow> nat \<Rightarrow> bpf_insn option" where
  "insn_at insns i = (if i < length insns then Some (insns ! i) else None)"

definition poison_at :: "bpf_insn list \<Rightarrow> nat \<Rightarrow> bpf_insn list option" where
  "poison_at insns i = do {
     insn \<leftarrow> insn_at insns i;
     insns \<leftarrow> (if is_ldimm64_insn insn then do {
         second \<leftarrow> insn_at insns (i + 1);
         Some (insns[i + 1 := bpf_core_poison_insn second])
       }
       else Some insns);
     Some (insns[i := bpf_core_poison_insn insn])
   }"

definition patch_alu :: "bpf_insn list \<Rightarrow> nat \<Rightarrow> bpf_insn \<Rightarrow> bpf_core_relo_res \<Rightarrow> (int \<times> bpf_insn list) option" where
  "patch_alu insns i insn res =
     (if BPF_SRC (i_code insn) \<noteq> BPF_K then Some (- EINVAL, insns)
      else if res_validate res \<and> i_imm insn \<noteq> res_orig_val res then Some (- EINVAL, insns)
      else Some (0, insns[i := insn\<lparr>i_imm := res_new_val res\<rparr>]))"

definition patch_mem :: "bpf_insn list \<Rightarrow> nat \<Rightarrow> bpf_insn \<Rightarrow> bpf_core_relo_res \<Rightarrow> (int \<times> bpf_insn list) option" where
  "patch_mem insns i insn res =
     (if res_validate res \<and> scast (i_off insn) \<noteq> res_orig_val res then Some (- EINVAL, insns)
      else if res_new_val res > SHRT_MAX then Some (- ERANGE, insns)
      else if res_fail_memsz_adjust res then map_option (\<lambda>insns. (0, insns)) (poison_at insns i)
      else
        let insn = insn\<lparr>i_off := ucast (res_new_val res)\<rparr>; insns = insns[i := insn] in
        if res_new_sz res = res_orig_sz res then Some (0, insns)
        else if of_int (insn_bpf_size_to_bytes insn) \<noteq> res_orig_sz res then Some (- EINVAL, insns)
        else
          let insn_bpf_sz = insn_bytes_to_bpf_size (res_new_sz res) in
          if insn_bpf_sz < 0 then Some (- EINVAL, insns)
          else Some (0, insns[i := insn\<lparr>i_code :=
            BPF_MODE (i_code insn) OR of_int insn_bpf_sz OR BPF_CLASS (i_code insn)\<rparr>]))"

definition patch_ldimm64 :: "bpf_insn list \<Rightarrow> nat \<Rightarrow> bpf_insn \<Rightarrow> bpf_core_relo_res \<Rightarrow> (int \<times> bpf_insn list) option" where
  "patch_ldimm64 insns i insn res =
     (if \<not> is_ldimm64_insn insn \<or> src_reg insn \<noteq> 0 \<or> i_off insn \<noteq> 0 then Some (- EINVAL, insns)
      else do {
        second \<leftarrow> insn_at insns (i + 1);
        if i_code second \<noteq> 0 \<or> dst_reg second \<noteq> 0 \<or> src_reg second \<noteq> 0 \<or> i_off second \<noteq> 0 then
          Some (- EINVAL, insns)
        else
          let imm64 = (scast (i_imm insn) :: u64) + push_bit 32 (scast (i_imm second)) in
          if res_validate res \<and> imm64 \<noteq> ucast (res_orig_val res) then Some (- EINVAL, insns)
          else Some (0, insns[i := insn\<lparr>i_imm := res_new_val res\<rparr>, i + 1 := second\<lparr>i_imm := 0\<rparr>])
      })"

definition bpf_core_patch_insn :: "bpf_insn list \<Rightarrow> nat \<Rightarrow> bpf_core_relo_res \<Rightarrow> (int \<times> bpf_insn list) option" where
  "bpf_core_patch_insn insns i res = do {
     insn \<leftarrow> insn_at insns i;
     let class = BPF_CLASS (i_code insn);
     if res_poison res then map_option (\<lambda>insns. (0, insns)) (poison_at insns i)
     else if class = BPF_ALU \<or> class = BPF_ALU64 then patch_alu insns i insn res
     else if class = BPF_LDX \<or> class = BPF_ST \<or> class = BPF_STX then patch_mem insns i insn res
     else if class = BPF_LD then patch_ldimm64 insns i insn res
     else Some (- EINVAL, insns)
   }"

section \<open>Relocating an instruction\<close>

text \<open>
  The loop over the candidates: \<open>done\<close> are those passed already and \<open>kept\<close> those of them that match,
  which the array holds first; \<open>targ\<close> is the first match with its result. On an early return the array
  has been overwritten as far as the loop came.
\<close>

record targ_state =
  ts_spec :: bpf_core_spec
  ts_res :: bpf_core_relo_res

definition overwritten :: "bpf_core_cand list \<Rightarrow> bpf_core_cand list \<Rightarrow> bpf_core_cand list" where
  "overwritten cands kept = kept @ drop (length kept) cands"

primrec match_cands :: "nat \<Rightarrow> bpf_core_relo \<Rightarrow> bpf_core_spec \<Rightarrow> bpf_core_cand list \<Rightarrow> targ_state option \<Rightarrow>
    bpf_core_cand list \<Rightarrow> (int \<times> targ_state option \<times> bpf_core_cand list) option" where
  "match_cands n relo local_spec [] targ kept = Some (0, targ, kept)"
| "match_cands n relo local_spec (cand # cands) targ kept = do {
     (err, cand_spec) \<leftarrow> bpf_core_spec_match n local_spec (cand_btf cand) (cand_id cand);
     if err < 0 then Some (err, targ, kept)
     else if err = 0 then match_cands n relo local_spec cands targ kept
     else do {
       (err, cand_res) \<leftarrow> bpf_core_calc_relo relo local_spec (Some cand_spec);
       if err \<noteq> 0 then Some (err, targ, kept)
       else case targ of
         None \<Rightarrow> match_cands n relo local_spec cands (Some \<lparr>ts_spec = cand_spec, ts_res = cand_res\<rparr>) (kept @ [cand])
       | Some ts \<Rightarrow>
           if sp_bit_offset cand_spec \<noteq> sp_bit_offset (ts_spec ts) then Some (- EINVAL, targ, kept)
           else if res_poison cand_res \<noteq> res_poison (ts_res ts) \<or> res_new_val cand_res \<noteq> res_new_val (ts_res ts)
           then Some (- EINVAL, targ, kept)
           else match_cands n relo local_spec cands targ (kept @ [cand])
     }
   }"

text \<open>
  \<open>junk\<close> is what the stack holds in \<open>targ_res\<close>: the members that the path for \<open>BPF_TYPE_ID_LOCAL\<close>
  does not set. Results are the return value, the instructions and the list of candidates.
\<close>

definition patch_with :: "bpf_insn list \<Rightarrow> nat \<Rightarrow> bpf_core_relo_res \<Rightarrow> bpf_core_cand list \<Rightarrow>
    (int \<times> bpf_insn list \<times> bpf_core_cand list) option" where
  "patch_with insns i res cands =
     map_option (\<lambda>(err, insns). (if err \<noteq> 0 then - EINVAL else 0, insns, cands)) (bpf_core_patch_insn insns i res)"

definition bpf_core_apply_relo_insn :: "nat \<Rightarrow> bpf_core_relo_res \<Rightarrow> bpf_insn list \<Rightarrow> nat \<Rightarrow> bpf_core_relo \<Rightarrow>
    btf list \<Rightarrow> bpf_core_cand list \<Rightarrow> (int \<times> bpf_insn list \<times> bpf_core_cand list) option" where
  "bpf_core_apply_relo_insn n junk insns insn_idx relo local_btf cands = do {
     local_type \<leftarrow> btf__type_by_id local_btf (r_type_id relo);
     (case local_type of
        None \<Rightarrow> Some (- EINVAL, insns, cands)
      | Some local_type \<Rightarrow> do {
          name_off \<leftarrow> t_name_off local_type;
          local_name \<leftarrow> name_at local_btf name_off;
          spec_str \<leftarrow> name_at local_btf (r_access_str_off relo);
          if local_name = None then Some (- EINVAL, insns, cands)
          else if str_is_empty spec_str then Some (- EINVAL, insns, cands)
          else do {
            spec_str \<leftarrow> spec_str;
            (err, local_spec) \<leftarrow> bpf_core_parse_spec local_btf (r_type_id relo) spec_str (r_kind relo);
            if err \<noteq> 0 then Some (- EINVAL, insns, cands)
            else if r_kind relo = BPF_TYPE_ID_LOCAL then
              patch_with insns insn_idx (junk\<lparr>res_validate := True, res_poison := False,
                res_orig_val := sp_root_type_id local_spec, res_new_val := sp_root_type_id local_spec\<rparr>) cands
            else do {
              (err, targ, kept) \<leftarrow> match_cands n relo local_spec cands None [];
              if err \<noteq> 0 then Some (err, insns, overwritten cands kept)
              else case targ of
                Some ts \<Rightarrow> patch_with insns insn_idx (ts_res ts) kept
              | None \<Rightarrow> do {
                  (err, res) \<leftarrow> bpf_core_calc_relo relo local_spec None;
                  if err \<noteq> 0 then Some (err, insns, cands)
                  else patch_with insns insn_idx res cands
                }
            }
          }
        })
   }"

section \<open>Relocating a program\<close>

text \<open>
  The caller in \<open>libbpf.c\<close>. The cache of candidate lists is a map from type identifiers; \<open>al_cache\<close>
  says whether \<open>hashmap__set\<close> gets its memory. The list found in the cache is the one that
  \<open>bpf_core_apply_relo_insn\<close> shortens in place.
\<close>

datatype reloc_type = RELO_LD64 | RELO_CALL | RELO_DATA | RELO_EXTERN_VAR | RELO_EXTERN_FUNC | RELO_SUBPROG_ADDR

record reloc_desc =
  rd_type :: reloc_type
  rd_insn_idx :: u32
  rd_map_idx :: u32
  rd_sym_off :: u32

text \<open>A block of \<open>.BTF.ext\<close> records that belong to a program, or the null pointer.\<close>

record prog_info =
  pi_data :: "bytes option"
  pi_rec_size :: u32
  pi_cnt :: u32

record bpf_program =
  p_sec_name :: bytes
  p_sec_idx :: u64
  p_sec_insn_off :: u64
  p_sec_insn_cnt :: u64
  p_sub_insn_off :: nat
  p_insns :: "bpf_insn list"
  p_relos :: "reloc_desc list"
  p_load :: bool
  p_func_info :: prog_info
  p_line_info :: prog_info
  p_gen_loader :: bool

type_synonym cand_cache = "u32 \<Rightarrow> bpf_core_cand list option"

record relo_env =
  re_obj :: btf_sources
  re_junk :: bpf_core_relo_res
  re_al_list :: bool
  re_al_cands :: "nat \<Rightarrow> bool"
  re_al_cache :: bool

definition bpf_core_apply_relo :: "nat \<Rightarrow> relo_env \<Rightarrow> bpf_program \<Rightarrow> bpf_core_relo \<Rightarrow> btf list \<Rightarrow> cand_cache \<Rightarrow>
    (int \<times> bpf_program \<times> cand_cache) option" where
  "bpf_core_apply_relo n env prog relo local_btf cache =
     (if r_insn_off relo mod 8 \<noteq> 0 then Some (- EINVAL, prog, cache)
      else
        let insn_idx = sint (ucast (ucast (r_insn_off relo div 8) - p_sec_insn_off prog) :: u32) in
        if (of_int insn_idx :: u64) > of_nat (length (p_insns prog)) then Some (- EINVAL, prog, cache)
        else do {
          local_type \<leftarrow> btf__type_by_id local_btf (r_type_id relo);
          (case local_type of
             None \<Rightarrow> Some (- EINVAL, prog, cache)
           | Some local_type \<Rightarrow> do {
               name_off \<leftarrow> t_name_off local_type;
               local_name \<leftarrow> name_at local_btf name_off;
               if local_name = None then Some (- EINVAL, prog, cache)
               else if p_gen_loader prog then Some (- ENOTSUP, prog, cache)
               else do {
                 found \<leftarrow> (if r_kind relo = BPF_TYPE_ID_LOCAL then Some (Inr ([], cache))
                   else case cache (r_type_id relo) of
                     Some cands \<Rightarrow> Some (Inr (cands, cache))
                   | None \<Rightarrow> do {
                       r \<leftarrow> bpf_core_find_cands (re_al_list env) (re_al_cands env) (re_obj env) local_btf (r_type_id relo);
                       Some (case r of
                         Inl err \<Rightarrow> Inl err
                       | Inr cands \<Rightarrow>
                           if \<not> re_al_cache env then Inl (- ENOMEM)
                           else Inr (cands, cache(r_type_id relo \<mapsto> cands)))
                     });
                 (case found of
                    Inl err \<Rightarrow> Some (err, prog, cache)
                  | Inr (cands, cache) \<Rightarrow> do {
                      (err, insns, cands) \<leftarrow> bpf_core_apply_relo_insn n (re_junk env) (p_insns prog) (nat insn_idx)
                        relo local_btf cands;
                      Some (err, prog\<lparr>p_insns := insns\<rparr>,
                        if r_kind relo = BPF_TYPE_ID_LOCAL then cache else cache(r_type_id relo \<mapsto> cands))
                    })
               }
             })
        })"

end
