(* ===== verification/Relo_Bitfield.thy ===== *)
theory Relo_Bitfield
  imports Relo_Insn
begin

text \<open>
  The values that relocate an access to a bit field belong together: the load of that size at that
  offset contains the field, and shifting it left and then right by the two amounts yields the field.
\<close>

section \<open>Windows\<close>

definition fits :: "nat \<Rightarrow> nat \<Rightarrow> nat \<Rightarrow> bool" where
  "fits off n s \<longleftrightarrow> off mod (8 * s) + n \<le> 8 * s"

lemma fits_block:
  assumes "0 < n" "0 < s"
  shows "fits off n s \<longleftrightarrow> off div (8 * s) = (off + n - 1) div (8 * s)"
proof -
  have eq: "off + n - 1 = off div (8 * s) * (8 * s) + (off mod (8 * s) + n - 1)"
    using div_mult_mod_eq [of off "8 * s"] assms(1) by linarith
  have "(off + n - 1) div (8 * s) = off div (8 * s) + (off mod (8 * s) + n - 1) div (8 * s)"
    unfolding eq using assms(2) by (subst div_mult_self3) auto
  moreover have "(off mod (8 * s) + n - 1) div (8 * s) = 0 \<longleftrightarrow> off mod (8 * s) + n - 1 < 8 * s"
    using assms(2) by (simp add: div_eq_0_iff)
  ultimately show ?thesis using assms(1) by (auto simp: fits_def)
qed

lemma unat_byte_window: "unat (byte_window off s) = unat off div (8 * unat s) * unat s"
proof -
  have "unat off div 8 div unat s * unat s \<le> unat off div 8" by (simp add: mult.commute)
  also have "\<dots> < 2 ^ 32" using unsigned_less [where ?'a = nat and w = off] by (simp add: div_less_mono)
  finally have "unat off div 8 div unat s * unat s < 2 ^ LENGTH(32)" by simp
  moreover have "unat (off div 8 div s) = unat off div 8 div unat s" by (simp add: unat_div)
  ultimately show ?thesis
    unfolding byte_window_def unat_word_ariths(2) by (simp only: mod_less div_mult2_eq)
qed

lemma byte_window_bits: "8 * unat (byte_window off s) = unat off - unat off mod (8 * unat s)"
proof -
  have "8 * (unat off div (8 * unat s) * unat s) = unat off div (8 * unat s) * (8 * unat s)" by simp
  then show ?thesis by (simp only: unat_byte_window minus_mod_eq_div_mult)
qed

lemma window_fits:
  assumes "unat off + unat n < 2 ^ 32" "unat s \<le> 8"
  shows "off + n - byte_window off s * 8 > s * 8 \<longleftrightarrow> \<not> fits (unat off) (unat n) (unat s)"
proof -
  let ?b = "byte_window off s"
  have b8: "8 * unat ?b = unat off - unat off mod (8 * unat s)" by (rule byte_window_bits)
  then have "8 * unat ?b \<le> unat off" by simp
  then have u8: "unat (?b * 8) = 8 * unat ?b" using assms(1) by (simp add: unat_word_ariths)
  have add: "unat (off + n) = unat off + unat n" using assms(1) by (simp add: unat_word_ariths)
  have "?b * 8 \<le> off + n"
    using \<open>8 * unat ?b \<le> unat off\<close> by (simp only: word_le_nat_alt u8 add trans_le_add1)
  then have "unat (off + n - ?b * 8) = unat off + unat n - 8 * unat ?b" by (simp only: unat_sub u8 add)
  also have "\<dots> = unat off mod (8 * unat s) + unat n"
    using mod_less_eq_dividend [of "unat off" "8 * unat s"] by (simp only: b8)
  finally have "unat (off + n - ?b * 8) = unat off mod (8 * unat s) + unat n" .
  moreover have "unat (s * 8) = 8 * unat s" using assms(2) by (simp add: unat_word_ariths)
  ultimately show ?thesis by (simp only: word_less_nat_alt fits_def not_le)
qed

lemma bitfield_window_step:
  assumes "unat off + unat n < 2 ^ 32" "unat s \<le> 8" "s \<noteq> 0"
  shows "bitfield_window off n s =
    (if fits (unat off) (unat n) (unat s) then Some (Inr (byte_window off s, s))
     else if 8 \<le> s then Some (Inl (- E2BIG)) else bitfield_window off n (s * 2))"
  using window_fits [OF assms(1,2)] assms(3) by (simp add: bitfield_window.simps [of off n s] Let_def)

text \<open>The first size from the given one on that holds the field in an aligned load.\<close>

lemma bitfield_window_result:
  assumes "unat off + unat n < 2 ^ 32" "s \<in> {1, 2, 4, 8}"
  shows "bitfield_window off n s = Some (Inl (- E2BIG)) \<and> \<not> fits (unat off) (unat n) 8 \<or>
    (\<exists>s' \<in> {1, 2, 4, 8}. s \<le> s' \<and> bitfield_window off n s = Some (Inr (byte_window off s', s')) \<and>
       fits (unat off) (unat n) (unat s'))"
proof -
  note step = bitfield_window_step [OF assms(1)]
  have small: "\<not> 8 \<le> (1 :: u32)" "1 \<le> (2 :: u32)" "1 \<le> (4 :: u32)" "1 \<le> (8 :: u32)"
    by (simp_all add: word_le_nat_alt)
  have s8: "bitfield_window off n 8 = Some (Inl (- E2BIG)) \<and> \<not> fits (unat off) (unat n) 8 \<or>
    bitfield_window off n 8 = Some (Inr (byte_window off 8, 8)) \<and> fits (unat off) (unat n) 8"
    using step [of 8] by auto
  show ?thesis
    using assms(2) s8 step [of 1] step [of 2] step [of 4] by (auto simp: small split: if_splits)
qed

section \<open>Shifting out a field\<close>

lemma le_val_drop: "le_val (drop i m) = le_val m div 256 ^ i"
proof (induction i arbitrary: m)
  case (Suc i)
  show ?case
  proof (cases m)
    case (Cons b bs)
    then show ?thesis using Suc [of bs] by (simp add: div_mult2_eq)
  qed simp
qed simp

lemma le_val_take: "le_val (take i m) = le_val m mod 256 ^ i"
proof (cases "i \<le> length m")
  case True
  have "le_val m = le_val (take i m) + 256 ^ i * le_val (drop i m)"
    using le_val_append [of "take i m" "drop i m"] True by simp
  moreover have "le_val (take i m) < 256 ^ i" using le_val_bound [of "take i m"] True by simp
  ultimately show ?thesis by simp
next
  case False
  then have "(256 :: nat) ^ length m \<le> 256 ^ i" by (simp add: power_increasing)
  with le_val_bound [of m] have "le_val m < 256 ^ i" by (rule order_less_le_trans)
  then show ?thesis using False by simp
qed

lemma power_256: "(256 :: nat) ^ i = 2 ^ (8 * i)"
  by (simp add: power_mult)

lemma le_val_piece: "le_val (take s (drop i m)) = take_bit (8 * s) (drop_bit (8 * i) (le_val m))"
  by (simp add: le_val_take le_val_drop take_bit_eq_mod drop_bit_eq_div power_256)

lemma shift_out:
  fixes w :: u64
  assumes "o' + n \<le> 64" "0 < n"
  shows "drop_bit (64 - n) (push_bit (64 - (o' + n)) w) = take_bit n (drop_bit o' w)"
  by (rule bit_word_eqI) (use assms in \<open>auto simp: bit_simps ac_simps\<close>)

lemma field_of_window:
  assumes "o' + n \<le> 8 * s" "s \<le> 8" "0 < n"
  shows "drop_bit (64 - n) (push_bit (64 - (o' + n)) (of_nat (le_val (take s (drop i m))) :: u64)) =
    of_nat (take_bit n (drop_bit (8 * i + o') (le_val m)))"
proof -
  let ?v = "drop_bit (8 * i) (le_val m)"
  have "drop_bit (64 - n) (push_bit (64 - (o' + n)) (of_nat (take_bit (8 * s) ?v) :: u64)) =
      take_bit n (drop_bit o' (of_nat (take_bit (8 * s) ?v)))"
    using assms by (intro shift_out) linarith+
  also have "\<dots> = of_nat (take_bit n (drop_bit o' ?v))"
    by (rule bit_word_eqI) (use assms in \<open>auto simp: bit_simps bit_of_nat_iff_bit ac_simps\<close>)
  also have "drop_bit o' ?v = drop_bit (8 * i + o') (le_val m)" by (simp add: add.commute)
  finally show ?thesis by (simp only: le_val_piece)
qed

section \<open>The relocations of a bit field\<close>

text \<open>The spec leads to a member with a bit field size of \<open>n\<close>, of a type of \<open>s\<close> bytes.\<close>

definition bitfield_of :: "bpf_core_spec \<Rightarrow> u32 \<Rightarrow> u32 \<Rightarrow> bool" where
  "bitfield_of spec n s \<longleftrightarrow> sp_spec spec \<noteq> [] \<and> (\<exists>t m mt field_type_id.
     let acc = last (sp_spec spec) in
     acc_name acc \<noteq> None \<and> the_type (sp_btf spec) (acc_type_id acc) = Some t \<and>
     btf_members t (unat (acc_idx acc)) = Some m \<and>
     btf_member_bitfield_size t (unat (acc_idx acc)) = Some n \<and>
     skip_mods_and_typedefs (sp_btf spec) (mb_type m) = Some (mt, field_type_id) \<and> t_size mt = Some s)"

definition bitfield_val :: "bpf_core_relo_kind \<Rightarrow> u32 \<Rightarrow> u32 \<Rightarrow> u32 \<Rightarrow> u32 \<Rightarrow> u32" where
  "bitfield_val kind bit_off bit_sz byte_off byte_sz =
     (if kind = BPF_FIELD_BYTE_OFFSET then byte_off else if kind = BPF_FIELD_BYTE_SIZE then byte_sz
      else if kind = BPF_FIELD_LSHIFT_U64 then 64 - (bit_off + bit_sz - byte_off * 8) else 64 - bit_sz)"

abbreviation (input) bitfield_kinds :: "bpf_core_relo_kind set" where
  "bitfield_kinds \<equiv> {BPF_FIELD_BYTE_OFFSET, BPF_FIELD_BYTE_SIZE, BPF_FIELD_LSHIFT_U64, BPF_FIELD_RSHIFT_U64}"

lemma the_type_some: "the_type bs i = Some t \<longleftrightarrow> btf__type_by_id bs i = Some (Some t)"
  by (auto simp: the_type_def bind_eq_Some_conv)

lemma calc_bitfield_relo:
  assumes "bitfield_of spec n s" "n \<noteq> 0" "kind \<in> bitfield_kinds"
    "bitfield_window (sp_bit_offset spec) n s = Some w"
  shows "\<exists>out'. bpf_core_calc_field_relo kind (Some spec) out = Some (case w of Inl err \<Rightarrow> err | Inr _ \<Rightarrow> 0, out') \<and>
    (case w of Inl _ \<Rightarrow> True
     | Inr (byte_off, byte_sz) \<Rightarrow> fo_val out' = bitfield_val kind (sp_bit_offset spec) n byte_off byte_sz)"
proof -
  have n: "0 < n" using assms(2) by (simp add: word_gt_0)
  obtain t m mt fid where f: "sp_spec spec \<noteq> []" "acc_name (last (sp_spec spec)) \<noteq> None"
    "btf__type_by_id (sp_btf spec) (acc_type_id (last (sp_spec spec))) = Some (Some t)"
    "btf_members t (unat (acc_idx (last (sp_spec spec)))) = Some m"
    "btf_member_bitfield_size t (unat (acc_idx (last (sp_spec spec)))) = Some n"
    "skip_mods_and_typedefs (sp_btf spec) (mb_type m) = Some (mt, fid)" "t_size mt = Some s"
    using assms(1) by (auto simp: bitfield_of_def Let_def the_type_some)
  show ?thesis
    using assms(3) n
    by (cases w) (auto simp: bpf_core_calc_field_relo_def f assms(4) bitfield_val_def is_host_big_endian_def
        split: prod.splits)
qed

lemma shift_amounts:
  assumes "fits (unat off) (unat n) (unat s)" "s \<in> {1, 2, 4, 8}" "unat off + unat n < 2 ^ 32"
  shows "unat (64 - n) = 64 - unat n"
    "unat (64 - (off + n - byte_window off s * 8)) = 64 - (unat off mod (8 * unat s) + unat n)"
    "8 * unat (byte_window off s) + unat off mod (8 * unat s) = unat off"
    "unat off mod (8 * unat s) + unat n \<le> 8 * unat s" "unat s \<le> 8"
proof -
  let ?b = "byte_window off s" and ?o = "unat off mod (8 * unat s)"
  show s8: "unat s \<le> 8" using assms(2) by auto
  show f: "?o + unat n \<le> 8 * unat s" using assms(1) by (simp add: fits_def)
  have b8: "8 * unat ?b = unat off - ?o" by (rule byte_window_bits)
  have o_le: "?o \<le> unat off" by simp
  then show b: "8 * unat ?b + ?o = unat off" using b8 by linarith
  have u8: "unat (?b * 8) = 8 * unat ?b" using b assms(3) by (simp add: unat_word_ariths)
  have add: "unat (off + n) = unat off + unat n" using assms(3) by (simp add: unat_word_ariths)
  have n64: "unat n \<le> 64" using f s8 by linarith
  then show "unat (64 - n) = 64 - unat n" by (simp add: unat_sub word_le_nat_alt)
  have "?b * 8 \<le> off + n" using b by (simp only: word_le_nat_alt u8 add)
  then have sub: "unat (off + n - ?b * 8) = ?o + unat n" using b by (simp only: unat_sub u8 add)
  then have "off + n - ?b * 8 \<le> 64" using f s8 by (simp only: word_le_nat_alt) simp
  then show "unat (64 - (off + n - ?b * 8)) = 64 - (?o + unat n)" by (simp add: unat_sub sub)
qed

lemma byte_window_aligned: "byte_window off s mod s = 0"
proof -
  have "unat (byte_window off s) mod unat s = 0" by (simp add: unat_byte_window)
  then show ?thesis by (metis unat_eq_0 unat_mod)
qed

text \<open>
  C32. For a bit field of a structure, either it crosses a boundary of 64 bits and all relocations
  answer \<open>-E2BIG\<close>, or the relocated offset and size describe an aligned load of 1, 2, 4 or 8 bytes,
  and shifting the loaded value left and right by the relocated amounts yields exactly the bits of
  the field in memory.
\<close>

theorem bitfield_relocation:
  assumes "bitfield_of spec n s" "n \<noteq> 0" "s \<in> {1, 2, 4, 8}" "unat (sp_bit_offset spec) + unat n < 2 ^ 32"
  shows "(\<forall>kind \<in> {BPF_FIELD_BYTE_OFFSET, BPF_FIELD_BYTE_SIZE, BPF_FIELD_LSHIFT_U64, BPF_FIELD_RSHIFT_U64}.
      \<exists>out'. bpf_core_calc_field_relo kind (Some spec) out = Some (- E2BIG, out')) \<and>
    unat (sp_bit_offset spec) div 64 \<noteq> (unat (sp_bit_offset spec) + unat n - 1) div 64 \<or>
    (\<exists>o1 o2 o3 o4.
      bpf_core_calc_field_relo BPF_FIELD_BYTE_OFFSET (Some spec) out = Some (0, o1) \<and>
      bpf_core_calc_field_relo BPF_FIELD_BYTE_SIZE (Some spec) out = Some (0, o2) \<and>
      bpf_core_calc_field_relo BPF_FIELD_LSHIFT_U64 (Some spec) out = Some (0, o3) \<and>
      bpf_core_calc_field_relo BPF_FIELD_RSHIFT_U64 (Some spec) out = Some (0, o4) \<and>
      fo_val o2 \<in> {1, 2, 4, 8} \<and> s \<le> fo_val o2 \<and> fo_val o1 mod fo_val o2 = 0 \<and>
      (\<forall>mem bs. ldn mem (unat (fo_val o1)) (unat (fo_val o2)) = Some bs \<longrightarrow>
        drop_bit (unat (fo_val o4)) (push_bit (unat (fo_val o3)) (of_nat (le_val bs) :: u64)) =
        of_nat (take_bit (unat n) (drop_bit (unat (sp_bit_offset spec)) (le_val mem)))))"
proof -
  let ?off = "sp_bit_offset spec"
  have n0: "0 < unat n" using assms(2) by (simp add: unat_gt_0)
  note calc = calc_bitfield_relo [OF assms(1,2)]
  consider (no) "bitfield_window ?off n s = Some (Inl (- E2BIG))" "\<not> fits (unat ?off) (unat n) 8"
    | (yes) s' where "s' \<in> {1, 2, 4, 8}" "s \<le> s'" "bitfield_window ?off n s = Some (Inr (byte_window ?off s', s'))"
      "fits (unat ?off) (unat n) (unat s')"
    using bitfield_window_result [OF assms(4,3)] by blast
  then show ?thesis
  proof cases
    case no
    have "\<exists>out'. bpf_core_calc_field_relo kind (Some spec) out = Some (- E2BIG, out')"
      if "kind \<in> bitfield_kinds" for kind
      using calc [OF that no(1)] by simp
    then show ?thesis using no(2) fits_block [OF n0, of 8 "unat ?off"] by simp
  next
    case (yes s')
    note amounts = shift_amounts [OF yes(4,1) assms(4)]
    have val: "\<exists>o'. bpf_core_calc_field_relo kind (Some spec) out = Some (0, o') \<and>
        fo_val o' = bitfield_val kind ?off n (byte_window ?off s') s'" if "kind \<in> bitfield_kinds" for kind
      using calc [OF that yes(3)] by simp
    obtain o1 o2 o3 o4 where o: "bpf_core_calc_field_relo BPF_FIELD_BYTE_OFFSET (Some spec) out = Some (0, o1)"
      "bpf_core_calc_field_relo BPF_FIELD_BYTE_SIZE (Some spec) out = Some (0, o2)"
      "bpf_core_calc_field_relo BPF_FIELD_LSHIFT_U64 (Some spec) out = Some (0, o3)"
      "bpf_core_calc_field_relo BPF_FIELD_RSHIFT_U64 (Some spec) out = Some (0, o4)"
      and v: "fo_val o1 = byte_window ?off s'" "fo_val o2 = s'"
        "fo_val o3 = 64 - (?off + n - byte_window ?off s' * 8)" "fo_val o4 = 64 - n"
      using val [of BPF_FIELD_BYTE_OFFSET] val [of BPF_FIELD_BYTE_SIZE] val [of BPF_FIELD_LSHIFT_U64]
        val [of BPF_FIELD_RSHIFT_U64] by (auto simp: bitfield_val_def)
    have "drop_bit (unat (fo_val o4)) (push_bit (unat (fo_val o3)) (of_nat (le_val bs) :: u64)) =
        of_nat (take_bit (unat n) (drop_bit (unat ?off) (le_val mem)))"
      if "ldn mem (unat (fo_val o1)) (unat (fo_val o2)) = Some bs" for mem bs
    proof -
      have "bs = take (unat s') (drop (unat (byte_window ?off s')) mem)"
        using that by (simp only: v ldn_Some_iff)
      then show ?thesis
        using field_of_window [OF amounts(4,5) n0, of "unat (byte_window ?off s')" mem]
        by (simp only: v amounts(1-3))
    qed
    moreover have "fo_val o2 \<in> {1, 2, 4, 8}" "s \<le> fo_val o2" "fo_val o1 mod fo_val o2 = 0"
      using yes(1,2) byte_window_aligned [of ?off s'] by (simp_all only: v)
    ultimately show ?thesis
      using o by (intro disjI2 exI conjI allI impI) simp_all
  qed
qed

text \<open>\<open>struct s { int :3; int f:10; }\<close>: the field needs a load of two bytes.\<close>

definition flag_types :: bytes where
  "flag_types = [
     1, 0, 0, 0, 0, 0, 0, 1, 1, 0, 0, 0, 8, 0, 0, 0,
     5, 0, 0, 0, 1, 0, 0, 0x84, 4, 0, 0, 0, 7, 0, 0, 0, 1, 0, 0, 0, 3, 0, 0, 10]"

definition flag_obj :: btf where
  "flag_obj = zero_btf\<lparr>b_types_data := (flag_types, 0), b_type_offs := [0, 0, 0, 0, 16, 0, 0, 0],
     b_nr_types := 2, b_start_id := 1\<rparr>"

definition flag_spec :: bpf_core_spec where
  "flag_spec = (empty_spec [flag_obj] 2 BPF_FIELD_BYTE_OFFSET)\<lparr>sp_spec :=
     [\<lparr>acc_type_id = 2, acc_idx = 0, acc_name = None\<rparr>, \<lparr>acc_type_id = 2, acc_idx = 0, acc_name = Some (chars ''f'')\<rparr>],
     sp_raw_spec := [0, 0], sp_bit_offset := 3\<rparr>"

lemma flag_types_by_id:
  "btf__type_by_id [flag_obj] 1 = Some (Some (Btf_at flag_types 0))"
  "btf__type_by_id [flag_obj] 2 = Some (Some (Btf_at flag_types 16))"
  by (simp_all add: btf__type_by_id_def btf_type_by_id.simps flag_obj_def zero_btf_def ld32_def ldn_def word_le_nat_alt)

lemma flag_struct:
  "btf_members (Btf_at flag_types 16) 0 = Some \<lparr>mb_name_off = 7, mb_type = 1, mb_offset = 0x0a000003\<rparr>"
  "btf_kflag (Btf_at flag_types 16) = Some True" "btf_kind (Btf_at flag_types 0) = Some BTF_KIND_INT"
  "t_size (Btf_at flag_types 0) = Some 1"
  by (simp_all add: btf_members_def btf_kflag_def btf_kind_def t_info_def t_size_def flag_types_def ld32_def ldn_def
      BTF_INFO_KFLAG_def BTF_INFO_KIND_def)

lemma flag_bitfield: "bitfield_of flag_spec 10 1"
proof -
  have "skip_mods_and_typedefs [flag_obj] 1 = Some (Btf_at flag_types 0, 1)"
    by (simp add: skip_mods_and_typedefs_def skip_mods_loop.simps flag_types_by_id btf_is_mod_def btf_is_typedef_def flag_struct)
  moreover have "btf_member_bitfield_size (Btf_at flag_types 16) 0 = Some 10"
    by (simp add: btf_member_bitfield_size_def flag_struct BTF_MEMBER_BITFIELD_SIZE_def)
  ultimately show ?thesis
    by (simp add: bitfield_of_def flag_spec_def empty_spec_def Let_def the_type_some flag_types_by_id flag_struct)
qed

theorem bitfield_relocation_witness:
  "(\<forall>kind \<in> {BPF_FIELD_BYTE_OFFSET, BPF_FIELD_BYTE_SIZE, BPF_FIELD_LSHIFT_U64, BPF_FIELD_RSHIFT_U64}.
      \<exists>out'. bpf_core_calc_field_relo kind (Some flag_spec) fresh_out = Some (- E2BIG, out')) \<and>
    unat (sp_bit_offset flag_spec) div 64 \<noteq> (unat (sp_bit_offset flag_spec) + unat (10 :: u32) - 1) div 64 \<or>
    (\<exists>o1 o2 o3 o4.
      bpf_core_calc_field_relo BPF_FIELD_BYTE_OFFSET (Some flag_spec) fresh_out = Some (0, o1) \<and>
      bpf_core_calc_field_relo BPF_FIELD_BYTE_SIZE (Some flag_spec) fresh_out = Some (0, o2) \<and>
      bpf_core_calc_field_relo BPF_FIELD_LSHIFT_U64 (Some flag_spec) fresh_out = Some (0, o3) \<and>
      bpf_core_calc_field_relo BPF_FIELD_RSHIFT_U64 (Some flag_spec) fresh_out = Some (0, o4) \<and>
      fo_val o2 \<in> {1, 2, 4, 8} \<and> 1 \<le> fo_val o2 \<and> fo_val o1 mod fo_val o2 = 0 \<and>
      (\<forall>mem bs. ldn mem (unat (fo_val o1)) (unat (fo_val o2)) = Some bs \<longrightarrow>
        drop_bit (unat (fo_val o4)) (push_bit (unat (fo_val o3)) (of_nat (le_val bs) :: u64)) =
        of_nat (take_bit (unat (10 :: u32)) (drop_bit (unat (sp_bit_offset flag_spec)) (le_val mem)))))"
  by (rule bitfield_relocation [OF flag_bitfield]) (simp_all add: flag_spec_def)

end
