(* ===== verification/Relo_Match.thy ===== *)
theory Relo_Match
  imports Relo_Insn
begin

text \<open>
  Specs stay inside their arrays of 64 entries, the accessor at hand is always the last one recorded,
  and the search for a member does not nest deeper than 65 calls.
\<close>

section \<open>Properties of results\<close>

text \<open>What a computation returns satisfies \<open>P\<close> when it stays inside the objects.\<close>

definition if_safe :: "'a option \<Rightarrow> ('a \<Rightarrow> bool) \<Rightarrow> bool" where
  "if_safe x P \<longleftrightarrow> (\<forall>r. x = Some r \<longrightarrow> P r)"

named_theorems safe_rules \<open>one rule for each construct of the monadic code\<close>

lemma if_safe_Some [safe_rules]: "P r \<Longrightarrow> if_safe (Some r) P"
  by (simp add: if_safe_def)

lemma if_safe_None [safe_rules]: "if_safe None P"
  by (simp add: if_safe_def)

lemma if_safe_bind [safe_rules]: "(\<And>a. x = Some a \<Longrightarrow> if_safe (f a) P) \<Longrightarrow> if_safe (x \<bind> f) P"
  by (auto simp: if_safe_def bind_eq_Some_conv)

lemma if_safe_if [safe_rules]:
  "(c \<Longrightarrow> if_safe x P) \<Longrightarrow> (\<not> c \<Longrightarrow> if_safe y P) \<Longrightarrow> if_safe (if c then x else y) P"
  by simp

lemma if_safe_let [safe_rules]: "if_safe (g v) P \<Longrightarrow> if_safe (let w = v in g w) P"
  by simp

lemma if_safe_option [safe_rules]:
  "(z = None \<Longrightarrow> if_safe x P) \<Longrightarrow> (\<And>a. z = Some a \<Longrightarrow> if_safe (y a) P) \<Longrightarrow>
    if_safe (case z of None \<Rightarrow> x | Some a \<Rightarrow> y a) P"
  by (cases z) auto

lemma if_safe_sum [safe_rules]:
  "(\<And>a. z = Inl a \<Longrightarrow> if_safe (l a) P) \<Longrightarrow> (\<And>a. z = Inr a \<Longrightarrow> if_safe (r a) P) \<Longrightarrow>
    if_safe (case z of Inl a \<Rightarrow> l a | Inr a \<Rightarrow> r a) P"
  by (cases z) auto

lemma if_safe_list [safe_rules]:
  "(z = [] \<Longrightarrow> if_safe x P) \<Longrightarrow> (\<And>a as. z = a # as \<Longrightarrow> if_safe (y a as) P) \<Longrightarrow>
    if_safe (case z of [] \<Rightarrow> x | a # as \<Rightarrow> y a as) P"
  by (cases z) auto

lemma if_safe_prod [safe_rules]:
  "(\<And>a b. z = (a, b) \<Longrightarrow> if_safe (f a b) P) \<Longrightarrow> if_safe (case z of (a, b) \<Rightarrow> f a b) P"
  by (cases z) auto

lemma if_safe_map [safe_rules]: "(\<And>a. x = Some a \<Longrightarrow> P (f a)) \<Longrightarrow> if_safe (map_option f x) P"
  by (auto simp: if_safe_def)

lemma if_safeD: "if_safe x P \<Longrightarrow> x = Some r \<Longrightarrow> P r"
  by (simp add: if_safe_def)

lemma if_safe_mono: "if_safe x Q \<Longrightarrow> (\<And>r. Q r \<Longrightarrow> P r) \<Longrightarrow> if_safe x P"
  by (auto simp: if_safe_def)

section \<open>Parsing\<close>

definition spec_in_bounds :: "bpf_core_spec \<Rightarrow> bool" where
  "spec_in_bounds spec \<longleftrightarrow> length (sp_raw_spec spec) \<le> 64 \<and> length (sp_spec spec) \<le> length (sp_raw_spec spec)"

lemma parse_raw_spec_bounded:
  "parse_raw_spec s raw = Some (Inr raw') \<Longrightarrow> length raw \<le> 64 \<Longrightarrow> length raw' \<le> 64"
proof (induction s raw rule: parse_raw_spec.induct)
  case (1 s raw)
  then show ?case
    by (subst (asm) (2) parse_raw_spec.simps) (auto split: if_splits option.splits)
qed

lemma parse_accessors_bounded:
  "if_safe (parse_accessors bs raw i spec) (\<lambda>(err, spec').
    sp_raw_spec spec' = sp_raw_spec spec \<and> length (sp_spec spec') \<le> length (sp_spec spec) + length raw)"
proof (induction raw arbitrary: i spec)
  case (Cons a raw)
  have step: "if_safe (parse_accessors bs raw i spec1) (\<lambda>(err, spec').
      sp_raw_spec spec' = sp_raw_spec spec \<and> length (sp_spec spec') \<le> length (sp_spec spec) + length (a # raw))"
    if "sp_raw_spec spec1 = sp_raw_spec spec" "length (sp_spec spec1) \<le> length (sp_spec spec) + 1" for i spec1
    by (rule if_safe_mono [OF Cons.IH]) (use that in auto)
  show ?case
    unfolding parse_accessors.simps by (intro safe_rules step) simp_all
qed (simp add: if_safe_def)

lemma parse_spec_bounded:
  "if_safe (bpf_core_parse_spec bs type_id s kind) (\<lambda>(err, spec). spec_in_bounds spec)"
proof -
  have accs: "if_safe (parse_accessors bs raw i sp) (\<lambda>(err, spec). spec_in_bounds spec)"
    if "sp_raw_spec sp = a # raw" "length (a # raw) \<le> 64" "length (sp_spec sp) = 1" for i sp a raw
    by (rule if_safe_mono [OF parse_accessors_bounded]) (use that in \<open>auto simp: spec_in_bounds_def\<close>)
  show ?thesis
    unfolding bpf_core_parse_spec_def
    by (intro safe_rules accs) (auto simp: spec_in_bounds_def empty_spec_def dest: parse_raw_spec_bounded)
qed

section \<open>Matching\<close>

text \<open>What a search for a member does to a spec: it adds an accessor exactly when it succeeds.\<close>

definition grown :: "bpf_core_spec \<Rightarrow> int \<Rightarrow> bpf_core_spec \<Rightarrow> bool" where
  "grown spec found spec' \<longleftrightarrow> length (sp_raw_spec spec) \<le> length (sp_raw_spec spec') \<and> length (sp_raw_spec spec') \<le> 64 \<and>
     (found \<le> 0 \<longrightarrow> length (sp_spec spec') = length (sp_spec spec)) \<and>
     (found > 0 \<longrightarrow> length (sp_spec spec') = length (sp_spec spec) + 1 \<and>
        length (sp_raw_spec spec) < length (sp_raw_spec spec'))"

definition grows :: "match_result option \<Rightarrow> bpf_core_spec \<Rightarrow> bool" where
  "grows r spec \<longleftrightarrow> if_safe r (\<lambda>(found, spec', nxt). grown spec found spec')"

lemma names_compat_bool: "if_safe (names_compat lb lt tb tt) (\<lambda>r. r = 0 \<or> r = 1)"
  unfolding names_compat_def by (intro safe_rules) auto

lemma fields_compat_bool:
  "bpf_core_fields_are_compat lb li tb ti = Some r \<Longrightarrow> r = 0 \<or> r = 1"
proof (erule bpf_core_fields_are_compat.raw_induct [rotated], goal_cases)
  case (1 f lb li tb ti r)
  have "if_safe (f lb x tb y) (\<lambda>r. r = 0 \<or> r = 1)" for x y
    using 1(1) by (auto simp: if_safe_def)
  note rules = safe_rules this names_compat_bool
  show ?case
    by (rule if_safeD [where P = "\<lambda>r. r = 0 \<or> r = 1", OF _ 1(2)]) (intro rules; simp)
qed

lemma match_members_grows:
  assumes deeper: "\<And>ty spec nxt. length (sp_raw_spec spec) \<le> 64 \<Longrightarrow> grows (deeper ty spec nxt) spec"
  shows "length (sp_raw_spec spec) \<le> 64 \<Longrightarrow>
    grows (match_members deeper lb lm ln tb tt ti is spec nxt) spec"
proof (induction "is" arbitrary: spec nxt)
  case (Cons i "is")
  let ?loop = "match_members deeper lb lm ln tb tt ti is"
  have loop: "grows (?loop spec' nxt) spec"
    if "length (sp_raw_spec spec) \<le> length (sp_raw_spec spec')" "length (sp_raw_spec spec') \<le> 64"
      "length (sp_spec spec') = length (sp_spec spec)" for spec' nxt
    unfolding grows_def
    by (rule if_safe_mono [OF Cons.IH [OF that(2), unfolded grows_def]]) (use that in \<open>auto simp: grown_def\<close>)
  have deep: "grown (push_raw a (add_bits b spec)) found spec'"
    if "deeper ty (push_raw a (add_bits b spec)) n = Some (found, spec', n')"
      "length (sp_raw_spec spec) \<noteq> 64" for ty n found spec' n' a b
    using if_safeD [OF deeper [of "push_raw a (add_bits b spec)" ty n, unfolded grows_def] that(1)] that(2) Cons.prems
    by simp
  show ?case
    unfolding match_members.simps grows_def
    by (intro safe_rules loop [unfolded grows_def])
      (use Cons.prems in \<open>auto simp: grown_def dest!: deep [simplified] dest: fields_compat_bool\<close>)
qed (auto simp: grows_def grown_def if_safe_def)

lemma match_member_grows:
  "length (sp_raw_spec spec) \<le> 64 \<Longrightarrow> grows (match_member n lb acc tb ti spec nxt) spec"
proof (induction n arbitrary: ti spec nxt)
  case (Suc n)
  have "grows (match_members (match_member n lb acc tb) lb lm ln tb tt tj is spec nxt) spec" for lm ln tt tj "is"
    by (rule match_members_grows [OF Suc.IH Suc.prems])
  note rules = safe_rules this [unfolded grows_def]
  show ?case
    unfolding match_member.simps grows_def by (intro rules) (use Suc.prems in \<open>simp add: grown_def\<close>)
qed (simp add: grows_def if_safe_def)

lemma match_members_cong:
  assumes deeper: "\<And>ty spec nxt. length (sp_raw_spec spec) \<le> 64 \<Longrightarrow> grows (d1 ty spec nxt) spec"
    and eq: "\<And>ty spec nxt. r < length (sp_raw_spec spec) \<Longrightarrow> length (sp_raw_spec spec) \<le> 64 \<Longrightarrow>
      d1 ty spec nxt = d2 ty spec nxt"
  shows "r \<le> length (sp_raw_spec spec) \<Longrightarrow> length (sp_raw_spec spec) \<le> 64 \<Longrightarrow>
    match_members d1 lb lm ln tb tt ti is spec nxt = match_members d2 lb lm ln tb tt ti is spec nxt"
proof (induction "is" arbitrary: spec nxt)
  case (Cons i "is")
  show ?case
  proof (cases "length (sp_raw_spec spec) = 64")
    case False
    then have lt: "length (sp_raw_spec spec) < 64" using Cons.prems(2) by simp
    let ?push = "\<lambda>b. push_raw (int i) (add_bits b spec)"
    have d: "d1 ty (?push b) nxt = d2 ty (?push b) nxt" for ty b
      by (rule eq) (use lt Cons.prems(1) in simp_all)
    have "match_members d1 lb lm ln tb tt ti is (pop_raw b spec') n = match_members d2 lb lm ln tb tt ti is (pop_raw b spec') n"
      if "d2 ty (?push b') nxt = Some (found, spec', n)" for b b' ty found spec' n
    proof -
      have "grown (?push b') found spec'"
        using if_safeD [OF deeper [of "?push b'" ty nxt, unfolded grows_def]] lt that d [of ty b'] by simp
      then show ?thesis using Cons.prems(1) by (intro Cons.IH) (auto simp: grown_def)
    qed
    moreover have "match_members d1 lb lm ln tb tt ti is (pop_raw b (?push b)) nxt =
        match_members d2 lb lm ln tb tt ti is (pop_raw b (?push b)) nxt" for b
      using Cons.prems by (intro Cons.IH) simp_all
    ultimately show ?thesis
      by (auto simp: Let_def d [simplified] intro!: Option.bind_cong [OF refl])
  qed (simp cong: Option.bind_cong)
qed simp

text \<open>The depth allowed is enough.\<close>

lemma match_member_fuel:
  "length (sp_raw_spec spec) \<le> 64 \<Longrightarrow> 65 \<le> n + length (sp_raw_spec spec) \<Longrightarrow>
    match_member (Suc n) lb acc tb ti spec nxt = match_member n lb acc tb ti spec nxt"
proof (induction n arbitrary: ti spec nxt)
  case (Suc n)
  have "match_members (match_member (Suc n) lb acc tb) lb lm ln tb tt tj is spec nxt =
      match_members (match_member n lb acc tb) lb lm ln tb tt tj is spec nxt" for lm ln tt tj "is"
  proof (rule match_members_cong [where r = "length (sp_raw_spec spec)"])
    fix ty and spec' :: bpf_core_spec and nxt
    show "length (sp_raw_spec spec') \<le> 64 \<Longrightarrow> grows (match_member (Suc n) lb acc tb ty spec' nxt) spec'"
      by (rule match_member_grows)
    show "match_member (Suc n) lb acc tb ty spec' nxt = match_member n lb acc tb ty spec' nxt"
      if "length (sp_raw_spec spec) < length (sp_raw_spec spec')" "length (sp_raw_spec spec') \<le> 64"
      using that Suc.prems by (intro Suc.IH) linarith+
  qed (use Suc.prems in simp_all)
  then show ?case by (simp only: match_member.simps)
qed simp

text \<open>Each local accessor adds one to the target's, so the last of them is the one before \<open>targ_acc\<close>.\<close>

lemma match_accessors_bounded:
  "spec_in_bounds spec \<Longrightarrow> if_safe (match_accessors lb tb first accs ti spec)
    (\<lambda>(err, spec'). spec_in_bounds spec' \<and> (err > 0 \<longrightarrow> length (sp_spec spec') = length (sp_spec spec) + length accs))"
proof (induction accs arbitrary: first ti spec)
  case (Cons acc accs)
  let ?goal = "\<lambda>(err, spec'). spec_in_bounds spec' \<and>
    (err > 0 \<longrightarrow> length (sp_spec spec') = length (sp_spec spec) + length (acc # accs))"
  have rest: "if_safe (match_accessors lb tb False accs ti spec1) ?goal"
    if "spec_in_bounds spec1" "length (sp_spec spec1) = length (sp_spec spec) + 1" for ti spec1
    by (rule if_safe_mono [OF Cons.IH [OF that(1)]]) (use that in auto)
  have matched: "grown spec found spec'"
    if "bpf_core_match_member lb acc tb ti spec nxt = Some (found, spec', n)" for ti nxt found spec' n
    using if_safeD [OF match_member_grows [of spec, unfolded grows_def] that [unfolded bpf_core_match_member_def]]
      Cons.prems by (simp add: spec_in_bounds_def)
  show ?case
    unfolding match_accessors.simps
    by (intro safe_rules rest) (use Cons.prems in \<open>auto simp: spec_in_bounds_def grown_def dest!: matched\<close>)
qed (simp add: if_safe_def)

lemma match_enumval_bounded:
  "spec_in_bounds spec \<Longrightarrow> length (sp_raw_spec spec) < 64 \<Longrightarrow>
    if_safe (match_enumval acc tb tt ti is spec) (\<lambda>(err, spec'). spec_in_bounds spec')"
proof (induction "is")
  case (Cons i "is")
  note rules = safe_rules Cons.IH [OF Cons.prems]
  show ?case
    unfolding match_enumval.simps by (intro rules) (use Cons.prems in \<open>simp_all add: spec_in_bounds_def\<close>)
qed (simp add: if_safe_def)

lemma spec_match_bounded:
  "if_safe (bpf_core_spec_match n local_spec tb ti) (\<lambda>(err, spec). spec_in_bounds spec)"
proof -
  have empty: "spec_in_bounds (empty_spec tb ti k)" "length (sp_raw_spec (empty_spec tb ti k)) < 64" for k
    by (simp_all add: spec_in_bounds_def empty_spec_def)
  have accs: "if_safe (match_accessors lb tb b accs ti' (empty_spec tb ti k)) (\<lambda>(err, spec). spec_in_bounds spec)"
    for lb b accs ti' k
    by (rule if_safe_mono [OF match_accessors_bounded [OF empty(1)]]) auto
  note rules = safe_rules accs match_enumval_bounded [OF empty]
  show ?thesis
    unfolding bpf_core_spec_match_def by (intro rules) (simp_all add: empty)
qed

end
