(* ===== verification/Relo_Safety.thy ===== *)
theory Relo_Safety
  imports Relo_Match
begin

text \<open>
  What relocating an instruction changes: nothing but the instruction, whose operand becomes the value
  on which all matching candidates agree, unless it is made invalid.
\<close>

section \<open>One instruction\<close>















text \<open>
  The check of a 64-bit constant against the expected value sign-extends the low half: the constant
  2147483648 is refused, and 6442450944 is taken for it.
\<close>

definition load_imm64 :: "u32 \<Rightarrow> u32 \<Rightarrow> bpf_insn list" where
  "load_imm64 lo hi = [\<lparr>i_code = 0x18, dst_reg = 1, src_reg = 0, i_off = 0, i_imm = lo\<rparr>,
     \<lparr>i_code = 0, dst_reg = 0, src_reg = 0, i_off = 0, i_imm = hi\<rparr>]"

lemma ldimm64_refused:
  "bpf_core_patch_insn (load_imm64 0x80000000 0) 0 (zero_res\<lparr>res_orig_val := 0x80000000\<rparr>) =
    Some (- EINVAL, load_imm64 0x80000000 0)"
  by (simp add: bpf_core_patch_insn_def insn_at_def load_imm64_def BPF_CLASS_def zero_res_def patch_ldimm64_def
      is_ldimm64_insn_def)

lemma ldimm64_mistaken:
  "bpf_core_patch_insn (load_imm64 0x80000000 1) 0 (zero_res\<lparr>res_orig_val := 0x80000000\<rparr>) =
    Some (0, load_imm64 0 0)"
  by (simp add: bpf_core_patch_insn_def insn_at_def load_imm64_def BPF_CLASS_def zero_res_def patch_ldimm64_def
      is_ldimm64_insn_def)

section \<open>All candidates\<close>








section \<open>A sample relocation\<close>

























end
