(* ===== verification/Btf_Ext.thy ===== *)
theory Btf_Ext
  imports Core_Types
begin

text \<open>
  The \<open>.BTF.ext\<close> section of an object file, \<open>struct btf_ext\<close> of \<open>libbpf_internal.h\<close> and its functions in
  \<open>btf.c\<close>: tables of records on functions, lines and CO-RE relocations, each cut into one part for each
  ELF section. A pointer into the section is an offset in its bytes.
\<close>

section \<open>The object\<close>

record btf_ext_info =
  ei_info :: nat
  ei_rec_size :: u32
  ei_len :: u32

record btf_ext =
  e_data :: bytes
  e_func_info :: btf_ext_info
  e_line_info :: btf_ext_info
  e_core_relo_info :: btf_ext_info
  e_data_size :: u32

definition zero_info :: btf_ext_info where
  "zero_info = \<lparr>ei_info = 0, ei_rec_size = 0, ei_len = 0\<rparr>"

text \<open>The members of \<open>struct btf_ext_header\<close> that the functions read.\<close>

definition eh_magic :: "bytes \<Rightarrow> u16 option" where "eh_magic d = ld16 d 0"
definition eh_version :: "bytes \<Rightarrow> u8 option" where "eh_version d = ld8 d 2"
definition eh_flags :: "bytes \<Rightarrow> u8 option" where "eh_flags d = ld8 d 3"
definition eh_hdr_len :: "bytes \<Rightarrow> u32 option" where "eh_hdr_len d = ld32 d 4"
definition eh_func_info_off :: "bytes \<Rightarrow> u32 option" where "eh_func_info_off d = ld32 d 8"
definition eh_func_info_len :: "bytes \<Rightarrow> u32 option" where "eh_func_info_len d = ld32 d 12"
definition eh_line_info_off :: "bytes \<Rightarrow> u32 option" where "eh_line_info_off d = ld32 d 16"
definition eh_line_info_len :: "bytes \<Rightarrow> u32 option" where "eh_line_info_len d = ld32 d 20"
definition eh_core_relo_off :: "bytes \<Rightarrow> u32 option" where "eh_core_relo_off d = ld32 d 24"
definition eh_core_relo_len :: "bytes \<Rightarrow> u32 option" where "eh_core_relo_len d = ld32 d 28"

lemmas eh_defs = eh_magic_def eh_version_def eh_flags_def eh_hdr_len_def eh_func_info_off_def eh_func_info_len_def
  eh_line_info_off_def eh_line_info_len_def eh_core_relo_off_def eh_core_relo_len_def

text \<open>The members of \<open>struct btf_ext_info_sec\<close> at \<open>p\<close>; its records start behind them.\<close>

definition sizeof_btf_ext_info_sec :: nat where "sizeof_btf_ext_info_sec = 8"
definition es_sec_name_off :: "bytes \<Rightarrow> nat \<Rightarrow> u32 option" where "es_sec_name_off d p = ld32 d p"
definition es_num_info :: "bytes \<Rightarrow> nat \<Rightarrow> u32 option" where "es_num_info d p = ld32 d (p + 4)"

section \<open>Checking the tables\<close>

definition btf_ext_parse_hdr :: "bytes \<Rightarrow> u32 \<Rightarrow> int option" where
  "btf_ext_parse_hdr d data_size =
     (if data_size < 8 then Some (- EINVAL)
      else do {
        hdr_len \<leftarrow> eh_hdr_len d;
        if data_size < hdr_len then Some (- EINVAL)
        else do {
          magic \<leftarrow> eh_magic d;
          if magic = bswap_16 BTF_MAGIC then Some (- ENOTSUP)
          else if magic \<noteq> BTF_MAGIC then Some (- EINVAL)
          else do {
            version \<leftarrow> eh_version d;
            if version \<noteq> BTF_VERSION then Some (- ENOTSUP)
            else do {
              flags \<leftarrow> eh_flags d;
              if flags \<noteq> 0 then Some (- ENOTSUP)
              else if data_size = hdr_len then Some (- EINVAL)
              else Some 0
            }
          }
        }
      })"

lemma unat_ucast_back: "unat (t :: u64) \<le> unat (a :: u32) \<Longrightarrow> unat (ucast t :: u32) = unat t"
  using unsigned_less [where ?'a = nat and w = a] by (simp add: unsigned_ucast_eq take_bit_nat_eq_self)

lemma part_size: "unat (of_nat sizeof_btf_ext_info_sec + ucast (a :: u32) * ucast (b :: u32) :: u64) = 8 + unat a * unat b"
proof -
  have "unat a * unat b \<le> (2 ^ 32 - 1) * (2 ^ 32 - 1)"
    using unsigned_less [where ?'a = nat and w = a] unsigned_less [where ?'a = nat and w = b]
    by (intro mult_le_mono) simp_all
  then show ?thesis
    by (simp add: sizeof_btf_ext_info_sec_def unat_word_ariths unat_ucast_u64 mod_less)
qed

text \<open>The loop of \<open>btf_ext_setup_info\<close> over the sections of a table.\<close>

function check_secs :: "bytes \<Rightarrow> u32 \<Rightarrow> nat \<Rightarrow> u32 \<Rightarrow> int option" where
  "check_secs d record_size sinfo info_left =
     (if info_left = 0 then Some 0
      else if info_left < of_nat sizeof_btf_ext_info_sec then Some (- EINVAL)
      else do {
        num_records \<leftarrow> es_num_info d sinfo;
        if num_records = 0 then Some (- EINVAL)
        else
          let total_record_size = of_nat sizeof_btf_ext_info_sec + ucast num_records * ucast record_size :: u64 in
          if ucast info_left < total_record_size then Some (- EINVAL)
          else check_secs d record_size (sinfo + unat total_record_size) (info_left - ucast total_record_size)
      })"
  by pat_completeness auto
termination
proof (relation "measure (\<lambda>(d, record_size, sinfo, info_left). unat info_left)", goal_cases)
  case (2 d record_size sinfo info_left num total)
  have t: "unat total = 8 + unat num * unat record_size"
    unfolding 2(5) by (rule part_size)
  have le: "unat total \<le> unat info_left"
    using 2(6) by (simp add: word_less_nat_alt not_less unat_ucast_u64)
  then have "unat (ucast total :: u32) = unat total" by (rule unat_ucast_back)
  then show ?case using t le by (simp add: unat_sub word_le_nat_alt)
qed simp

definition btf_ext_setup_info :: "btf_ext \<Rightarrow> u32 \<Rightarrow> u32 \<Rightarrow> u32 \<Rightarrow> btf_ext_info \<Rightarrow> (int \<times> btf_ext_info) option" where
  "btf_ext_setup_info ext off len min_rec_size ext_info =
     (if len = 0 then Some (0, ext_info)
      else if off AND 0x03 \<noteq> 0 then Some (- EINVAL, ext_info)
      else do {
        hdr_len \<leftarrow> eh_hdr_len (e_data ext);
        let info = unat hdr_len + unat off;
        if unat (e_data_size ext) < info + unat len then Some (- EINVAL, ext_info)
        else if len < 4 then Some (- EINVAL, ext_info)
        else do {
          record_size \<leftarrow> ld32 (e_data ext) info;
          if record_size < min_rec_size \<or> record_size AND 0x03 \<noteq> 0 then Some (- EINVAL, ext_info)
          else
            let info_left = len - 4 in
            if info_left = 0 then Some (- EINVAL, ext_info)
            else do {
              err \<leftarrow> check_secs (e_data ext) record_size (info + 4) info_left;
              if err \<noteq> 0 then Some (err, ext_info)
              else Some (0, \<lparr>ei_info = info + 4, ei_rec_size = record_size, ei_len = len - 4\<rparr>)
            }
        }
      })"

definition btf_ext_setup_func_info :: "btf_ext \<Rightarrow> (int \<times> btf_ext) option" where
  "btf_ext_setup_func_info ext = do {
     off \<leftarrow> eh_func_info_off (e_data ext);
     len \<leftarrow> eh_func_info_len (e_data ext);
     (err, info) \<leftarrow> btf_ext_setup_info ext off len 8 (e_func_info ext);
     Some (err, ext\<lparr>e_func_info := info\<rparr>)
   }"

definition btf_ext_setup_line_info :: "btf_ext \<Rightarrow> (int \<times> btf_ext) option" where
  "btf_ext_setup_line_info ext = do {
     off \<leftarrow> eh_line_info_off (e_data ext);
     len \<leftarrow> eh_line_info_len (e_data ext);
     (err, info) \<leftarrow> btf_ext_setup_info ext off len 16 (e_line_info ext);
     Some (err, ext\<lparr>e_line_info := info\<rparr>)
   }"

definition btf_ext_setup_core_relos :: "btf_ext \<Rightarrow> (int \<times> btf_ext) option" where
  "btf_ext_setup_core_relos ext = do {
     off \<leftarrow> eh_core_relo_off (e_data ext);
     len \<leftarrow> eh_core_relo_len (e_data ext);
     (err, info) \<leftarrow> btf_ext_setup_info ext off len 16 (e_core_relo_info ext);
     Some (err, ext\<lparr>e_core_relo_info := info\<rparr>)
   }"

text \<open>Whether the two allocations succeed, the data and its length; what is allocated is freed on an error.\<close>

definition btf_ext__new :: "bool \<Rightarrow> bool \<Rightarrow> bytes \<Rightarrow> u32 \<Rightarrow> (int + btf_ext) option" where
  "btf_ext__new al_ext al_data data data_sz = do {
     err \<leftarrow> btf_ext_parse_hdr data data_sz;
     if err \<noteq> 0 then Some (Inl err)
     else if \<not> al_ext \<or> \<not> al_data then Some (Inl (- ENOMEM))
     else do {
       copy \<leftarrow> ldn data 0 (unat data_sz);
       let ext = \<lparr>e_data = copy, e_func_info = zero_info, e_line_info = zero_info, e_core_relo_info = zero_info,
         e_data_size = data_sz\<rparr>;
       hdr_len \<leftarrow> eh_hdr_len (e_data ext);
       if hdr_len < 24 then Some (Inl (- EINVAL))
       else do {
         (err, ext) \<leftarrow> btf_ext_setup_func_info ext;
         if err \<noteq> 0 then Some (Inl err)
         else do {
           (err, ext) \<leftarrow> btf_ext_setup_line_info ext;
           if err \<noteq> 0 then Some (Inl err)
           else if hdr_len < 32 then Some (Inl (- EINVAL))
           else do {
             (err, ext) \<leftarrow> btf_ext_setup_core_relos ext;
             Some (if err \<noteq> 0 then Inl err else Inr ext)
           }
         }
       }
     }
   }"

definition btf_ext__get_raw_data :: "btf_ext \<Rightarrow> bytes \<times> u32" where
  "btf_ext__get_raw_data ext = (e_data ext, e_data_size ext)"

definition btf_ext__func_info_rec_size :: "btf_ext \<Rightarrow> u32" where
  "btf_ext__func_info_rec_size ext = ei_rec_size (e_func_info ext)"

definition btf_ext__line_info_rec_size :: "btf_ext \<Rightarrow> u32" where
  "btf_ext__line_info_rec_size ext = ei_rec_size (e_line_info ext)"

section \<open>Going through a table\<close>

text \<open>
  The loop heads \<open>for_each_btf_ext_sec\<close> and \<open>for_each_btf_ext_rec\<close>; the body gets the section, or the
  number and the place of the record, and a state, and says whether the loop is left.
\<close>

function for_each_btf_ext_sec :: "bytes \<Rightarrow> btf_ext_info \<Rightarrow> (nat \<Rightarrow> 's \<Rightarrow> (bool \<times> 's) option) \<Rightarrow> nat \<Rightarrow> 's \<Rightarrow> (bool \<times> 's) option" where
  "for_each_btf_ext_sec d seg body sec s =
     (if \<not> sec < ei_info seg + unat (ei_len seg) then Some (False, s)
      else do {
        (leave, s) \<leftarrow> body sec s;
        if leave then Some (True, s)
        else do {
          num_info \<leftarrow> es_num_info d sec;
          for_each_btf_ext_sec d seg body (sec + sizeof_btf_ext_info_sec + unat (ei_rec_size seg * num_info)) s
        }
      })"
  by pat_completeness auto
termination
  by (relation "measure (\<lambda>(d, seg, body, sec, s). ei_info seg + unat (ei_len seg) - sec)")
    (auto simp: sizeof_btf_ext_info_sec_def)

primrec for_each_btf_ext_rec :: "btf_ext_info \<Rightarrow> (nat \<Rightarrow> nat \<Rightarrow> 's \<Rightarrow> (bool \<times> 's) option) \<Rightarrow> nat \<Rightarrow> nat \<Rightarrow> nat \<Rightarrow> 's \<Rightarrow>
    (bool \<times> 's) option" where
  "for_each_btf_ext_rec seg body 0 i rec s = Some (False, s)"
| "for_each_btf_ext_rec seg body (Suc n) i rec s = do {
     (leave, s) \<leftarrow> body i rec s;
     if leave then Some (True, s)
     else for_each_btf_ext_rec seg body n (i + 1) (rec + unat (ei_rec_size seg)) s
   }"

section \<open>Copying the records of a section\<close>

text \<open>
  The memory behind \<open>info\<close> is a list, which \<open>realloc\<close> extends (\<open>realloc_bytes\<close>).
\<close>

primrec adjust_insn_offs :: "u32 \<Rightarrow> u32 \<Rightarrow> u32 \<Rightarrow> nat \<Rightarrow> u32 \<Rightarrow> bytes \<Rightarrow> bytes option" where
  "adjust_insn_offs existing_len record_size insns_cnt 0 i m = Some m"
| "adjust_insn_offs existing_len record_size insns_cnt (Suc n) i m = do {
     let p = unat existing_len + unat (i * record_size);
     insn_off \<leftarrow> ld32 m p;
     m \<leftarrow> st32 m p (insn_off div 8 + insns_cnt);
     adjust_insn_offs existing_len record_size insns_cnt n (i + 1) m
   }"

partial_function (option) reloc_info_loop :: "btf list \<Rightarrow> bytes \<Rightarrow> bool \<Rightarrow> (nat \<Rightarrow> u8) \<Rightarrow> u32 \<Rightarrow> bytes \<Rightarrow> u32 \<Rightarrow> bytes \<Rightarrow> u32 \<Rightarrow>
    nat \<Rightarrow> u64 \<Rightarrow> (int \<times> bytes \<times> u32) option" where
  "reloc_info_loop btf d al junk record_size sec_name insns_cnt info cnt sinfo remain_len =
     (if remain_len = 0 then Some (- ENOENT, info, cnt)
      else do {
        num_info \<leftarrow> es_num_info d sinfo;
        let records_len = num_info * record_size;
        sec_name_off \<leftarrow> es_sec_name_off d sinfo;
        name \<leftarrow> name_at btf sec_name_off;
        info_sec_name \<leftarrow> name;
        if info_sec_name \<noteq> sec_name then
          reloc_info_loop btf d al junk record_size sec_name insns_cnt info cnt
            (sinfo + sizeof_btf_ext_info_sec + unat records_len)
            (remain_len - ucast (of_nat sizeof_btf_ext_info_sec + records_len))
        else
          let existing_len = cnt * record_size in
          if \<not> al then Some (- ENOMEM, info, cnt)
          else do {
            let m = realloc_bytes junk info (unat (existing_len + records_len));
            recs \<leftarrow> ldn d (sinfo + sizeof_btf_ext_info_sec) (unat records_len);
            m \<leftarrow> stn m (unat existing_len) recs;
            m \<leftarrow> adjust_insn_offs existing_len record_size insns_cnt (unat num_info) 0 m;
            Some (0, m, cnt + num_info)
          }
      })"

definition btf_ext_reloc_info :: "btf list \<Rightarrow> bytes \<Rightarrow> btf_ext_info \<Rightarrow> bool \<Rightarrow> (nat \<Rightarrow> u8) \<Rightarrow> bytes \<Rightarrow> u32 \<Rightarrow> bytes \<Rightarrow> u32 \<Rightarrow>
    (int \<times> bytes \<times> u32) option" where
  "btf_ext_reloc_info btf d ext_info al junk sec_name insns_cnt info cnt =
     reloc_info_loop btf d al junk (ei_rec_size ext_info) sec_name insns_cnt info cnt (ei_info ext_info) (ucast (ei_len ext_info))"

definition btf_ext__reloc_func_info :: "btf list \<Rightarrow> btf_ext \<Rightarrow> bool \<Rightarrow> (nat \<Rightarrow> u8) \<Rightarrow> bytes \<Rightarrow> u32 \<Rightarrow> bytes \<Rightarrow> u32 \<Rightarrow>
    (int \<times> bytes \<times> u32) option" where
  "btf_ext__reloc_func_info btf ext = btf_ext_reloc_info btf (e_data ext) (e_func_info ext)"

definition btf_ext__reloc_line_info :: "btf list \<Rightarrow> btf_ext \<Rightarrow> bool \<Rightarrow> (nat \<Rightarrow> u8) \<Rightarrow> bytes \<Rightarrow> u32 \<Rightarrow> bytes \<Rightarrow> u32 \<Rightarrow>
    (int \<times> bytes \<times> u32) option" where
  "btf_ext__reloc_line_info btf ext = btf_ext_reloc_info btf (e_data ext) (e_line_info ext)"

section \<open>The shape of a checked table\<close>

text \<open>Sections with their numbers of records, each at least one, without gaps from \<open>p\<close> to \<open>e\<close>.\<close>

primrec laid_out :: "bytes \<Rightarrow> nat \<Rightarrow> nat \<Rightarrow> (nat \<times> u32) list \<Rightarrow> nat \<Rightarrow> bool" where
  "laid_out d r p [] e \<longleftrightarrow> p = e"
| "laid_out d r p (sec # secs) e \<longleftrightarrow> fst sec = p \<and> es_num_info d p = Some (snd sec) \<and> snd sec \<noteq> 0 \<and>
     laid_out d r (p + 8 + unat (snd sec) * r) secs e"

definition table_ok :: "bytes \<Rightarrow> u32 \<Rightarrow> btf_ext_info \<Rightarrow> (nat \<times> u32) list \<Rightarrow> bool" where
  "table_ok d least seg secs \<longleftrightarrow> (ei_len seg = 0 \<longleftrightarrow> secs = []) \<and>
     laid_out d (unat (ei_rec_size seg)) (ei_info seg) secs (ei_info seg + unat (ei_len seg)) \<and>
     (ei_len seg \<noteq> 0 \<longrightarrow> least \<le> ei_rec_size seg \<and> ei_rec_size seg AND 3 = 0 \<and>
        ei_info seg + unat (ei_len seg) \<le> length d)"

declare check_secs.simps [simp del] for_each_btf_ext_sec.simps [simp del]

lemma laid_out_le: "laid_out d r p secs e \<Longrightarrow> p \<le> e"
  by (induction secs arbitrary: p) fastforce+

lemma check_secs_total:
  assumes "p + unat left \<le> length d"
  shows "\<exists>err. check_secs d r p left = Some err \<and>
    (err = 0 \<longrightarrow> (\<exists>secs. laid_out d (unat r) p secs (p + unat left) \<and> (secs = [] \<longleftrightarrow> left = 0)))"
  using assms
proof (induction d r p left rule: check_secs.induct)
  case (1 d r p left)
  note step = check_secs.simps [of d r p left]
  show ?case
  proof (cases "left = 0")
    case True
    then show ?thesis by (subst step) (auto intro: exI [of _ "[]"])
  next
    case False
    show ?thesis
    proof (cases "left < of_nat sizeof_btf_ext_info_sec")
      case True
      then show ?thesis using False by (subst step) simp
    next
      case ge: False
      then have "8 \<le> unat left" by (simp add: sizeof_btf_ext_info_sec_def word_le_nat_alt not_less)
      then obtain num where num: "es_num_info d p = Some num"
        using "1.prems" by (auto simp: es_num_info_def ld32_def ldn_def)
      let ?t = "of_nat sizeof_btf_ext_info_sec + ucast num * ucast r :: u64"
      show ?thesis
      proof (cases "num = 0 \<or> ucast left < ?t")
        case True
        then show ?thesis using False ge num by (subst step) (auto simp: Let_def)
      next
        case ok: False
        then have le: "unat ?t \<le> unat left" by (simp add: word_less_nat_alt not_less unat_ucast_u64)
        have left: "unat (left - ucast ?t) = unat left - unat ?t"
          using le unat_ucast_back [OF le] by (simp add: unat_sub word_le_nat_alt)
        have "\<exists>err. check_secs d r (p + unat ?t) (left - ucast ?t) = Some err \<and> (err = 0 \<longrightarrow>
            (\<exists>secs. laid_out d (unat r) (p + unat ?t) secs (p + unat ?t + unat (left - ucast ?t)) \<and> (secs = [] \<longleftrightarrow> left - ucast ?t = 0)))"
          using "1.prems" le left by (intro "1.IH" [OF False ge num]) (use ok in \<open>simp_all add: Let_def\<close>)
        then obtain err where err: "check_secs d r (p + unat ?t) (left - ucast ?t) = Some err"
          and secs: "err = 0 \<longrightarrow> (\<exists>secs. laid_out d (unat r) (p + unat ?t) secs (p + unat left))"
          using le left by auto
        have run: "check_secs d r p left = Some err"
          by (subst step) (use False ge num ok err in \<open>simp add: Let_def\<close>)
        have "\<exists>secs. laid_out d (unat r) p secs (p + unat left) \<and> (secs = [] \<longleftrightarrow> left = 0)" if zero: "err = 0"
        proof -
          obtain secs where "laid_out d (unat r) (p + unat ?t) secs (p + unat left)" using secs zero by blast
          then have "laid_out d (unat r) p ((p, num) # secs) (p + unat left)"
            using ok num by (simp add: part_size add.assoc)
          then show ?thesis using False by blast
        qed
        then show ?thesis using run by blast
      qed
    qed
  qed
qed

lemma table_ok_zero: "table_ok d least zero_info []"
  by (simp add: table_ok_def zero_info_def)

lemma setup_info_total:
  assumes d: "length (e_data ext) = unat (e_data_size ext)" "8 \<le> unat (e_data_size ext)"
  shows "\<exists>err seg. btf_ext_setup_info ext off len least zero_info = Some (err, seg) \<and>
    (err = 0 \<longrightarrow> (\<exists>secs. table_ok (e_data ext) least seg secs))"
proof (cases "len = 0 \<or> off AND 3 \<noteq> 0")
  case True
  then show ?thesis using table_ok_zero by (fastforce simp: btf_ext_setup_info_def)
next
  case False
  obtain hdr_len where hdr: "eh_hdr_len (e_data ext) = Some hdr_len" using d by (simp add: eh_hdr_len_def ld32_def ldn_def)
  let ?info = "unat hdr_len + unat off"
  show ?thesis
  proof (cases "unat (e_data_size ext) < ?info + unat len \<or> len < 4")
    case True
    then show ?thesis using False hdr by (auto simp: btf_ext_setup_info_def Let_def)
  next
    case in_data: False
    have len: "4 \<le> unat len" "unat (len - 4) = unat len - 4"
      using in_data by (simp_all add: word_less_nat_alt not_less unat_sub word_le_nat_alt)
    have fits: "?info + unat len \<le> length (e_data ext)" using in_data d by simp
    then obtain r where r: "ld32 (e_data ext) ?info = Some r" using len by (simp add: ld32_def ldn_def)
    have "?info + 4 + unat (len - 4) \<le> length (e_data ext)" using fits len by simp
    from check_secs_total [OF this, of r] obtain err where err: "check_secs (e_data ext) r (?info + 4) (len - 4) = Some err"
      and secs: "err = 0 \<longrightarrow> (\<exists>secs. laid_out (e_data ext) (unat r) (?info + 4) secs (?info + 4 + unat (len - 4)) \<and> (secs = [] \<longleftrightarrow> len - 4 = 0))"
      by blast
    show ?thesis
    proof (cases "r < least \<or> r AND 3 \<noteq> 0 \<or> len - 4 = 0 \<or> err \<noteq> 0")
      case True
      then show ?thesis using False hdr in_data r err by (auto simp: btf_ext_setup_info_def Let_def)
    next
      case ok: False
      let ?seg = "\<lparr>ei_info = ?info + 4, ei_rec_size = r, ei_len = len - 4\<rparr>"
      have "btf_ext_setup_info ext off len least zero_info = Some (0, ?seg)"
        using False hdr in_data r err ok by (simp add: btf_ext_setup_info_def Let_def)
      moreover obtain secs where "laid_out (e_data ext) (unat r) (?info + 4) secs (?info + 4 + unat (len - 4)) \<and> (secs = [] \<longleftrightarrow> len - 4 = 0)"
        using secs ok by blast
      moreover from this have "table_ok (e_data ext) least ?seg secs"
        using ok fits len by (simp add: table_ok_def not_less)
      ultimately show ?thesis by blast
    qed
  qed
qed

definition btf_ext_ok :: "btf_ext \<Rightarrow> bool" where
  "btf_ext_ok ext \<longleftrightarrow> (\<exists>secs. table_ok (e_data ext) 8 (e_func_info ext) secs) \<and>
     (\<exists>secs. table_ok (e_data ext) 16 (e_line_info ext) secs) \<and>
     (\<exists>secs. table_ok (e_data ext) 16 (e_core_relo_info ext) secs)"

lemma parse_hdr_total:
  assumes "length d = unat n"
  shows "\<exists>err. btf_ext_parse_hdr d n = Some err \<and> (err = 0 \<longrightarrow> 8 \<le> unat n \<and> (\<exists>h. eh_hdr_len d = Some h \<and> h \<le> n))"
proof (cases "n < 8")
  case True
  then show ?thesis by (simp add: btf_ext_parse_hdr_def)
next
  case False
  then have "8 \<le> unat n" by (simp add: word_less_nat_alt not_less)
  then obtain h m v f where "eh_hdr_len d = Some h" "eh_magic d = Some m" "eh_version d = Some v" "eh_flags d = Some f"
    using assms by (simp add: eh_defs ld32_def ld16_def ld8_def ldn_def)
  then show ?thesis using False \<open>8 \<le> unat n\<close> by (simp add: btf_ext_parse_hdr_def not_less)
qed

text \<open>
  C36. Whatever the bytes of a \<open>.BTF.ext\<close> section are, loading it reads nothing outside them and returns. If
  it succeeds, each of the three tables is empty or is cut completely into sections with at least one
  record each, all of it inside the data, and its records have the size the loader needs.
\<close>

theorem btf_ext_new_safe:
  assumes "length data = unat n"
  shows "\<exists>r. btf_ext__new al_ext al_data data n = Some r \<and> (\<forall>ext. r = Inr ext \<longrightarrow> e_data ext = data \<and> btf_ext_ok ext)"
proof -
  obtain err where parse: "btf_ext_parse_hdr data n = Some err"
    and hdr: "err = 0 \<longrightarrow> 8 \<le> unat n \<and> (\<exists>h. eh_hdr_len data = Some h \<and> h \<le> n)" using parse_hdr_total [OF assms] by blast
  show ?thesis
  proof (cases "err \<noteq> 0 \<or> \<not> al_ext \<or> \<not> al_data")
    case True
    then show ?thesis using parse by (auto simp: btf_ext__new_def)
  next
    case False
    then obtain h where n: "8 \<le> unat n" "eh_hdr_len data = Some h" "h \<le> n" using hdr by blast
    have copy: "ldn data 0 (unat n) = Some data" using assms by (simp add: ldn_def)
    define ext0 where "ext0 = \<lparr>e_data = data, e_func_info = zero_info, e_line_info = zero_info, e_core_relo_info = zero_info, e_data_size = n\<rparr>"
    have d: "length (e_data ext0) = unat (e_data_size ext0)" "8 \<le> unat (e_data_size ext0)" using assms n by (simp_all add: ext0_def)
    have ed: "e_data ext0 = data" by (simp add: ext0_def)
    show ?thesis
    proof (cases "h < 24")
      case True
      then show ?thesis using False parse copy n by (simp add: btf_ext__new_def Let_def)
    next
      case h24: False
      then have "24 \<le> length data" using n(3) assms by (simp add: word_less_nat_alt word_le_nat_alt)
      then obtain fo fl lo ll where f: "eh_func_info_off data = Some fo" "eh_func_info_len data = Some fl"
        "eh_line_info_off data = Some lo" "eh_line_info_len data = Some ll" by (simp add: eh_defs ld32_def ldn_def)
      obtain e1 i1 where s1: "btf_ext_setup_info ext0 fo fl 8 zero_info = Some (e1, i1)"
        "e1 = 0 \<longrightarrow> (\<exists>secs. table_ok data 8 i1 secs)" using setup_info_total [OF d, of fo fl 8] ed by auto
      define ext1 where "ext1 = ext0\<lparr>e_func_info := i1\<rparr>"
      obtain e2 i2 where s2: "btf_ext_setup_info ext1 lo ll 16 zero_info = Some (e2, i2)"
        "e2 = 0 \<longrightarrow> (\<exists>secs. table_ok data 16 i2 secs)" using setup_info_total [of ext1 lo ll 16] d ed by (auto simp: ext1_def)
      define ext2 where "ext2 = ext1\<lparr>e_line_info := i2\<rparr>"
      have run1: "btf_ext_setup_func_info ext0 = Some (e1, ext1)" "btf_ext_setup_line_info ext1 = Some (e2, ext2)"
        using s1(1) s2(1) f by (simp_all add: btf_ext_setup_func_info_def btf_ext_setup_line_info_def ext2_def ext1_def ext0_def)
      note run = btf_ext__new_def parse copy n(2) ext0_def [symmetric] Let_def run1
      show ?thesis
      proof (cases "e1 \<noteq> 0 \<or> e2 \<noteq> 0 \<or> h < 32")
        case True
        then show ?thesis using False h24 n(2) by (auto simp: run)
      next
        case ok: False
        then have "32 \<le> length data" using n(3) assms by (simp add: word_less_nat_alt word_le_nat_alt)
        then obtain co cl where c: "eh_core_relo_off data = Some co" "eh_core_relo_len data = Some cl"
          by (simp add: eh_defs ld32_def ldn_def)
        obtain e3 i3 where s3: "btf_ext_setup_info ext2 co cl 16 zero_info = Some (e3, i3)"
          "e3 = 0 \<longrightarrow> (\<exists>secs. table_ok data 16 i3 secs)"
          using setup_info_total [of ext2 co cl 16] d ed by (auto simp: ext2_def ext1_def)
        define ext3 where "ext3 = ext2\<lparr>e_core_relo_info := i3\<rparr>"
        have run3: "btf_ext_setup_core_relos ext2 = Some (e3, ext3)"
          using s3(1) c by (simp add: btf_ext_setup_core_relos_def ext3_def ext2_def ext1_def ext0_def)
        have "btf_ext__new al_ext al_data data n = Some (if e3 \<noteq> 0 then Inl e3 else Inr ext3)"
          using False h24 ok n(2) by (simp add: run run3)
        moreover have "e3 = 0 \<Longrightarrow> e_data ext3 = data \<and> btf_ext_ok ext3"
          using s1(2) s2(2) s3(2) ok by (simp add: btf_ext_ok_def ext3_def ext2_def ext1_def ext0_def)
        ultimately show ?thesis by auto
      qed
    qed
  qed
qed

section \<open>Iteration\<close>

primrec each_sec :: "(nat \<Rightarrow> 's \<Rightarrow> (bool \<times> 's) option) \<Rightarrow> (nat \<times> u32) list \<Rightarrow> 's \<Rightarrow> (bool \<times> 's) option" where
  "each_sec body [] s = Some (False, s)"
| "each_sec body (sec # secs) s = do {
     (leave, s) \<leftarrow> body (fst sec) s;
     if leave then Some (True, s) else each_sec body secs s
   }"

lemma records_len:
  assumes "laid_out d (unat r) p ((q, num) # secs) e" "e - p < 2 ^ 32"
  shows "unat (r * num) = unat num * unat r" "unat (num * r) = unat num * unat r" "p + 8 + unat num * unat r \<le> e"
proof -
  show le: "p + 8 + unat num * unat r \<le> e" using assms(1) laid_out_le by fastforce
  then have "unat num * unat r < 2 ^ 32" using assms(2) by simp
  then show "unat (r * num) = unat num * unat r" "unat (num * r) = unat num * unat r"
    using unat_mult_lem [of num r] by (simp_all add: mult.commute)
qed

text \<open>The loop visits the sections the table was checked to have, and no other place.\<close>

lemma for_each_sec_iff:
  assumes "laid_out d (unat (ei_rec_size seg)) p secs (ei_info seg + unat (ei_len seg))" "ei_info seg \<le> p"
  shows "for_each_btf_ext_sec d seg body p s = each_sec body secs s"
  using assms
proof (induction secs arbitrary: p s)
  case Nil
  then show ?case by (simp add: for_each_btf_ext_sec.simps)
next
  case (Cons sec secs)
  obtain num where sec: "sec = (p, num)" using Cons.prems(1) by (cases sec) simp
  let ?e = "ei_info seg + unat (ei_len seg)"
  have e: "?e - p < 2 ^ 32" using Cons.prems(2) unsigned_less [where ?'a = nat and w = "ei_len seg"] by simp
  note len = records_len [OF Cons.prems(1) [unfolded sec] e]
  have num: "es_num_info d p = Some num" and
    rest: "laid_out d (unat (ei_rec_size seg)) (p + 8 + unat num * unat (ei_rec_size seg)) secs ?e"
    using Cons.prems(1) sec by simp_all
  have "for_each_btf_ext_sec d seg body (p + 8 + unat num * unat (ei_rec_size seg)) s' = each_sec body secs s'" for s'
    using Cons.prems(2) by (intro Cons.IH rest) simp
  then show ?case
    by (subst for_each_btf_ext_sec.simps)
      (use len(1,3) num in \<open>auto simp: sec sizeof_btf_ext_info_sec_def intro!: Option.bind_cong\<close>)
qed

section \<open>The records of one section\<close>

definition sec_name_at :: "btf list \<Rightarrow> bytes \<Rightarrow> nat \<times> u32 \<Rightarrow> bytes option option" where
  "sec_name_at btf d sec = do { off \<leftarrow> es_sec_name_off d (fst sec); name_at btf off }"

definition shift_record :: "u32 \<Rightarrow> bytes \<Rightarrow> bytes" where
  "shift_record c rec = le_bytes 4 (unat (of_nat (le_val (take 4 rec)) div 8 + c :: u32)) @ drop 4 rec"

definition sec_record :: "bytes \<Rightarrow> nat \<Rightarrow> nat \<times> u32 \<Rightarrow> nat \<Rightarrow> bytes" where
  "sec_record d r sec i = take r (drop (fst sec + 8 + i * r) d)"

lemma take_overwrite_record:
  assumes "p + r \<le> length m" "length bs = 4" "4 \<le> r"
  shows "take (p + r) (overwrite p bs m) = take p m @ bs @ drop 4 (take r (drop p m))"
proof -
  have "take (p + r) (overwrite p bs m) = take p m @ bs @ take (r - 4) (drop (p + 4) m)"
    using assms by (simp add: overwrite_def)
  then show ?thesis by (simp add: drop_take add.commute)
qed

lemma adjust_all:
  assumes r: "4 \<le> unat r" and fits: "unat el + (i + n) * unat r < 2 ^ 32" and len: "length m = unat el + (i + n) * unat r"
  shows "adjust_insn_offs el r c n (of_nat i) m =
    Some (take (unat el + i * unat r) m @ concat (map (\<lambda>j. shift_record c (take (unat r) (drop (unat el + j * unat r) m))) [i ..< i + n]))"
  using fits len
proof (induction n arbitrary: i m)
  case 0
  then show ?case by simp
next
  case (Suc n)
  let ?p = "unat el + i * unat r"
  have fits: "?p + unat r + n * unat r < 2 ^ 32" and len: "length m = ?p + unat r + n * unat r"
    using Suc.prems by (simp_all add: algebra_simps)
  have "i * 1 \<le> i * unat r" using r by (intro mult_le_mono2) simp
  then have "i < 2 ^ 32" using fits by linarith
  then have ui: "unat (of_nat i :: u32) = i" by (simp add: unat_of_nat)
  have "i * unat r < 2 ^ 32" using fits by linarith
  then have off: "unat (of_nat i * r :: u32) = i * unat r" using unat_mult_lem [of "of_nat i" r] by (simp add: ui)
  have ld: "ld32 m ?p = Some (of_nat (le_val (take 4 (drop ?p m))))" using len r by (simp add: ld32_def ldn_def)
  let ?w = "of_nat (le_val (take 4 (drop ?p m))) div 8 + c :: u32"
  let ?m = "overwrite ?p (le_bytes 4 (unat ?w)) m"
  have st: "st32 m ?p ?w = Some ?m" using len r by (simp add: st32_def stn_overwrite)
  have m: "length ?m = unat el + (i + 1 + n) * unat r" using len r by (simp add: length_overwrite algebra_simps)
  have "unat el + (i + 1 + n) * unat r < 2 ^ 32" using fits by (simp add: algebra_simps)
  note IH = Suc.IH [OF this m]
  have run: "adjust_insn_offs el r c (Suc n) (of_nat i) m = adjust_insn_offs el r c n (of_nat (i + 1)) ?m"
    using ld st off by (simp add: Let_def add.commute)
  have rest: "take (unat r) (drop (unat el + j * unat r) ?m) = take (unat r) (drop (unat el + j * unat r) m)" if "i + 1 \<le> j" for j
  proof -
    have "(i + 1) * unat r \<le> j * unat r" using that by (intro mult_le_mono1)
    then have "?p + 4 \<le> unat el + j * unat r" using r by simp
    then show ?thesis using len r by (intro take_drop_overwrite_other) simp_all
  qed
  have rest': "map (\<lambda>j. shift_record c (take (unat r) (drop (unat el + j * unat r) ?m))) [i + 1 ..< i + 1 + n] =
      map (\<lambda>j. shift_record c (take (unat r) (drop (unat el + j * unat r) m))) [i + 1 ..< i + 1 + n]"
    by (intro map_cong refl) (simp only: atLeastLessThan_iff set_upt rest)
  have "take (?p + unat r) ?m = take ?p m @ shift_record c (take (unat r) (drop ?p m))"
    unfolding shift_record_def by (subst take_overwrite_record) (use len r in \<open>simp_all add: min_absorb1\<close>)
  moreover have "unat el + (i + 1) * unat r = ?p + unat r" by simp
  moreover have "[i ..< i + Suc n] = i # [i + 1 ..< i + 1 + n]" by (simp add: upt_conv_Cons)
  ultimately show ?case
    unfolding run IH rest' by (simp only: list.map concat.simps append_assoc)
qed

lemma copy_records:
  assumes r: "4 \<le> unat r" and old: "length info = unat cnt * unat r"
    and fits: "unat (cnt * r) + unat num * unat r < 2 ^ 32" "unat cnt * unat r < 2 ^ 32"
    and src: "q + 8 + unat num * unat r \<le> length d"
  shows "\<exists>m. stn (realloc_bytes junk info (unat (cnt * r + num * r))) (unat (cnt * r)) (take (unat num * unat r) (drop (q + 8) d)) = Some m \<and>
    adjust_insn_offs (cnt * r) r c (unat num) 0 m =
      Some (info @ concat (map (\<lambda>j. shift_record c (sec_record d (unat r) (q, num) j)) [0 ..< unat num]))"
proof -
  let ?n = "unat num * unat r"
  have el: "unat (cnt * r) = unat cnt * unat r" using fits(2) unat_mult_lem [of cnt r] by simp
  have n: "unat (num * r) = ?n" using fits(1) unat_mult_lem [of num r] by simp
  have tot: "unat (cnt * r + num * r) = length info + ?n"
    using fits(1) n el old by (simp add: unat_add_lem [THEN iffD1])
  let ?recs = "take ?n (drop (q + 8) d)"
  have recs: "length ?recs = ?n" using src by simp
  let ?m = "info @ ?recs"
  have st: "stn (realloc_bytes junk info (unat (cnt * r + num * r))) (unat (cnt * r)) ?recs = Some ?m"
    using recs el old tot by (simp add: stn_def realloc_bytes_def)
  have rec: "take (unat r) (drop (unat (cnt * r) + j * unat r) ?m) = sec_record d (unat r) (q, num) j" if "j < unat num" for j
  proof -
    have "Suc j * unat r \<le> unat num * unat r" using that by (intro mult_le_mono1) simp
    then have "j * unat r + unat r \<le> ?n" by simp
    then show ?thesis using el old by (simp add: sec_record_def drop_take min_absorb1 add.commute add.left_commute)
  qed
  have "adjust_insn_offs (cnt * r) r c (unat num) (of_nat 0) ?m =
    Some (take (unat (cnt * r) + 0 * unat r) ?m @
      concat (map (\<lambda>j. shift_record c (take (unat r) (drop (unat (cnt * r) + j * unat r) ?m))) [0 ..< 0 + unat num]))"
    by (rule adjust_all [OF r]) (use fits recs el old in simp_all)
  also have "map (\<lambda>j. shift_record c (take (unat r) (drop (unat (cnt * r) + j * unat r) ?m))) [0 ..< 0 + unat num] =
      map (\<lambda>j. shift_record c (sec_record d (unat r) (q, num) j)) [0 ..< unat num]"
    by (intro map_cong) (simp_all only: add_0 set_upt atLeastLessThan_iff rec)
  also have "take (unat (cnt * r) + 0 * unat r) ?m = info" using el old by simp
  finally show ?thesis using st by simp
qed

lemma reloc_info_run:
  assumes table: "laid_out d (unat r) p secs e" "e \<le> length d" "e - p < 2 ^ 32"
    and names: "\<forall>sec \<in> set secs. \<exists>nm. sec_name_at btf d sec = Some (Some nm)"
    and r: "4 \<le> unat r" and old: "length info = unat cnt * unat r"
    and fits: "\<forall>sec \<in> set secs. unat cnt * unat r + unat (snd sec) * unat r < 2 ^ 32" "unat cnt * unat r < 2 ^ 32"
  shows "reloc_info_loop btf d True junk r sec_name c info cnt p (of_nat (e - p)) = Some
    (case find (\<lambda>sec. sec_name_at btf d sec = Some (Some sec_name)) secs of
       None \<Rightarrow> (- ENOENT, info, cnt)
     | Some sec \<Rightarrow> (0, info @ concat (map (\<lambda>j. shift_record c (sec_record d (unat r) sec j)) [0 ..< unat (snd sec)]), cnt + snd sec))"
  using table names fits(1)
proof (induction secs arbitrary: p)
  case Nil
  then show ?case by (subst reloc_info_loop.simps) simp
next
  case (Cons sec secs)
  obtain num where sec: "sec = (p, num)" using Cons.prems(1) by (cases sec) simp
  note len = records_len [OF Cons.prems(1) [unfolded sec] Cons.prems(3)]
  let ?n = "unat num * unat r"
  obtain nm where nm: "sec_name_at btf d sec = Some (Some nm)" using Cons.prems(4) by auto
  then obtain off where off: "es_sec_name_off d p = Some off" "name_at btf off = Some (Some nm)"
    by (auto simp: sec_name_at_def sec bind_eq_Some_conv)
  have num: "es_num_info d p = Some num" and rest: "laid_out d (unat r) (p + 8 + ?n) secs e"
    using Cons.prems(1) sec by simp_all
  have el: "unat (cnt * r) = unat cnt * unat r" using fits(2) unat_mult_lem [of cnt r] by simp
  have "unat cnt * unat r + ?n < 2 ^ 32" using Cons.prems(5) sec by simp
  then have fits': "unat (cnt * r) + ?n < 2 ^ 32" using el by simp
  have "unat (of_nat (e - p) :: u64) = e - p" using Cons.prems(3) by (simp add: unat_of_nat)
  then have nz: "(of_nat (e - p) :: u64) \<noteq> 0" using len(3) by fastforce
  show ?case
  proof (cases "nm = sec_name")
    case True
    have src: "p + 8 + ?n \<le> length d" using len(3) Cons.prems(2) by simp
    then have ld: "ldn d (p + 8) ?n = Some (take ?n (drop (p + 8) d))" by (simp add: ldn_def)
    obtain m where m: "stn (realloc_bytes junk info (unat (cnt * r + num * r))) (unat (cnt * r)) (take ?n (drop (p + 8) d)) = Some m"
      "adjust_insn_offs (cnt * r) r c (unat num) 0 m =
        Some (info @ concat (map (\<lambda>j. shift_record c (sec_record d (unat r) (p, num) j)) [0 ..< unat num]))"
      using copy_records [OF r old fits' fits(2) src] by blast
    show ?thesis
      by (subst reloc_info_loop.simps) (use nz num off True ld m len(2) nm in
        \<open>simp add: Let_def sizeof_btf_ext_info_sec_def sec\<close>)
  next
    case False
    have n32: "8 + ?n < 2 ^ 32" using len(3) Cons.prems(3) by simp
    then have "unat (8 + num * r :: u32) = 8 + ?n" using len(2) by (simp add: unat_add_lem [THEN iffD1])
    then have "unat (ucast (8 + num * r) :: u64) = 8 + ?n" by (simp only: unat_ucast_u64)
    moreover have "unat (of_nat (8 + ?n) :: u64) = 8 + ?n" unfolding unat_of_nat using n32 by simp
    ultimately have "(ucast (8 + num * r :: u32) :: u64) = of_nat (8 + ?n)" by (simp only: word_unat_eq_iff)
    moreover have "e - p = (e - (p + 8 + ?n)) + (8 + ?n)" using len(3) by simp
    ultimately have left: "of_nat (e - p) - ucast (8 + num * r :: u32) = (of_nat (e - (p + 8 + ?n)) :: u64)"
      by (metis add_diff_cancel_right' of_nat_add)
    have "reloc_info_loop btf d True junk r sec_name c info cnt p (of_nat (e - p)) =
        reloc_info_loop btf d True junk r sec_name c info cnt (p + 8 + ?n) (of_nat (e - (p + 8 + ?n)))"
      by (subst reloc_info_loop.simps) (use nz num off False len(2) left in \<open>simp add: Let_def sizeof_btf_ext_info_sec_def\<close>)
    moreover have "e - (p + 8 + ?n) < 2 ^ 32" using Cons.prems(3) by simp
    ultimately show ?thesis
      using Cons.IH [OF rest Cons.prems(2)] Cons.prems(4,5) nm False by simp
  qed
qed

text \<open>
  C37. Copying the records of a section out of a checked table finds the first part with the section's
  name, appends its records to those that are there already, and in each replaces only the offset of
  the instruction, from bytes in the section to instructions in the program; \<open>ENOENT\<close> when no part has
  the name. The names of all parts have to be in the string table, and the records have to fit in 4 GiB.
\<close>

theorem reloc_info_copies:
  assumes table: "table_ok d least seg secs" "secs \<noteq> []" "4 \<le> least"
    and names: "\<forall>sec \<in> set secs. \<exists>nm. sec_name_at btf d sec = Some (Some nm)"
    and old: "length info = unat cnt * unat (ei_rec_size seg)"
    and fits: "\<forall>sec \<in> set secs. length info + unat (snd sec) * unat (ei_rec_size seg) < 2 ^ 32"
  shows "btf_ext_reloc_info btf d seg True junk sec_name c info cnt = Some
    (case find (\<lambda>sec. sec_name_at btf d sec = Some (Some sec_name)) secs of
       None \<Rightarrow> (- ENOENT, info, cnt)
     | Some sec \<Rightarrow> (0, info @ concat (map (\<lambda>j. shift_record c (sec_record d (unat (ei_rec_size seg)) sec j)) [0 ..< unat (snd sec)]),
         cnt + snd sec))"
proof -
  let ?e = "ei_info seg + unat (ei_len seg)"
  have t: "laid_out d (unat (ei_rec_size seg)) (ei_info seg) secs ?e" "?e \<le> length d" "least \<le> ei_rec_size seg"
    using table(1,2) by (auto simp: table_ok_def)
  have "4 \<le> unat (ei_rec_size seg)" using order.trans [OF table(3) t(3)] by (simp add: word_le_nat_alt)
  moreover have "?e - ei_info seg < 2 ^ 32" using unsigned_less [where ?'a = nat and w = "ei_len seg"] by simp
  moreover have "length info < 2 ^ 32" using fits table(2) by (cases secs) auto
  moreover have "(ucast (ei_len seg) :: u64) = of_nat (?e - ei_info seg)" by simp
  ultimately show ?thesis
    unfolding btf_ext_reloc_info_def using t names old fits by (simp only:) (rule reloc_info_run, auto)
qed

section \<open>A sample section\<close>

text \<open>One function at byte 16 and one line, of a section whose name is at offset 1; no relocations.\<close>

definition sample_ext :: bytes where
  "sample_ext = [0x9F, 0xEB, 1, 0, 32, 0, 0, 0, 0, 0, 0, 0, 20, 0, 0, 0, 20, 0, 0, 0, 28, 0, 0, 0, 0, 0, 0, 0, 0, 0, 0, 0,
     8, 0, 0, 0, 1, 0, 0, 0, 1, 0, 0, 0, 16, 0, 0, 0, 7, 0, 0, 0,
     16, 0, 0, 0, 1, 0, 0, 0, 1, 0, 0, 0, 8, 0, 0, 0, 2, 0, 0, 0, 3, 0, 0, 0, 4, 0, 0, 0]"

definition sample_func_info :: btf_ext_info where
  "sample_func_info = \<lparr>ei_info = 36, ei_rec_size = 8, ei_len = 16\<rparr>"

lemma sample_fields:
  "eh_magic sample_ext = Some BTF_MAGIC" "eh_version sample_ext = Some 1" "eh_flags sample_ext = Some 0" "eh_hdr_len sample_ext = Some 32"
  "eh_func_info_off sample_ext = Some 0" "eh_func_info_len sample_ext = Some 20" "eh_line_info_off sample_ext = Some 20"
  "eh_line_info_len sample_ext = Some 28" "eh_core_relo_off sample_ext = Some 0" "eh_core_relo_len sample_ext = Some 0"
  "ld32 sample_ext 32 = Some 8" "ld32 sample_ext 52 = Some 16" "es_num_info sample_ext 36 = Some 1" "es_num_info sample_ext 56 = Some 1"
  "ldn sample_ext 0 80 = Some sample_ext"
  by (simp_all add: eh_defs es_num_info_def sample_ext_def ld8_def ld16_def ld32_def ldn_def)

lemma swapped_magic: "bswap_16 BTF_MAGIC \<noteq> BTF_MAGIC"
  using bswap_of_le_val(1) [of "[0x9F, 0xEB]"] by simp

lemma sample_ext_new: "btf_ext__new True True sample_ext 80 = Some (Inr \<lparr>e_data = sample_ext, e_func_info = sample_func_info,
    e_line_info = \<lparr>ei_info = 56, ei_rec_size = 16, ei_len = 24\<rparr>, e_core_relo_info = zero_info, e_data_size = 80\<rparr>)"
  by (simp add: btf_ext__new_def btf_ext_parse_hdr_def sample_fields swapped_magic swapped_magic [symmetric] btf_ext_setup_func_info_def btf_ext_setup_line_info_def
      btf_ext_setup_core_relos_def btf_ext_setup_info_def check_secs.simps sizeof_btf_ext_info_sec_def sample_func_info_def)

theorem btf_ext_new_safe_witness:
  "\<exists>ext. btf_ext__new True True sample_ext 80 = Some (Inr ext) \<and> e_func_info ext = sample_func_info \<and> btf_ext_ok ext"
proof -
  have "length sample_ext = unat (80 :: u32)" by (simp add: sample_ext_def)
  from btf_ext_new_safe [OF this, of True True] show ?thesis by (simp add: sample_ext_new)
qed

definition sample_names :: btf where
  "sample_names = zero_btf\<lparr>b_hdr := zero_hdr\<lparr>h_str_len := 4\<rparr>, b_strs_data := Some ([0, 120, 121, 0], 0)\<rparr>"

lemma sample_sec_name: "sec_name_at [sample_names] sample_ext (36, 1) = Some (Some [120, 121])"
  by (simp add: sec_name_at_def es_sec_name_off_def sample_ext_def ld32_def ldn_def name_at_def btf__name_by_offset_def
      sample_names_def zero_btf_def zero_hdr_def btf_strs_data_def
      c_string_def word_less_nat_alt)

theorem reloc_info_copies_witness:
  "btf_ext_reloc_info [sample_names] sample_ext sample_func_info True (\<lambda>_. 0) [120, 121] 5 [] 0 = Some (0, [7, 0, 0, 0, 7, 0, 0, 0], 1)"
proof -
  have t: "table_ok sample_ext 8 sample_func_info [(36, 1)]"
    by (simp add: table_ok_def sample_func_info_def es_num_info_def sample_ext_def ld32_def ldn_def)
  have "shift_record 5 (sec_record sample_ext (unat (ei_rec_size sample_func_info)) (36, 1) 0) = [7, 0, 0, 0, 7, 0, 0, 0]"
    by code_simp
  with reloc_info_copies [OF t, of "[sample_names]" "[]" 0 "\<lambda>_. 0" "[120, 121]" 5] show ?thesis
    by (simp add: sample_sec_name sample_func_info_def)
qed

end
