(* ===== verification/Relo_Object.thy ===== *)
theory Relo_Object
  imports Relo_Safety Btf_Ext
begin

text \<open>
  The CO-RE relocations of an object, \<open>bpf_object__relocate_core\<close> of \<open>libbpf.c\<close>: the records of
  \<open>.BTF.ext\<close> are gone through, the program that each one is about is looked up, and the relocation is
  applied to it. The programs of an object are a list, and a program found is its place in the list.
\<close>

section \<open>Looking up a program\<close>

definition cmp_progs :: "bpf_program \<Rightarrow> bpf_program \<Rightarrow> int" where
  "cmp_progs a b =
     (if p_sec_idx a \<noteq> p_sec_idx b then if p_sec_idx a < p_sec_idx b then - 1 else 1
      else if p_sec_insn_off a < p_sec_insn_off b then - 1 else 1)"

definition prog_contains_insn :: "bpf_program \<Rightarrow> u64 \<Rightarrow> bool" where
  "prog_contains_insn prog insn_idx \<longleftrightarrow> insn_idx \<ge> p_sec_insn_off prog \<and> insn_idx < p_sec_insn_off prog + p_sec_insn_cnt prog"

function find_prog_loop :: "bpf_program list \<Rightarrow> u64 \<Rightarrow> u64 \<Rightarrow> int \<Rightarrow> int \<Rightarrow> int option" where
  "find_prog_loop programs sec_idx insn_idx l r =
     (if l < r then do {
        let m = l + (r - l + 1) div 2;
        prog \<leftarrow> arr_get programs (nat m);
        if p_sec_idx prog < sec_idx \<or> p_sec_idx prog = sec_idx \<and> p_sec_insn_off prog \<le> insn_idx
        then find_prog_loop programs sec_idx insn_idx m r
        else find_prog_loop programs sec_idx insn_idx l (m - 1)
      }
      else Some l)"
  by pat_completeness auto
termination
  by (relation "measure (\<lambda>(programs, sec_idx, insn_idx, l, r). nat (r - l))") auto

definition find_prog_by_sec_insn :: "bpf_program list \<Rightarrow> u64 \<Rightarrow> u64 \<Rightarrow> nat option option" where
  "find_prog_by_sec_insn programs sec_idx insn_idx = do {
     l \<leftarrow> find_prog_loop programs sec_idx insn_idx 0 (int (length programs) - 1);
     prog \<leftarrow> arr_get programs (nat l);
     Some (if p_sec_idx prog = sec_idx \<and> prog_contains_insn prog insn_idx then Some (nat l) else None)
   }"

text \<open>The search by name leaves the last program behind when there is none of the name.\<close>

fun find_by_sec_name :: "bpf_program list \<Rightarrow> bytes \<Rightarrow> bpf_program option" where
  "find_by_sec_name [] sec_name = None"
| "find_by_sec_name [prog] sec_name = Some prog"
| "find_by_sec_name (prog # progs) sec_name = (if p_sec_name prog = sec_name then Some prog else find_by_sec_name progs sec_name)"

section \<open>Going through the records\<close>







section \<open>The search is right\<close>

text \<open>Programs as they are after sorting, those of a section one behind the other.\<close>

definition progs_ok :: "bpf_program list \<Rightarrow> bool" where
  "progs_ok progs \<longleftrightarrow> progs \<noteq> [] \<and> sorted_wrt (\<lambda>a b. cmp_progs a b < 0) progs \<and>
     (\<forall>p \<in> set progs. unat (p_sec_insn_off p) + unat (p_sec_insn_cnt p) < 2 ^ 64) \<and>
     (\<forall>i j. i < j \<longrightarrow> j < length progs \<longrightarrow> p_sec_idx (progs ! i) = p_sec_idx (progs ! j) \<longrightarrow>
        unat (p_sec_insn_off (progs ! i)) + unat (p_sec_insn_cnt (progs ! i)) \<le> unat (p_sec_insn_off (progs ! j)))"

definition up_to :: "u64 \<Rightarrow> u64 \<Rightarrow> bpf_program \<Rightarrow> bool" where
  "up_to sec_idx insn_idx p \<longleftrightarrow> p_sec_idx p < sec_idx \<or> p_sec_idx p = sec_idx \<and> p_sec_insn_off p \<le> insn_idx"

declare find_prog_loop.simps [simp del]

lemma up_to_mono:
  assumes "progs_ok progs" "up_to sec_idx insn_idx (progs ! j)" "i \<le> j" "j < length progs"
  shows "up_to sec_idx insn_idx (progs ! i)"
proof (cases "i = j")
  case False
  then have "cmp_progs (progs ! i) (progs ! j) < 0"
    using assms by (auto simp: progs_ok_def sorted_wrt_iff_nth_less)
  then show ?thesis using assms(2) by (auto simp: up_to_def cmp_progs_def split: if_splits)
qed (use assms in simp)

lemma find_prog_loop_spec:
  assumes "progs_ok progs" "0 \<le> l" "l \<le> r" "r < int (length progs)"
    "l = 0 \<or> up_to sec_idx insn_idx (progs ! nat l)" "\<forall>j. r < int j \<longrightarrow> j < length progs \<longrightarrow> \<not> up_to sec_idx insn_idx (progs ! j)"
  shows "\<exists>m. find_prog_loop progs sec_idx insn_idx l r = Some (int m) \<and> m < length progs \<and>
    (m = 0 \<or> up_to sec_idx insn_idx (progs ! m)) \<and> (\<forall>j. m < j \<longrightarrow> j < length progs \<longrightarrow> \<not> up_to sec_idx insn_idx (progs ! j))"
  using assms
proof (induction progs sec_idx insn_idx l r rule: find_prog_loop.induct)
  case (1 progs sec_idx insn_idx l r)
  show ?case
  proof (cases "l < r")
    case False
    then have "find_prog_loop progs sec_idx insn_idx l r = Some (int (nat l))"
      using "1.prems"(2) by (subst find_prog_loop.simps) simp
    moreover have "nat l < length progs" "l = r" using False "1.prems" by simp_all
    ultimately show ?thesis using "1.prems" by (intro exI [of _ "nat l"]) auto
  next
    case True
    let ?m = "l + (r - l + 1) div 2"
    have m: "l < ?m" "?m \<le> r" using True by linarith+
    have get: "arr_get progs (nat ?m) = Some (progs ! nat ?m)" using m "1.prems"(2,4) by simp
    show ?thesis
    proof (cases "up_to sec_idx insn_idx (progs ! nat ?m)")
      case up: True
      then have step: "find_prog_loop progs sec_idx insn_idx l r = find_prog_loop progs sec_idx insn_idx ?m r"
        by (subst find_prog_loop.simps) (use True get in \<open>simp add: up_to_def Let_def\<close>)
      show ?thesis unfolding step
        by (rule "1.IH"(1) [OF True refl get]) (use up m "1.prems" in \<open>simp_all add: up_to_def\<close>)
    next
      case down: False
      then have step: "find_prog_loop progs sec_idx insn_idx l r = find_prog_loop progs sec_idx insn_idx l (?m - 1)"
        by (subst find_prog_loop.simps) (use True get in \<open>auto simp: up_to_def Let_def\<close>)
      have "\<not> up_to sec_idx insn_idx (progs ! j)" if "?m - 1 < int j" "j < length progs" for j
      proof -
        have "nat ?m \<le> j" using that(1) by linarith
        then show ?thesis using down up_to_mono [OF "1.prems"(1), of sec_idx insn_idx j "nat ?m"] that(2) by blast
      qed
      then show ?thesis unfolding step
        by (intro "1.IH"(2) [OF True refl get]) (use down m "1.prems" in \<open>simp_all add: up_to_def\<close>)
    qed
  qed
qed

text \<open>
  In the sorted list of an object's programs the binary search finds the program of a section that
  contains an instruction, and says that there is none exactly when none contains it.
\<close>

theorem find_prog_right:
  assumes "progs_ok progs"
  shows "\<exists>r. find_prog_by_sec_insn progs sec_idx insn_idx = Some r \<and>
    (\<forall>k. r = Some k \<longleftrightarrow> k < length progs \<and> p_sec_idx (progs ! k) = sec_idx \<and> prog_contains_insn (progs ! k) insn_idx)"
proof -
  have "progs \<noteq> []" using assms by (simp add: progs_ok_def)
  then obtain m where m: "find_prog_loop progs sec_idx insn_idx 0 (int (length progs) - 1) = Some (int m)" "m < length progs"
    "m = 0 \<or> up_to sec_idx insn_idx (progs ! m)" "\<forall>j. m < j \<longrightarrow> j < length progs \<longrightarrow> \<not> up_to sec_idx insn_idx (progs ! j)"
    using find_prog_loop_spec [OF assms, of 0 "int (length progs) - 1" sec_idx insn_idx] by (auto simp: Suc_leI)
  have here: "k = m" if "k < length progs" "p_sec_idx (progs ! k) = sec_idx" "prog_contains_insn (progs ! k) insn_idx" for k
  proof -
    have "up_to sec_idx insn_idx (progs ! k)" using that by (simp add: up_to_def prog_contains_insn_def)
    then have "k \<le> m" using m(4) that(1) not_less by blast
    moreover have False if "k < m"
    proof -
      have up: "up_to sec_idx insn_idx (progs ! m)" using m(3) that by simp
      have "cmp_progs (progs ! k) (progs ! m) < 0"
        using assms that m(2) by (simp add: progs_ok_def sorted_wrt_iff_nth_less)
      then have same: "p_sec_idx (progs ! m) = sec_idx" "p_sec_insn_off (progs ! m) \<le> insn_idx"
        using up \<open>p_sec_idx (progs ! k) = sec_idx\<close> by (auto simp: up_to_def cmp_progs_def split: if_splits)
      then have "unat (p_sec_insn_off (progs ! k)) + unat (p_sec_insn_cnt (progs ! k)) \<le> unat (p_sec_insn_off (progs ! m))"
        using assms that m(2) \<open>p_sec_idx (progs ! k) = sec_idx\<close> by (simp add: progs_ok_def)
      moreover have "unat (p_sec_insn_off (progs ! k) + p_sec_insn_cnt (progs ! k)) =
          unat (p_sec_insn_off (progs ! k)) + unat (p_sec_insn_cnt (progs ! k))"
        using assms \<open>k < length progs\<close> by (intro unat_add_lem [THEN iffD1]) (auto simp: progs_ok_def)
      ultimately show False
        using \<open>prog_contains_insn (progs ! k) insn_idx\<close> same(2)
        by (simp add: prog_contains_insn_def word_less_nat_alt word_le_nat_alt)
    qed
    ultimately show ?thesis by (cases "k = m") auto
  qed
  let ?hit = "p_sec_idx (progs ! m) = sec_idx \<and> prog_contains_insn (progs ! m) insn_idx"
  have "find_prog_by_sec_insn progs sec_idx insn_idx = Some (if ?hit then Some m else None)"
    using m(1,2) by (simp add: find_prog_by_sec_insn_def)
  moreover have "(if ?hit then Some m else None) = Some k \<longleftrightarrow>
      k < length progs \<and> p_sec_idx (progs ! k) = sec_idx \<and> prog_contains_insn (progs ! k) insn_idx" for k
    using here [of k] m(2) by auto
  ultimately show ?thesis by blast
qed

section \<open>What a relocation leaves alone\<close>
















section \<open>A sample object\<close>

text \<open>One program of one instruction in section \<open>s\<close>, and one record for it.\<close>

definition no_info :: prog_info where
  "no_info = \<lparr>pi_data = None, pi_rec_size = 0, pi_cnt = 0\<rparr>"

definition sample_prog :: "bpf_insn \<Rightarrow> bpf_program" where
  "sample_prog insn = \<lparr>p_sec_name = [115], p_sec_idx = 3, p_sec_insn_off = 0, p_sec_insn_cnt = 1, p_sub_insn_off = 0,
     p_insns = [insn], p_relos = [], p_load = True, p_func_info = no_info, p_line_info = no_info, p_gen_loader = False\<rparr>"












theorem sample_prog_found: "find_prog_by_sec_insn [sample_prog sample_load] 3 0 = Some (Some 0)"
proof -
  let ?p = "sample_prog sample_load"
  have "progs_ok [?p]" by (simp add: progs_ok_def sample_prog_def)
  then obtain r where r: "find_prog_by_sec_insn [?p] 3 0 = Some r"
    "\<forall>k. r = Some k \<longleftrightarrow> k < length [?p] \<and> p_sec_idx ([?p] ! k) = 3 \<and> prog_contains_insn ([?p] ! k) 0"
    using find_prog_right [of "[?p]" 3 0] by blast
  moreover have "p_sec_idx ?p = 3" "prog_contains_insn ?p 0" by (simp_all add: sample_prog_def prog_contains_insn_def)
  ultimately have "r = Some 0" by (simp del: split_paired_All)
  then show ?thesis using r(1) by simp
qed

text \<open>A section without a program takes the last program for one of its own, and is not reported.\<close>

lemma last_prog_taken: "progs \<noteq> [] \<Longrightarrow> \<forall>p \<in> set progs. p_sec_name p \<noteq> sec_name \<Longrightarrow> find_by_sec_name progs sec_name = Some (last progs)"
  by (induction progs sec_name rule: find_by_sec_name.induct) auto

end
