(* ===== verification/Relo_Code.thy ===== *)
theory Relo_Code
  imports Relo_Object
begin

text \<open>
  Linking subprograms into the programs that call them, \<open>bpf_object__reloc_code\<close> of \<open>libbpf.c\<close>: the code of
  each subprogram that a main program needs is appended to it, with its relocations and its records of
  \<open>.BTF.ext\<close>, and each call is made to point to where the subprogram is now. The state is the list of the
  object's programs; \<open>m\<close> is the place of the main program and \<open>p\<close> that of the program whose calls are
  looked at. Counts of things in memory are natural numbers.
\<close>

section \<open>Calls and their relocations\<close>

definition BPF_OP :: "u8 \<Rightarrow> u8" where "BPF_OP code = code AND 0xf0"

abbreviation (input) BPF_PSEUDO_CALL :: "4 word" where "BPF_PSEUDO_CALL \<equiv> 1"
abbreviation (input) BPF_PSEUDO_FUNC :: "4 word" where "BPF_PSEUDO_FUNC \<equiv> 4"
abbreviation (input) ERRNO_RELOC :: int where "ERRNO_RELOC \<equiv> 4005"

definition insn_is_subprog_call :: "bpf_insn \<Rightarrow> bool" where
  "insn_is_subprog_call insn \<longleftrightarrow> BPF_CLASS (i_code insn) = BPF_JMP \<and> BPF_OP (i_code insn) = BPF_CALL \<and>
     BPF_SRC (i_code insn) = BPF_K \<and> src_reg insn = BPF_PSEUDO_CALL \<and> dst_reg insn = 0 \<and> i_off insn = 0"

definition insn_is_pseudo_func :: "bpf_insn \<Rightarrow> bool" where
  "insn_is_pseudo_func insn \<longleftrightarrow> is_ldimm64_insn insn \<and> src_reg insn = BPF_PSEUDO_FUNC"

definition cmp_relo_by_insn_idx :: "u64 \<Rightarrow> reloc_desc \<Rightarrow> int" where
  "cmp_relo_by_insn_idx insn_idx relo =
     (if insn_idx = scast (rd_insn_idx relo) then 0 else if insn_idx < scast (rd_insn_idx relo) then - 1 else 1)"

text \<open>The binary search of the C library between \<open>l\<close> and \<open>u\<close>.\<close>

function bsearch :: "('a \<Rightarrow> int) \<Rightarrow> 'a list \<Rightarrow> nat \<Rightarrow> nat \<Rightarrow> 'a option" where
  "bsearch compar xs l u =
     (if l < u then
        let idx = (l + u) div 2; c = compar (xs ! idx)
        in if c < 0 then bsearch compar xs l idx else if c > 0 then bsearch compar xs (idx + 1) u else Some (xs ! idx)
      else None)"
  by pat_completeness auto
termination
  by (relation "measure (\<lambda>(compar, xs, l, u). u - l)") auto

definition find_prog_insn_relo :: "bpf_program \<Rightarrow> u64 \<Rightarrow> reloc_desc option" where
  "find_prog_insn_relo prog insn_idx = bsearch (cmp_relo_by_insn_idx insn_idx) (p_relos prog) 0 (length (p_relos prog))"

text \<open>
  The instruction in the section of subprograms that a call leads to; none when the kernel resolves the
  call. An error is on the left.
\<close>

definition sub_insn_idx :: "bpf_program \<Rightarrow> u64 \<Rightarrow> bpf_insn \<Rightarrow> int + u64 option" where
  "sub_insn_idx prog insn_idx insn =
     (case find_prog_insn_relo prog insn_idx of
        Some relo \<Rightarrow>
          if rd_type relo = RELO_EXTERN_FUNC then Inr None
          else if rd_type relo \<noteq> RELO_CALL \<and> rd_type relo \<noteq> RELO_SUBPROG_ADDR then Inl (- ERRNO_RELOC)
          else if rd_type relo = RELO_CALL then Inr (Some (scast (rd_sym_off relo) div 8 + scast (i_imm insn) + 1))
          else Inr (Some (scast (rd_sym_off relo + i_imm insn) div 8))
      | None \<Rightarrow>
          if insn_is_pseudo_func insn then Inl (- ERRNO_RELOC)
          else Inr (Some (p_sec_insn_off prog + insn_idx + scast (i_imm insn) + 1)))"

section \<open>Records on functions and lines\<close>

text \<open>
  What the object is asked for: the place of its \<open>.text\<close> section, its BTF, its \<open>.BTF.ext\<close> if it has one,
  whether the kernel takes the records; and which allocations succeed.
\<close>

record link_env =
  c_text_shndx :: u64
  c_btf :: "btf list"
  c_ext :: "btf_ext option"
  c_func_info :: bool
  c_al_insns :: "nat \<Rightarrow> bool"
  c_al_relos :: "nat \<Rightarrow> bool"
  c_al_info :: bool
  c_junk_byte :: "nat \<Rightarrow> u8"
  c_junk_insn :: bpf_insn

definition prog_is_subprog :: "link_env \<Rightarrow> bpf_program list \<Rightarrow> bpf_program \<Rightarrow> bool" where
  "prog_is_subprog C ps prog \<longleftrightarrow> p_sec_idx prog = c_text_shndx C \<and> length ps > 1"

text \<open>The body of the loop over the records of a section: where the copy starts and ends.\<close>

definition rec_range :: "bytes \<Rightarrow> u32 \<Rightarrow> bpf_program \<Rightarrow> nat \<Rightarrow> nat \<Rightarrow> (nat \<times> nat) option \<Rightarrow> (bool \<times> (nat \<times> nat) option) option" where
  "rec_range d rec_size prog i rec copy = do {
     off \<leftarrow> ld32 d rec;
     let insn_off = (ucast (off div 8) :: u64);
     if insn_off < p_sec_insn_off prog then Some (False, copy)
     else if insn_off \<ge> p_sec_insn_off prog + p_sec_insn_cnt prog then Some (True, copy)
     else Some (False, Some (case copy of None \<Rightarrow> rec | Some (copy_start, _) \<Rightarrow> copy_start, rec + unat rec_size))
   }"

partial_function (option) adjust_recs :: "nat \<Rightarrow> u32 \<Rightarrow> nat \<Rightarrow> nat \<Rightarrow> bytes \<Rightarrow> bytes option" where
  "adjust_recs rec_size off_adj rec rec_end m =
     (if rec < rec_end then do {
        insn_off \<leftarrow> ld32 m rec;
        m \<leftarrow> st32 m rec (insn_off div 8 + off_adj);
        adjust_recs rec_size off_adj (rec + rec_size) rec_end m
      }
      else Some m)"

definition adjust_sec :: "link_env \<Rightarrow> bytes \<Rightarrow> btf_ext_info \<Rightarrow> bpf_program \<Rightarrow> prog_info \<Rightarrow> nat \<Rightarrow> (int \<times> prog_info) option \<Rightarrow>
    (bool \<times> (int \<times> prog_info) option) option" where
  "adjust_sec C d seg prog info sec s = do {
     sec_name_off \<leftarrow> es_sec_name_off d sec;
     sec_name \<leftarrow> name_at (c_btf C) sec_name_off;
     (case sec_name of
        None \<Rightarrow> Some (True, Some (- EINVAL, info))
      | Some sec_name \<Rightarrow>
          if sec_name \<noteq> p_sec_name prog then Some (False, s)
          else do {
            num_info \<leftarrow> es_num_info d sec;
            (_, copy) \<leftarrow> for_each_btf_ext_rec seg (rec_range d (ei_rec_size seg) prog) (unat num_info) 0
              (sec + sizeof_btf_ext_info_sec) None;
            (case copy of
               None \<Rightarrow> Some (True, Some (- ENOENT, info))
             | Some (copy_start, copy_end) \<Rightarrow>
                 let old_sz = unat (pi_cnt info) * unat (ei_rec_size seg); new_sz = old_sz + (copy_end - copy_start)
                 in if \<not> c_al_info C then Some (True, Some (- ENOMEM, info))
                    else do {
                      recs \<leftarrow> ldn d copy_start (copy_end - copy_start);
                      m \<leftarrow> stn (realloc_bytes (c_junk_byte C) (case pi_data info of None \<Rightarrow> [] | Some m \<Rightarrow> m) new_sz) old_sz recs;
                      m \<leftarrow> adjust_recs (unat (ei_rec_size seg)) (of_nat (p_sub_insn_off prog) - ucast (p_sec_insn_off prog))
                        old_sz new_sz m;
                      Some (True, Some (0, \<lparr>pi_data = Some m, pi_rec_size = ei_rec_size seg,
                        pi_cnt = of_nat (new_sz div unat (ei_rec_size seg))\<rparr>))
                    })
          })
   }"

definition adjust_prog_btf_ext_info :: "link_env \<Rightarrow> bytes \<Rightarrow> btf_ext_info \<Rightarrow> bpf_program \<Rightarrow> prog_info \<Rightarrow> (int \<times> prog_info) option" where
  "adjust_prog_btf_ext_info C d seg prog info = do {
     (_, r) \<leftarrow> for_each_btf_ext_sec d seg (adjust_sec C d seg prog info) (ei_info seg) None;
     Some (case r of None \<Rightarrow> (- ENOENT, info) | Some r \<Rightarrow> r)
   }"

text \<open>Each of the two kinds of records; a missing one is ignored as long as none was found before.\<close>

definition reloc_one_info :: "link_env \<Rightarrow> bytes \<Rightarrow> btf_ext_info \<Rightarrow> bool \<Rightarrow> bpf_program \<Rightarrow> prog_info \<Rightarrow> (int \<times> prog_info) option" where
  "reloc_one_info C d seg same_prog prog info =
     (if \<not> same_prog \<and> pi_data info = None then Some (0, info)
      else do {
        (err, info) \<leftarrow> adjust_prog_btf_ext_info C d seg prog info;
        Some (if err \<noteq> 0 \<and> (err \<noteq> - ENOENT \<or> pi_data info \<noteq> None) then err else 0, info)
      })"

definition reloc_prog_func_and_line_info :: "link_env \<Rightarrow> nat \<Rightarrow> nat \<Rightarrow> bpf_program list \<Rightarrow> (int \<times> bpf_program list) option" where
  "reloc_prog_func_and_line_info C m p ps =
     (case c_ext C of
        None \<Rightarrow> Some (0, ps)
      | Some ext \<Rightarrow>
          if \<not> c_func_info C then Some (0, ps)
          else do {
            main \<leftarrow> arr_get ps m;
            prog \<leftarrow> arr_get ps p;
            (err, info) \<leftarrow> reloc_one_info C (e_data ext) (e_func_info ext) (m = p) prog (p_func_info main);
            let main = main\<lparr>p_func_info := info\<rparr>;
            if err \<noteq> 0 then Some (err, ps[m := main])
            else do {
              (err, info) \<leftarrow> reloc_one_info C (e_data ext) (e_line_info ext) (m = p) prog (p_line_info main);
              Some (err, ps[m := main\<lparr>p_line_info := info\<rparr>])
            }
          })"

section \<open>Appending a subprogram\<close>

definition append_subprog_relos :: "link_env \<Rightarrow> nat \<Rightarrow> nat \<Rightarrow> bpf_program list \<Rightarrow> (int \<times> bpf_program list) option" where
  "append_subprog_relos C m t ps =
     (if m = t then Some (0, ps)
      else do {
        main \<leftarrow> arr_get ps m;
        subprog \<leftarrow> arr_get ps t;
        if \<not> c_al_relos C (length (p_relos main) + length (p_relos subprog)) then Some (- ENOMEM, ps)
        else Some (0, ps[m := main\<lparr>p_relos := p_relos main @
          map (\<lambda>relo. relo\<lparr>rd_insn_idx := rd_insn_idx relo + of_nat (p_sub_insn_off subprog)\<rparr>) (p_relos subprog)\<rparr>])
      })"

definition append_subprog :: "link_env \<Rightarrow> nat \<Rightarrow> nat \<Rightarrow> bpf_program list \<Rightarrow> (int \<times> bpf_program list) option" where
  "append_subprog C m t ps = do {
     main \<leftarrow> arr_get ps m;
     subprog \<leftarrow> arr_get ps t;
     let new_cnt = length (p_insns main) + length (p_insns subprog);
     let ps = ps[t := subprog\<lparr>p_sub_insn_off := length (p_insns main)\<rparr>];
     if \<not> c_al_insns C new_cnt then Some (- ENOMEM, ps)
     else do {
       main \<leftarrow> arr_get ps m;
       let ps = ps[m := main\<lparr>p_insns := p_insns main @ replicate (new_cnt - length (p_insns main)) (c_junk_insn C)\<rparr>];
       main \<leftarrow> arr_get ps m;
       subprog \<leftarrow> arr_get ps t;
       if length (p_insns main) < p_sub_insn_off subprog + length (p_insns subprog) then None
       else append_subprog_relos C m t (ps[m := main\<lparr>p_insns := take (p_sub_insn_off subprog) (p_insns main) @ p_insns subprog @
         drop (p_sub_insn_off subprog + length (p_insns subprog)) (p_insns main)\<rparr>])
     }
   }"

section \<open>Linking\<close>

text \<open>
  The loop over the \<open>n\<close> instructions that are left, from \<open>i\<close> on; \<open>recur t\<close> links what subprogram \<open>t\<close>
  calls.
\<close>

primrec reloc_insns :: "(nat \<Rightarrow> bpf_program list \<Rightarrow> (int \<times> bpf_program list) option) \<Rightarrow> link_env \<Rightarrow> nat \<Rightarrow> nat \<Rightarrow> nat \<Rightarrow> nat \<Rightarrow>
    bpf_program list \<Rightarrow> (int \<times> bpf_program list) option" where
  "reloc_insns recur C m p 0 i ps = Some (0, ps)"
| "reloc_insns recur C m p (Suc n) i ps = do {
     main \<leftarrow> arr_get ps m;
     prog \<leftarrow> arr_get ps p;
     insn \<leftarrow> arr_get (p_insns main) (p_sub_insn_off prog + i);
     if \<not> insn_is_subprog_call insn \<and> \<not> insn_is_pseudo_func insn then reloc_insns recur C m p n (i + 1) ps
     else case sub_insn_idx prog (of_nat i) insn of
       Inl err \<Rightarrow> Some (err, ps)
     | Inr None \<Rightarrow> reloc_insns recur C m p n (i + 1) ps
     | Inr (Some idx) \<Rightarrow> do {
         found \<leftarrow> find_prog_by_sec_insn ps (c_text_shndx C) idx;
         (case found of
            None \<Rightarrow> Some (- ERRNO_RELOC, ps)
          | Some t \<Rightarrow> do {
              subprog \<leftarrow> arr_get ps t;
              (err, ps) \<leftarrow> (if p_sub_insn_off subprog = 0
                then do {
                  (err, ps) \<leftarrow> append_subprog C m t ps;
                  if err \<noteq> 0 then Some (err, ps) else recur t ps
                }
                else Some (0, ps));
              if err \<noteq> 0 then Some (err, ps)
              else do {
                main \<leftarrow> arr_get ps m;
                prog \<leftarrow> arr_get ps p;
                subprog \<leftarrow> arr_get ps t;
                let at = p_sub_insn_off prog + i;
                insn \<leftarrow> arr_get (p_insns main) at;
                insns \<leftarrow> arr_set (p_insns main) at (insn\<lparr>i_imm := of_int (int (p_sub_insn_off subprog) - int at - 1)\<rparr>);
                reloc_insns recur C m p n (i + 1) (ps[m := main\<lparr>p_insns := insns\<rparr>])
              }
            })
       }
   }"

primrec bpf_object__reloc_code :: "nat \<Rightarrow> link_env \<Rightarrow> nat \<Rightarrow> nat \<Rightarrow> bpf_program list \<Rightarrow> (int \<times> bpf_program list) option" where
  "bpf_object__reloc_code 0 C m p ps = None"
| "bpf_object__reloc_code (Suc n) C m p ps = do {
     (err, ps) \<leftarrow> reloc_prog_func_and_line_info C m p ps;
     if err \<noteq> 0 then Some (err, ps)
     else do {
       prog \<leftarrow> arr_get ps p;
       reloc_insns (bpf_object__reloc_code n C m) C m p (unat (p_sec_insn_cnt prog)) 0 ps
     }
   }"

definition reset_subprogs :: "link_env \<Rightarrow> bpf_program list \<Rightarrow> bpf_program list" where
  "reset_subprogs C ps = map (\<lambda>subprog. if prog_is_subprog C ps subprog then subprog\<lparr>p_sub_insn_off := 0\<rparr> else subprog) ps"

definition bpf_object__relocate_calls :: "nat \<Rightarrow> link_env \<Rightarrow> nat \<Rightarrow> bpf_program list \<Rightarrow> (int \<times> bpf_program list) option" where
  "bpf_object__relocate_calls n C m ps = bpf_object__reloc_code n C m m (reset_subprogs C ps)"

end
