(* ===== verification/Relo_Info.thy ===== *)
theory Relo_Info
  imports Relo_Code
begin

text \<open>
  The records of \<open>.BTF.ext\<close> on the functions and lines of a program, which linking copies: with tables as
  loading checks them (\<open>table_ok\<close>), all reads and writes are in bounds.
\<close>

definition tables_ok :: "link_env \<Rightarrow> bool" where
  "tables_ok C \<longleftrightarrow> (\<forall>ext. c_ext C = Some ext \<longrightarrow>
     (\<exists>secs. table_ok (e_data ext) 8 (e_func_info ext) secs \<and> (\<forall>sec \<in> set secs. sec_name_at (c_btf C) (e_data ext) sec \<noteq> None)) \<and>
     (\<exists>secs. table_ok (e_data ext) 16 (e_line_info ext) secs \<and> (\<forall>sec \<in> set secs. sec_name_at (c_btf C) (e_data ext) sec \<noteq> None)))"

definition range_in :: "nat \<Rightarrow> nat \<Rightarrow> nat \<Rightarrow> (nat \<times> nat) option \<Rightarrow> bool" where
  "range_in base r i copy \<longleftrightarrow> (\<forall>a b. copy = Some (a, b) \<longrightarrow> (\<exists>x y. a = base + x * r \<and> b = base + y * r \<and> x < y \<and> y \<le> i))"

lemma rec_range_total:
  assumes "8 \<le> unat r" "base + i * unat r + unat r \<le> length d" "range_in base (unat r) i copy"
  shows "\<exists>leave copy'. rec_range d r prog j (base + i * unat r) copy = Some (leave, copy') \<and> range_in base (unat r) (i + 1) copy'"
proof -
  have "base + i * unat r + 4 \<le> length d" using assms(1,2) by linarith
  then obtain off where off: "ld32 d (base + i * unat r) = Some off" by (simp add: ld32_def ldn_def)
  have keep: "range_in base (unat r) (i + 1) copy" using assms(3) by (fastforce simp: range_in_def)
  have grow: "range_in base (unat r) (i + 1) (Some (case copy of None \<Rightarrow> base + i * unat r | Some (a, _) \<Rightarrow> a, base + i * unat r + unat r))"
  proof (cases copy)
    case None
    have "base + i * unat r + unat r = base + (i + 1) * unat r" by simp
    then show ?thesis unfolding range_in_def None option.case
      by (intro allI impI exI [of _ i] exI [of _ "i + 1"]) auto
  next
    case (Some ab)
    then obtain a b x y where xy: "copy = Some (a, b)" "a = base + x * unat r" "x < y" "y \<le> i"
      using assms(3) by (cases ab) (auto simp: range_in_def)
    have "base + i * unat r + unat r = base + (i + 1) * unat r" by simp
    then show ?thesis using xy(2-4) unfolding range_in_def xy(1) option.case prod.case
      by (intro allI impI exI [of _ x] exI [of _ "i + 1"]) auto
  qed
  show ?thesis unfolding rec_range_def off using keep grow by (auto simp: Let_def)
qed

lemma range_in_mono: "range_in base r i copy \<Longrightarrow> i \<le> j \<Longrightarrow> range_in base r j copy"
  unfolding range_in_def using order.trans by blast

lemma recs_total:
  assumes r: "8 \<le> unat (ei_rec_size seg)" and fits: "base + N * unat (ei_rec_size seg) \<le> length d"
  shows "i + n = N \<Longrightarrow> range_in base (unat (ei_rec_size seg)) i copy \<Longrightarrow>
    \<exists>leave copy'. for_each_btf_ext_rec seg (rec_range d (ei_rec_size seg) prog) n i (base + i * unat (ei_rec_size seg)) copy = Some (leave, copy') \<and>
      range_in base (unat (ei_rec_size seg)) N copy'"
proof (induction n arbitrary: i copy)
  case 0
  then have "range_in base (unat (ei_rec_size seg)) N copy" by simp
  then show ?case by auto
next
  case (Suc n)
  let ?r = "unat (ei_rec_size seg)"
  have "(i + 1) * ?r \<le> N * ?r" using Suc.prems(1) by (intro mult_le_mono1) simp
  then have "base + i * ?r + ?r \<le> length d" using fits by simp
  then obtain leave copy' where one: "rec_range d (ei_rec_size seg) prog i (base + i * ?r) copy = Some (leave, copy')"
    "range_in base ?r (i + 1) copy'" using rec_range_total [OF r _ Suc.prems(2)] by blast
  show ?case
  proof (cases leave)
    case True
    have "range_in base ?r N copy'" using one(2) by (rule range_in_mono) (use Suc.prems(1) in simp)
    moreover have "for_each_btf_ext_rec seg (rec_range d (ei_rec_size seg) prog) (Suc n) i (base + i * ?r) copy = Some (True, copy')"
      using one(1) True by simp
    ultimately show ?thesis by blast
  next
    case False
    have eq: "base + i * ?r + ?r = base + Suc i * ?r" by simp
    have "for_each_btf_ext_rec seg (rec_range d (ei_rec_size seg) prog) (Suc n) i (base + i * ?r) copy =
        for_each_btf_ext_rec seg (rec_range d (ei_rec_size seg) prog) n (Suc i) (base + Suc i * ?r) copy'"
      unfolding eq [symmetric] using one(1) False by simp
    then show ?thesis using Suc.IH [of "Suc i" copy'] one(2) Suc.prems(1) by simp
  qed
qed

lemma adjust_recs_total:
  assumes "8 \<le> r" "rec + n * r \<le> length m"
  shows "\<exists>m'. adjust_recs r c rec (rec + n * r) m = Some m' \<and> length m' = length m"
  using assms(2)
proof (induction n arbitrary: rec m)
  case 0
  then show ?case by (subst adjust_recs.simps) simp
next
  case (Suc n)
  have "rec + 4 \<le> length m" using Suc.prems assms(1) by simp
  then obtain v where v: "ld32 m rec = Some v" by (simp add: ld32_def ldn_def)
  obtain m1 where m1: "st32 m rec (v div 8 + c) = Some m1" "length m1 = length m"
    using stn_ok [of rec "le_bytes 4 (unat (v div 8 + c))" m] \<open>rec + 4 \<le> length m\<close> by (auto simp: st32_def)
  have "rec + r + n * r \<le> length m1" using Suc.prems m1(2) by simp
  then obtain m' where "adjust_recs r c (rec + r) (rec + r + n * r) m1 = Some m'" "length m' = length m1"
    using Suc.IH by blast
  moreover have "rec < rec + Suc n * r" "rec + r + n * r = rec + Suc n * r" using assms(1) by simp_all
  ultimately show ?case using v m1 by (subst adjust_recs.simps) simp
qed

lemma adjust_sec_total:
  assumes r: "8 \<le> unat (ei_rec_size seg)" and sec: "es_num_info d sec = Some num" "sec + 8 + unat num * unat (ei_rec_size seg) \<le> length d"
    and name: "sec_name_at (c_btf C) d (sec, num) \<noteq> None"
  shows "\<exists>leave s'. adjust_sec C d seg prog info sec s = Some (leave, s')"
proof -
  let ?r = "unat (ei_rec_size seg)"
  obtain off nm where off: "es_sec_name_off d sec = Some off" "name_at (c_btf C) off = Some nm"
    using name by (auto simp: sec_name_at_def bind_eq_None_conv split: option.splits)
  have "range_in (sec + 8) ?r 0 None" by (simp add: range_in_def)
  from recs_total [OF r sec(2) _ this, of "unat num" prog] obtain leave copy where
    run: "for_each_btf_ext_rec seg (rec_range d (ei_rec_size seg) prog) (unat num) 0 (sec + 8) None = Some (leave, copy)"
    and copy: "range_in (sec + 8) ?r (unat num) copy" by auto
  show ?thesis
  proof (cases "\<exists>n. nm = Some n \<and> n = p_sec_name prog \<and> copy \<noteq> None \<and> c_al_info C")
    case False
    then show ?thesis using off sec(1) run
      by (cases nm; cases copy) (auto simp: adjust_sec_def sizeof_btf_ext_info_sec_def Let_def)
  next
    case True
    then obtain a b where ab': "copy = Some (a, b)" by auto
    obtain x y where ab: "copy = Some (a, b)" "a = sec + 8 + x * ?r" "b = sec + 8 + y * ?r" "x < y" "y \<le> unat num"
      using copy ab' unfolding range_in_def by blast
    have ba: "b - a = (y - x) * ?r" using ab by (simp add: diff_mult_distrib)
    have "y * ?r \<le> unat num * ?r" using ab(5) by (rule mult_le_mono1)
    then have "b \<le> length d" using ab(3) sec(2) by linarith
    moreover have "a \<le> b" using ab by (simp add: mult_le_mono1)
    ultimately have ld: "ldn d a (b - a) = Some (take (b - a) (drop a d))" "length (take (b - a) (drop a d)) = b - a"
      by (simp_all add: ldn_def)
    let ?old = "unat (pi_cnt info) * ?r" and ?data = "case pi_data info of None \<Rightarrow> [] | Some m \<Rightarrow> m"
    have len: "length (realloc_bytes (c_junk_byte C) ?data (?old + (b - a))) = ?old + (b - a)" by (simp add: realloc_bytes_def)
    have "\<exists>m. stn (realloc_bytes (c_junk_byte C) ?data (?old + (b - a))) ?old (take (b - a) (drop a d)) = Some m \<and>
        length m = ?old + (b - a)"
      by (rule stn_ok [of ?old "take (b - a) (drop a d)" "realloc_bytes (c_junk_byte C) ?data (?old + (b - a))", unfolded len])
        (simp only: ld(2) order_refl)
    then obtain m where m: "stn (realloc_bytes (c_junk_byte C) ?data (?old + (b - a))) ?old (take (b - a) (drop a d)) = Some m"
      "length m = ?old + (b - a)" by blast
    then obtain m' where "adjust_recs ?r (of_nat (p_sub_insn_off prog) - ucast (p_sec_insn_off prog)) ?old (?old + (b - a)) m = Some m'"
      using adjust_recs_total [OF r, of ?old "y - x" m] ba by auto
    then show ?thesis using True off sec(1) run ab(1) ld m
      by (auto simp: adjust_sec_def sizeof_btf_ext_info_sec_def Let_def)
  qed
qed

lemma adjust_info_total:
  assumes table: "table_ok d least seg secs" "8 \<le> least" and names: "\<forall>sec \<in> set secs. sec_name_at (c_btf C) d sec \<noteq> None"
  shows "\<exists>err info'. adjust_prog_btf_ext_info C d seg prog info = Some (err, info')"
proof -
  let ?e = "ei_info seg + unat (ei_len seg)"
  have lo: "laid_out d (unat (ei_rec_size seg)) (ei_info seg) secs ?e" using table(1) by (simp add: table_ok_def)
  have "\<exists>leave s'. each_sec (adjust_sec C d seg prog info) secs s = Some (leave, s')" for s
  proof (cases "secs = []")
    case False
    then have r: "least \<le> ei_rec_size seg" "?e \<le> length d" using table(1) by (auto simp: table_ok_def)
    have r8: "8 \<le> unat (ei_rec_size seg)" using order.trans [OF table(2) r(1)] by (simp add: word_le_nat_alt)
    have "laid_out d (unat (ei_rec_size seg)) p here ?e \<Longrightarrow> set here \<subseteq> set secs \<Longrightarrow>
        \<exists>leave s'. each_sec (adjust_sec C d seg prog info) here s = Some (leave, s')" for p "here" s
    proof (induction "here" arbitrary: p s)
      case Nil
      show ?case by (simp add: exI [of _ False])
    next
      case (Cons sec here)
      obtain num where sec: "sec = (p, num)" using Cons.prems(1) by (cases sec) simp
      have "p + 8 + unat num * unat (ei_rec_size seg) \<le> ?e" using Cons.prems(1) sec laid_out_le by fastforce
      then have "\<exists>leave s'. adjust_sec C d seg prog info p s = Some (leave, s')"
        using Cons.prems sec names r(2) by (intro adjust_sec_total [OF r8]) auto
      then obtain leave s' where "adjust_sec C d seg prog info p s = Some (leave, s')" by blast
      then show ?case using Cons sec by (cases leave) auto
    qed
    from this [OF lo order_refl] show ?thesis by simp
  next
    case True
    show ?thesis unfolding True by (simp add: exI [of _ False])
  qed
  then obtain leave s' where "each_sec (adjust_sec C d seg prog info) secs None = Some (leave, s')" by blast
  then show ?thesis
    unfolding adjust_prog_btf_ext_info_def for_each_sec_iff [OF lo order_refl] by (cases s') auto
qed

lemma reloc_info_total:
  assumes "tables_ok C" "m < length ps" "p < length ps"
  shows "\<exists>err f l. reloc_prog_func_and_line_info C m p ps = Some (err, ps[m := (ps ! m)\<lparr>p_func_info := f, p_line_info := l\<rparr>])"
proof -
  have same: "ps[m := (ps ! m)\<lparr>p_func_info := p_func_info (ps ! m), p_line_info := p_line_info (ps ! m)\<rparr>] = ps"
    by simp
  show ?thesis
  proof (cases "c_ext C = None \<or> \<not> c_func_info C")
    case True
    then have "reloc_prog_func_and_line_info C m p ps = Some (0, ps)"
      by (auto simp: reloc_prog_func_and_line_info_def split: option.splits)
    then show ?thesis using same by metis
  next
    case False
    then obtain ext where ext: "c_ext C = Some ext" by auto
    have one: "\<exists>err info'. reloc_one_info C (e_data ext) seg b prog info = Some (err, info')"
      if "seg = e_func_info ext \<or> seg = e_line_info ext" for seg b prog info
    proof -
      have "\<exists>err info'. adjust_prog_btf_ext_info C (e_data ext) seg prog info = Some (err, info')"
        using that assms(1) ext unfolding tables_ok_def by (elim disjE) (auto intro!: adjust_info_total)
      then show ?thesis by (auto simp: reloc_one_info_def)
    qed
    obtain e1 f where f: "reloc_one_info C (e_data ext) (e_func_info ext) (m = p) (ps ! p) (p_func_info (ps ! m)) = Some (e1, f)"
      using one by blast
    obtain e2 l where l: "reloc_one_info C (e_data ext) (e_line_info ext) (m = p) (ps ! p) (p_line_info (ps ! m)) = Some (e2, l)"
      using one by blast
    show ?thesis
    proof (cases "e1 = 0")
      case True
      then show ?thesis
        using ext False assms(2,3) f l by (auto simp: reloc_prog_func_and_line_info_def Let_def)
    next
      case e1: False
      have "ps[m := (ps ! m)\<lparr>p_func_info := f\<rparr>] = ps[m := (ps ! m)\<lparr>p_func_info := f, p_line_info := p_line_info (ps ! m)\<rparr>]"
        by simp
      then have "reloc_prog_func_and_line_info C m p ps =
          Some (e1, ps[m := (ps ! m)\<lparr>p_func_info := f, p_line_info := p_line_info (ps ! m)\<rparr>])"
        using ext False assms(2,3) f e1 by (simp add: reloc_prog_func_and_line_info_def Let_def del: list_update_id)
      then show ?thesis by blast
    qed
  qed
qed

end
