(* ===== verification/Relo_Link.thy ===== *)
theory Relo_Link
  imports Relo_Info
begin

text \<open>
  The invariant of linking (\<open>linking\<close>): what the main program consists of while subprograms are appended to
  it and calls are patched, and that \<open>bpf_object__reloc_code\<close> keeps it.
\<close>

section \<open>Searching the relocations\<close>

declare bsearch.simps [simp del]

lemma bsearch_find:
  assumes "sorted_wrt (\<lambda>a b. f a < f b) xs" "\<forall>x \<in> set xs. compar x = (if key = f x then 0 else if key < f x then - 1 else 1)"
    "u \<le> length xs" "\<forall>i < l. i < length xs \<longrightarrow> f (xs ! i) < key" "\<forall>i. u \<le> i \<longrightarrow> i < length xs \<longrightarrow> key < f (xs ! i)"
  shows "bsearch compar xs l u = find (\<lambda>x. f x = (key :: nat)) xs"
  using assms
proof (induction compar xs l u rule: bsearch.induct)
  case (1 compar xs l u)
  note step = bsearch.simps [of compar xs l u]
  show ?case
  proof (cases "l < u")
    case False
    have "f x \<noteq> key" if "x \<in> set xs" for x
    proof -
      obtain i where i: "i < length xs" "x = xs ! i" using \<open>x \<in> set xs\<close> by (auto simp: in_set_conv_nth)
      then have "f (xs ! i) < key \<or> key < f (xs ! i)" using "1.prems"(4,5) False by (meson not_less order.trans)
      then show ?thesis using i(2) by auto
    qed
    then have "find (\<lambda>x. f x = key) xs = None" by (simp add: find_None_iff)
    then show ?thesis using False step by simp
  next
    case True
    let ?idx = "(l + u) div 2"
    have idx: "l \<le> ?idx" "?idx < u" "?idx < length xs" using True "1.prems"(3) by auto
    have c: "compar (xs ! ?idx) = (if key = f (xs ! ?idx) then 0 else if key < f (xs ! ?idx) then - 1 else 1)"
      using "1.prems"(2) idx(3) by simp
    have mono: "f (xs ! i) < f (xs ! j)" if "i < j" "j < length xs" for i j
      using "1.prems"(1) that by (simp add: sorted_wrt_iff_nth_less)
    show ?thesis
    proof (cases "key = f (xs ! ?idx)")
      case found: True
      have "find (\<lambda>x. f x = key) xs = Some (xs ! ?idx)"
        unfolding find_Some_iff
      proof (intro exI conjI allI impI)
        show "?idx < length xs" "f (xs ! ?idx) = key" "xs ! ?idx = xs ! ?idx" using idx(3) found by simp_all
        show "f (xs ! j) \<noteq> key" if "j < ?idx" for j using mono [OF that idx(3)] found by simp
      qed
      then show ?thesis using True step c found by (simp add: Let_def)
    next
      case False
      show ?thesis
      proof (cases "key < f (xs ! ?idx)")
        case below: True
        have "key < f (xs ! i)" if "?idx \<le> i" "i < length xs" for i
          using below mono [of ?idx i] that by (cases "i = ?idx") auto
        then have "bsearch compar xs l ?idx = find (\<lambda>x. f x = key) xs"
          using below "1.prems" c idx(3) by (intro "1.IH"(1) [OF True refl refl]) auto
        then show ?thesis using True step c below by (simp add: Let_def)
      next
        case above: False
        have "f (xs ! i) < key" if "i < ?idx + 1" "i < length xs" for i
          using above False mono [of i ?idx] that idx(3) by (cases "i = ?idx") auto
        then have "bsearch compar xs (?idx + 1) u = find (\<lambda>x. f x = key) xs"
          using above False "1.prems" c by (intro "1.IH"(2) [OF True refl refl]) auto
        then show ?thesis using True step c above False by (simp add: Let_def)
      qed
    qed
  qed
qed

text \<open>Relocations in order, for instructions of a program of \<open>n\<close>.\<close>

definition relos_ok :: "nat \<Rightarrow> reloc_desc list \<Rightarrow> bool" where
  "relos_ok n rs \<longleftrightarrow> sorted_wrt (\<lambda>a b. unat (rd_insn_idx a) < unat (rd_insn_idx b)) rs \<and> (\<forall>r \<in> set rs. unat (rd_insn_idx r) < n)"

lemma scast_small: "unat (x :: u32) < 2 ^ 31 \<Longrightarrow> (scast x :: u64) = of_nat (unat x)"
proof -
  assume "unat x < 2 ^ 31"
  then have "int (unat x) < int (2 ^ 31)" by (simp only: of_nat_less_iff)
  then have "uint x < 2 ^ 31" by simp
  moreover have "- (2 ^ 31) \<le> uint x" by (rule order.trans [of _ 0]) simp_all
  ultimately have "signed_take_bit 31 (uint x) = uint x" by (intro signed_take_bit_int_eq_self)
  then have "sint x = uint x" by (simp add: sint_uint)
  then have "sint x = int (unat x)" unfolding uint_nat .
  then show ?thesis unfolding scast_eq by simp
qed

lemma find_relo:
  assumes "relos_ok n (p_relos prog)" "n \<le> 2 ^ 31" "j < n"
  shows "find_prog_insn_relo prog (of_nat j) = find (\<lambda>r. unat (rd_insn_idx r) = j) (p_relos prog)"
proof -
  have "cmp_relo_by_insn_idx (of_nat j) r =
      (if j = unat (rd_insn_idx r) then 0 else if j < unat (rd_insn_idx r) then - 1 else 1)" if "r \<in> set (p_relos prog)" for r
  proof -
    have "unat (rd_insn_idx r) < 2 ^ 31" using assms that by (auto simp: relos_ok_def)
    then have s: "(scast (rd_insn_idx r) :: u64) = of_nat (unat (rd_insn_idx r))" by (rule scast_small)
    have u: "unat (of_nat j :: u64) = j" "unat (of_nat (unat (rd_insn_idx r)) :: u64) = unat (rd_insn_idx r)"
      using assms(2,3) \<open>unat (rd_insn_idx r) < 2 ^ 31\<close> unfolding unat_of_nat by simp_all
    show ?thesis unfolding cmp_relo_by_insn_idx_def s word_less_nat_alt word_unat_eq_iff u by simp
  qed
  then show ?thesis
    unfolding find_prog_insn_relo_def using assms(1) by (intro bsearch_find) (auto simp: relos_ok_def)
qed

lemma find_relo_append:
  assumes "relos_ok n (p_relos prog')" "n \<le> 2 ^ 31" "j < k" "k \<le> n" "p_relos prog' = p_relos prog @ ext"
    "\<forall>r \<in> set ext. k \<le> unat (rd_insn_idx r)" "relos_ok k (p_relos prog)"
  shows "find_prog_insn_relo prog' (of_nat j) = find_prog_insn_relo prog (of_nat j)"
proof -
  have "find (\<lambda>r. unat (rd_insn_idx r) = j) ext = None" using assms(3,6) by (auto simp: find_None_iff)
  then have "find (\<lambda>r. unat (rd_insn_idx r) = j) (rs @ ext) = find (\<lambda>r. unat (rd_insn_idx r) = j) rs" for rs
    by (induction rs) simp_all
  then show ?thesis using assms by (simp add: find_relo)
qed

section \<open>What linking makes of a program\<close>

text \<open>The subprogram a call of program \<open>k\<close> leads to, from the programs as they are before linking.\<close>

definition call_target :: "link_env \<Rightarrow> bpf_program list \<Rightarrow> nat \<Rightarrow> nat \<Rightarrow> nat option" where
  "call_target C P k j =
     (let insn = p_insns (P ! k) ! j in
      if \<not> insn_is_subprog_call insn \<and> \<not> insn_is_pseudo_func insn then None
      else case sub_insn_idx (P ! k) (of_nat j) insn of
        Inr (Some idx) \<Rightarrow> (case find_prog_by_sec_insn P (c_text_shndx C) idx of Some (Some t) \<Rightarrow> Some t | _ \<Rightarrow> None)
      | _ \<Rightarrow> None)"

text \<open>The instruction in the linked program, where the code of program \<open>k\<close> starts at \<open>off k\<close>.\<close>

definition linked_insn :: "link_env \<Rightarrow> bpf_program list \<Rightarrow> (nat \<Rightarrow> nat) \<Rightarrow> nat \<Rightarrow> nat \<Rightarrow> bpf_insn" where
  "linked_insn C P off k j = (case call_target C P k j of
     None \<Rightarrow> p_insns (P ! k) ! j
   | Some t \<Rightarrow> (p_insns (P ! k) ! j)\<lparr>i_imm := of_int (int (off t) - int (off k + j) - 1)\<rparr>)"

abbreviation code_len :: "bpf_program list \<Rightarrow> nat \<Rightarrow> nat" where "code_len P k \<equiv> length (p_insns (P ! k))"

definition shifted :: "nat \<Rightarrow> reloc_desc list \<Rightarrow> reloc_desc list" where
  "shifted n = map (\<lambda>relo. relo\<lparr>rd_insn_idx := rd_insn_idx relo + of_nat n\<rparr>)"

definition sub_off :: "bpf_program list \<Rightarrow> nat \<Rightarrow> nat" where "sub_off ps k = p_sub_insn_off (ps ! k)"

text \<open>
  The programs of an object before main program \<open>m\<close> is linked; it is not in the section of subprograms.
  Main programs that were linked before may be longer than the code of their section.
\<close>

definition parts :: "link_env \<Rightarrow> nat \<Rightarrow> bpf_program list \<Rightarrow> nat set" where
  "parts C m P = {k. k < length P \<and> (k = m \<or> p_sec_idx (P ! k) = c_text_shndx C)}"

definition linkable :: "link_env \<Rightarrow> nat \<Rightarrow> bpf_program list \<Rightarrow> bool" where
  "linkable C m P \<longleftrightarrow> progs_ok P \<and> m < length P \<and> p_sec_idx (P ! m) \<noteq> c_text_shndx C \<and> tables_ok C \<and>
     (\<Sum>k \<in> parts C m P. code_len P k) < 2 ^ 31 \<and>
     (\<forall>k \<in> parts C m P. p_insns (P ! k) \<noteq> [] \<and> unat (p_sec_insn_cnt (P ! k)) = code_len P k \<and>
        relos_ok (code_len P k) (p_relos (P ! k))) \<and>
     (\<forall>k < length P. p_sec_idx (P ! k) \<noteq> c_text_shndx C \<longrightarrow> p_sub_insn_off (P ! k) = 0)"

definition link_ok :: "link_env \<Rightarrow> nat \<Rightarrow> bpf_program list \<Rightarrow> bool" where
  "link_ok C m P \<longleftrightarrow> linkable C m P \<and> (\<forall>k < length P. p_sub_insn_off (P ! k) = 0)"

lemma parts_less: "k \<in> parts C m P \<Longrightarrow> k < length P"
  by (simp add: parts_def)

lemma link_okD:
  assumes "link_ok C m P"
  shows "progs_ok P" "m < length P" "p_sec_idx (P ! m) \<noteq> c_text_shndx C" "tables_ok C" "m \<in> parts C m P"
    "(\<Sum>k \<in> parts C m P. code_len P k) < 2 ^ 31"
    "\<And>k. k < length P \<Longrightarrow> p_sub_insn_off (P ! k) = 0" "\<And>k. k \<in> parts C m P \<Longrightarrow> 0 < code_len P k"
    "\<And>k. k \<in> parts C m P \<Longrightarrow> unat (p_sec_insn_cnt (P ! k)) = code_len P k"
    "\<And>k. k \<in> parts C m P \<Longrightarrow> relos_ok (code_len P k) (p_relos (P ! k))"
  using assms by (simp_all add: link_ok_def linkable_def parts_def)

text \<open>The members of the main program that linking changes.\<close>

definition same_but :: "bpf_program \<Rightarrow> bpf_program \<Rightarrow> bool" where
  "same_but x y \<longleftrightarrow> x = y\<lparr>p_insns := p_insns x, p_relos := p_relos x, p_func_info := p_func_info x, p_line_info := p_line_info x\<rparr>"

lemma same_but_refl [simp]: "same_but x x"
  by (simp add: same_but_def)

lemma same_but_update [simp]:
  "same_but x y \<Longrightarrow> same_but (x\<lparr>p_insns := I\<rparr>) y" "same_but x y \<Longrightarrow> same_but (x\<lparr>p_relos := R\<rparr>) y"
  "same_but x y \<Longrightarrow> same_but (x\<lparr>p_func_info := F\<rparr>) y" "same_but x y \<Longrightarrow> same_but (x\<lparr>p_line_info := F\<rparr>) y"
  by (cases x; cases y; simp add: same_but_def)+

lemma same_but_members:
  assumes "same_but x y"
  shows "p_sec_idx x = p_sec_idx y" "p_sec_insn_off x = p_sec_insn_off y" "p_sec_insn_cnt x = p_sec_insn_cnt y"
    "p_sec_name x = p_sec_name y" "p_sub_insn_off x = p_sub_insn_off y"
  using assms by (cases x; cases y; simp add: same_but_def)+

text \<open>
  The state while linking: \<open>ord\<close> are the programs linked so far in the order of their code, and \<open>D\<close> are
  the instructions that have got their final form.
\<close>

definition linking :: "link_env \<Rightarrow> nat \<Rightarrow> bpf_program list \<Rightarrow> bpf_program list \<Rightarrow> nat list \<Rightarrow> (nat \<times> nat) set \<Rightarrow> bool" where
  "linking C m P ps ord D \<longleftrightarrow> length ps = length P \<and>
     ord \<noteq> [] \<and> hd ord = m \<and> distinct ord \<and> set ord \<subseteq> parts C m P \<and> D \<subseteq> {(k, j). k \<in> set ord \<and> j < code_len P k} \<and>
     (\<forall>k < length P. k \<noteq> m \<longrightarrow> ps ! k = (P ! k)\<lparr>p_sub_insn_off := sub_off ps k\<rparr>) \<and>
     same_but (ps ! m) (P ! m) \<and>
     (\<forall>k < length P. k \<notin> set ord \<longrightarrow> sub_off ps k = 0) \<and>
     (\<forall>i < length ord. sub_off ps (ord ! i) = sum_list (map (code_len P) (take i ord))) \<and>
     length (p_insns (ps ! m)) = sum_list (map (code_len P) ord) \<and>
     (\<exists>ext. p_relos (ps ! m) = p_relos (P ! m) @ ext \<and> (\<forall>r \<in> set ext. code_len P m \<le> unat (rd_insn_idx r))) \<and>
     relos_ok (length (p_insns (ps ! m))) (p_relos (ps ! m)) \<and>
     p_relos (ps ! m) = concat (map (\<lambda>k. shifted (sub_off ps k) (p_relos (P ! k))) ord) \<and>
     (\<forall>(k, j) \<in> D. \<forall>t. call_target C P k j = Some t \<longrightarrow> t \<in> set ord) \<and>
     (\<forall>k \<in> set ord. \<forall>j < code_len P k. p_insns (ps ! m) ! (sub_off ps k + j) =
        (if (k, j) \<in> D then linked_insn C P (sub_off ps) k j else p_insns (P ! k) ! j))"

lemma len_le_total:
  assumes "distinct ord" "set ord \<subseteq> parts C m P"
  shows "sum_list (map (code_len P) ord) \<le> (\<Sum>k \<in> parts C m P. code_len P k)"
proof -
  have "finite (parts C m P)" by (simp add: parts_def)
  then show ?thesis using assms by (simp add: sum_list_distinct_conv_sum_set sum_mono2)
qed

lemma sum_take_le: "i \<le> j \<Longrightarrow> sum_list (map f (take i xs)) \<le> sum_list (map (f :: nat \<Rightarrow> nat) (take j xs))"
proof -
  assume "i \<le> j"
  then have "take j xs = take i xs @ drop i (take j xs)" by (metis append_take_drop_id min.absorb1 take_take)
  then show ?thesis by (metis le_add1 map_append sum_list_append)
qed

lemma sum_take_Suc: "i < length xs \<Longrightarrow> sum_list (map f (take (Suc i) xs)) = sum_list (map f (take i xs)) + (f (xs ! i) :: nat)"
  by (simp add: take_Suc_conv_app_nth)

lemma linking_place:
  assumes "linking C m P ps ord D" "k \<in> set ord"
  shows "sub_off ps k + code_len P k \<le> length (p_insns (ps ! m))"
proof -
  obtain i where i: "i < length ord" "ord ! i = k" using assms(2) by (auto simp: in_set_conv_nth)
  have "sub_off ps k + code_len P k = sum_list (map (code_len P) (take (Suc i) ord))"
    using assms(1) i sum_take_Suc [of i ord "code_len P"] by (auto simp: linking_def)
  also have "\<dots> \<le> sum_list (map (code_len P) (take (length ord) ord))" using i(1) by (intro sum_take_le) simp
  finally show ?thesis using assms(1) by (simp add: linking_def)
qed

lemma linking_inj:
  assumes L: "linking C m P ps ord D" and k: "k \<in> set ord" "j < code_len P k" and k': "k' \<in> set ord" "j' < code_len P k'"
    and eq: "sub_off ps k + j = sub_off ps k' + j'"
  shows "k = k' \<and> j = j'"
proof -
  have place: "sub_off ps (ord ! i) + code_len P (ord ! i) \<le> sub_off ps (ord ! i')" if "i < i'" "i' < length ord" for i i'
  proof -
    have "sub_off ps (ord ! i) + code_len P (ord ! i) = sum_list (map (code_len P) (take (Suc i) ord))"
      using L that sum_take_Suc [of i ord "code_len P"] by (auto simp: linking_def)
    also have "\<dots> \<le> sum_list (map (code_len P) (take i' ord))" using that by (intro sum_take_le) simp
    finally show ?thesis using L that by (simp add: linking_def)
  qed
  obtain i i' where i: "i < length ord" "ord ! i = k" "i' < length ord" "ord ! i' = k'"
    using k(1) k'(1) by (auto simp: in_set_conv_nth)
  have "i = i'"
  proof (rule ccontr)
    assume "i \<noteq> i'"
    then consider "i < i'" | "i' < i" by linarith
    then show False using place [of i i'] place [of i' i] i k(2) k'(2) eq by cases auto
  qed
  then show ?thesis using i eq by auto
qed

lemma linking_members:
  assumes L: "linking C m P ps ord D" and ok: "link_ok C m P" and k: "k < length P"
  shows "p_sec_idx (ps ! k) = p_sec_idx (P ! k)" "p_sec_insn_off (ps ! k) = p_sec_insn_off (P ! k)"
    "p_sec_insn_cnt (ps ! k) = p_sec_insn_cnt (P ! k)" "p_sec_name (ps ! k) = p_sec_name (P ! k)" "k \<noteq> m \<Longrightarrow> p_insns (ps ! k) = p_insns (P ! k)"
    "k \<noteq> m \<Longrightarrow> p_relos (ps ! k) = p_relos (P ! k)" "sub_off ps m = 0"
proof -
  have other: "k \<noteq> m \<longrightarrow> ps ! k = (P ! k)\<lparr>p_sub_insn_off := sub_off ps k\<rparr>" using L k by (simp add: linking_def)
  have mm: "p_sec_idx (ps ! m) = p_sec_idx (P ! m)" "p_sec_insn_off (ps ! m) = p_sec_insn_off (P ! m)"
    "p_sec_insn_cnt (ps ! m) = p_sec_insn_cnt (P ! m)" "p_sec_name (ps ! m) = p_sec_name (P ! m)" "p_sub_insn_off (ps ! m) = p_sub_insn_off (P ! m)"
    using L same_but_members unfolding linking_def by blast+
  have kk: "p_sec_idx (ps ! k) = p_sec_idx (P ! k)" "p_sec_insn_off (ps ! k) = p_sec_insn_off (P ! k)"
    "p_sec_insn_cnt (ps ! k) = p_sec_insn_cnt (P ! k)" "p_sec_name (ps ! k) = p_sec_name (P ! k)" "p_insns (ps ! k) = p_insns (P ! k)"
    "p_relos (ps ! k) = p_relos (P ! k)" if "k \<noteq> m"
    by (simp_all add: other [rule_format, OF that])
  show "p_sec_idx (ps ! k) = p_sec_idx (P ! k)" "p_sec_insn_off (ps ! k) = p_sec_insn_off (P ! k)"
    "p_sec_insn_cnt (ps ! k) = p_sec_insn_cnt (P ! k)" "p_sec_name (ps ! k) = p_sec_name (P ! k)" "k \<noteq> m \<Longrightarrow> p_insns (ps ! k) = p_insns (P ! k)"
    "k \<noteq> m \<Longrightarrow> p_relos (ps ! k) = p_relos (P ! k)"
    using kk mm by (cases "k = m"; simp)+
  show "sub_off ps m = 0" using mm(5) link_okD(2,7) [OF ok] by (simp add: sub_off_def)
qed

lemma linking_linked:
  assumes L: "linking C m P ps ord D" and ok: "link_ok C m P" and k: "k < length P" "k \<noteq> m"
  shows "sub_off ps k = 0 \<longleftrightarrow> k \<notin> set ord"
proof
  assume "k \<notin> set ord"
  then show "sub_off ps k = 0" using L k by (simp add: linking_def)
next
  assume zero: "sub_off ps k = 0"
  show "k \<notin> set ord"
  proof
    assume "k \<in> set ord"
    moreover have "m \<in> set ord" "set ord \<subseteq> parts C m P" using L by (auto simp: linking_def)
    moreover have "0 < code_len P k" "0 < code_len P m" using calculation link_okD(8) [OF ok] by auto
    ultimately show False
      using linking_inj [OF L, of k 0 m 0] zero linking_members(7) [OF L ok k(1)] k(2) by simp
  qed
qed

lemma find_prog_loop_cong:
  assumes "length ps = length P" "\<forall>k < length P. p_sec_idx (ps ! k) = p_sec_idx (P ! k) \<and> p_sec_insn_off (ps ! k) = p_sec_insn_off (P ! k)"
  shows "find_prog_loop ps sec_idx insn_idx l r = find_prog_loop P sec_idx insn_idx l r"
  using assms
proof (induction ps sec_idx insn_idx l r rule: find_prog_loop.induct)
  case (1 ps sec_idx insn_idx l r)
  note steps = find_prog_loop.simps [of ps sec_idx insn_idx l r] find_prog_loop.simps [of P sec_idx insn_idx l r]
  let ?m = "nat (l + (r - l + 1) div 2)"
  show ?case
  proof (cases "l < r \<and> ?m < length P")
    case False
    then show ?thesis using "1.prems"(1) unfolding steps by (auto simp: Let_def arr_get_def)
  next
    case True
    then have get: "arr_get ps ?m = Some (ps ! ?m)" "arr_get P ?m = Some (P ! ?m)" using "1.prems"(1) by simp_all
    have same: "p_sec_idx (ps ! ?m) = p_sec_idx (P ! ?m)" "p_sec_insn_off (ps ! ?m) = p_sec_insn_off (P ! ?m)"
      using True "1.prems"(2) by simp_all
    show ?thesis
      unfolding steps Let_def get using True "1.IH" [OF conjunct1 [OF True] refl get(1)] "1.prems" same
      by (auto simp del: arr_get_Some)
  qed
qed

lemma linking_find:
  assumes L: "linking C m P ps ord D" and ok: "link_ok C m P"
  shows "find_prog_by_sec_insn ps sec_idx insn_idx = find_prog_by_sec_insn P sec_idx insn_idx"
proof -
  have len: "length ps = length P" using L by (simp add: linking_def)
  note same = linking_members(1-3) [OF L ok]
  have "find_prog_loop ps sec_idx insn_idx l r = find_prog_loop P sec_idx insn_idx l r" for l r
    using len same by (intro find_prog_loop_cong) auto
  moreover have "(do { prog \<leftarrow> arr_get ps k; Some (if p_sec_idx prog = sec_idx \<and> prog_contains_insn prog insn_idx then Some k else None) }) =
      (do { prog \<leftarrow> arr_get P k; Some (if p_sec_idx prog = sec_idx \<and> prog_contains_insn prog insn_idx then Some k else None) })" for k
    using same [of k] len by (cases "k < length P") (simp_all add: prog_contains_insn_def)
  ultimately show ?thesis unfolding find_prog_by_sec_insn_def len by simp
qed

lemma linking_small:
  assumes L: "linking C m P ps ord D" and ok: "link_ok C m P"
  shows "length (p_insns (ps ! m)) < 2 ^ 31"
proof -
  have "length (p_insns (ps ! m)) \<le> (\<Sum>k \<in> parts C m P. code_len P k)"
    using len_le_total [of ord C m P] L by (simp add: linking_def)
  then show ?thesis using link_okD(6) [OF ok] by linarith
qed

lemma linking_call:
  assumes L: "linking C m P ps ord D" and ok: "link_ok C m P" and p: "p \<in> set ord" "j < code_len P p"
  shows "sub_insn_idx (ps ! p) (of_nat j) insn = sub_insn_idx (P ! p) (of_nat j) insn"
proof -
  have part: "p \<in> parts C m P" using L p(1) by (auto simp: linking_def)
  then have len: "p < length P" by (rule parts_less)
  have "find_prog_insn_relo (ps ! p) (of_nat j) = find_prog_insn_relo (P ! p) (of_nat j)"
  proof (cases "p = m")
    case False
    then show ?thesis using linking_members(6) [OF L ok len] by (simp add: find_prog_insn_relo_def)
  next
    case True
    obtain ext where ext: "p_relos (ps ! m) = p_relos (P ! m) @ ext" "\<forall>r \<in> set ext. code_len P m \<le> unat (rd_insn_idx r)"
      using L by (auto simp: linking_def)
    have "code_len P m \<le> length (p_insns (ps ! m))" using linking_place [OF L p(1)] True by simp
    moreover have "relos_ok (code_len P m) (p_relos (P ! m))" using link_okD(5,10) [OF ok] by blast
    moreover have "relos_ok (length (p_insns (ps ! m))) (p_relos (ps ! m))" using L unfolding linking_def by blast
    ultimately show ?thesis
      using linking_small [OF L ok] p(2) ext True by (intro find_relo_append [where n = "length (p_insns (ps ! m))"]) auto
  qed
  then show ?thesis unfolding sub_insn_idx_def linking_members(2) [OF L ok len] by (simp only:)
qed

section \<open>One instruction\<close>

lemma linking_insn:
  assumes "linking C m P ps ord D" "k \<in> set ord" "j < code_len P k"
  shows "p_insns (ps ! m) ! (sub_off ps k + j) = (if (k, j) \<in> D then linked_insn C P (sub_off ps) k j else p_insns (P ! k) ! j)"
  using assms unfolding linking_def by blast

text \<open>An instruction that is not a call of a subprogram is final as it is.\<close>

lemma linking_skip:
  assumes L: "linking C m P ps ord D" and k: "k \<in> set ord" "j < code_len P k" and none: "call_target C P k j = None"
  shows "linking C m P ps ord (insert (k, j) D)"
proof -
  have "linked_insn C P (sub_off ps) k j = p_insns (P ! k) ! j" using none by (simp add: linked_insn_def)
  then have "p_insns (ps ! m) ! (sub_off ps k' + j') =
      (if (k', j') \<in> insert (k, j) D then linked_insn C P (sub_off ps) k' j' else p_insns (P ! k') ! j')"
    if "k' \<in> set ord" "j' < code_len P k'" for k' j'
    using linking_insn [OF L that] by (cases "(k', j') = (k, j)") auto
  then show ?thesis using L k none unfolding linking_def by auto
qed

text \<open>A call is patched.\<close>

lemma linking_patch:
  assumes L: "linking C m P ps ord D" and ok: "link_ok C m P" and k: "k \<in> set ord" "j < code_len P k" "(k, j) \<notin> D"
    and t: "call_target C P k j = Some t" "t \<in> set ord"
    and at: "at = sub_off ps k + j"
    and ps': "ps' = ps[m := (ps ! m)\<lparr>p_insns := (p_insns (ps ! m))[at := (p_insns (ps ! m) ! at)\<lparr>i_imm := of_int (int (sub_off ps t) - int at - 1)\<rparr>]\<rparr>]"
  shows "linking C m P ps' ord (insert (k, j) D) \<and> sub_off ps' = sub_off ps"
proof -
  have m: "m < length ps" using L link_okD(2) [OF ok] by (simp add: linking_def)
  have off: "sub_off ps' = sub_off ps" using m by (auto simp: fun_eq_iff sub_off_def ps' nth_list_update)
  have main: "ps' ! m = (ps ! m)\<lparr>p_insns := p_insns (ps' ! m)\<rparr>" using m by (simp add: ps')
  have fields: "p_relos (ps' ! m) = p_relos (ps ! m)" "p_func_info (ps' ! m) = p_func_info (ps ! m)"
    "p_line_info (ps' ! m) = p_line_info (ps ! m)" by (subst main, simp)+
  have insns: "p_insns (ps' ! m) = (p_insns (ps ! m))[at := (p_insns (ps ! m) ! at)\<lparr>i_imm := of_int (int (sub_off ps t) - int at - 1)\<rparr>]"
    using m by (simp add: ps')
  have at_lt: "at < length (p_insns (ps ! m))" using linking_place [OF L k(1)] k(2) at by simp
  have new: "p_insns (ps' ! m) ! at = linked_insn C P (sub_off ps) k j"
    using at_lt linking_insn [OF L k(1,2)] k(3) t(1) at by (simp add: insns linked_insn_def)
  have "p_insns (ps' ! m) ! (sub_off ps k' + j') =
      (if (k', j') \<in> insert (k, j) D then linked_insn C P (sub_off ps) k' j' else p_insns (P ! k') ! j')"
    if k': "k' \<in> set ord" "j' < code_len P k'" for k' j'
  proof (cases "(k', j') = (k, j)")
    case True
    then show ?thesis using new at by simp
  next
    case False
    then have "sub_off ps k' + j' \<noteq> at" using linking_inj [OF L k' k(1,2)] at by auto
    then show ?thesis using linking_insn [OF L k'] False insns by auto
  qed
  moreover have "same_but (ps' ! m) (P ! m)" using L by (subst main) (simp add: linking_def)
  moreover have "ps' ! k' = ps ! k'" if "k' \<noteq> m" for k' using that by (simp add: ps')
  moreover have "length ps' = length ps" "length (p_insns (ps' ! m)) = length (p_insns (ps ! m))" by (simp add: ps') (simp add: insns)
  ultimately show ?thesis using L k t off unfolding linking_def fields off by auto
qed

lemma linking_base:
  assumes "linking C m P ps ord D"
  shows "length ps = length P" "m \<in> set ord" "distinct ord" "set ord \<subseteq> parts C m P" "m < length P"
    "length (p_insns (ps ! m)) = sum_list (map (code_len P) ord)"
    "\<And>i. i < length ord \<Longrightarrow> sub_off ps (ord ! i) = sum_list (map (code_len P) (take i ord))"
proof -
  show "m \<in> set ord" using assms unfolding linking_def by (auto simp: neq_Nil_conv)
  then show "m < length P" using assms parts_less unfolding linking_def by blast
qed (insert assms, unfold linking_def, blast)+

lemma linking_relos: "linking C m P ps ord D \<Longrightarrow> p_relos (ps ! m) = concat (map (\<lambda>k. shifted (sub_off ps k) (p_relos (P ! k))) ord)"
  unfolding linking_def by blast

text \<open>A subprogram is appended.\<close>

definition appended :: "nat \<Rightarrow> nat \<Rightarrow> bpf_program list \<Rightarrow> bpf_program list" where
  "appended m t ps = (let n = length (p_insns (ps ! m)) in
     ps[t := (ps ! t)\<lparr>p_sub_insn_off := n\<rparr>,
        m := (ps ! m)\<lparr>p_insns := p_insns (ps ! m) @ p_insns (ps ! t),
          p_relos := p_relos (ps ! m) @ map (\<lambda>relo. relo\<lparr>rd_insn_idx := rd_insn_idx relo + of_nat n\<rparr>) (p_relos (ps ! t))\<rparr>])"

lemma append_subprog_eq:
  assumes "m < length ps" "t < length ps" "t \<noteq> m"
  shows "\<exists>err ps'. append_subprog C m t ps = Some (err, ps') \<and> (err = 0 \<longrightarrow> ps' = appended m t ps)"
proof -
  let ?n = "length (p_insns (ps ! m))"
  show ?thesis
  proof (cases "c_al_insns C (?n + length (p_insns (ps ! t))) \<and> c_al_relos C (length (p_relos (ps ! m)) + length (p_relos (ps ! t)))")
    case False
    then show ?thesis
      using assms by (auto simp: append_subprog_def append_subprog_relos_def Let_def nth_list_update)
  next
    case True
    then have "append_subprog C m t ps = Some (0, appended m t ps)"
      using assms by (auto simp: append_subprog_def append_subprog_relos_def Let_def nth_list_update appended_def list_update_swap)
    then show ?thesis by blast
  qed
qed

lemma linking_append:
  assumes L: "linking C m P ps ord D" and ok: "link_ok C m P" and t: "t \<in> parts C m P" "t \<notin> set ord"
  shows "linking C m P (appended m t ps) (ord @ [t]) D \<and> (\<forall>k \<in> set ord. sub_off (appended m t ps) k = sub_off ps k)"
proof -
  let ?ps = "appended m t ps" and ?n = "length (p_insns (ps ! m))"
  note base = linking_base [OF L]
  have t': "t < length P" using t(1) by (rule parts_less)
  have m: "m < length ps" "m \<noteq> t" "t < length ps" using base t t' by auto
  have tt: "?ps ! t = (ps ! t)\<lparr>p_sub_insn_off := ?n\<rparr>" using m by (simp add: appended_def Let_def)
  have insns_t: "p_insns (ps ! t) = p_insns (P ! t)" "p_relos (ps ! t) = p_relos (P ! t)"
    using linking_members(5,6) [OF L ok t'] m(2) by simp_all
  let ?new = "map (\<lambda>relo. relo\<lparr>rd_insn_idx := rd_insn_idx relo + of_nat ?n\<rparr>) (p_relos (P ! t))"
  have mm: "?ps ! m = (ps ! m)\<lparr>p_insns := p_insns (ps ! m) @ p_insns (P ! t), p_relos := p_relos (ps ! m) @ ?new\<rparr>"
    using m insns_t by (simp add: appended_def Let_def)
  have other: "?ps ! k = ps ! k" if "k \<noteq> t" "k \<noteq> m" for k using that by (simp add: appended_def Let_def)
  have off: "sub_off ?ps k = (if k = t then ?n else sub_off ps k)" for k
  proof -
    consider "k = t" | "k = m" | "k \<noteq> t" "k \<noteq> m" by blast
    then show ?thesis
    proof cases
      case 1
      show ?thesis unfolding sub_off_def 1 tt by simp
    next
      case 2
      then show ?thesis using m(2) by (simp add: sub_off_def mm)
    next
      case 3
      then show ?thesis by (simp add: sub_off_def other)
    qed
  qed
  have "distinct (ord @ [t])" "set (ord @ [t]) \<subseteq> parts C m P" using base t by auto
  then have "sum_list (map (code_len P) (ord @ [t])) < 2 ^ 31"
    using len_le_total [of "ord @ [t]" C m P] link_okD(6) [OF ok] by linarith
  then have tot: "?n + code_len P t < 2 ^ 31" using base(6) by simp
  have tr: "relos_ok (code_len P t) (p_relos (P ! t))" using link_okD(10) [OF ok t(1)] .
  have idx: "unat (rd_insn_idx r + of_nat ?n) = unat (rd_insn_idx r) + ?n" if "r \<in> set (p_relos (P ! t))" for r
  proof -
    have "unat (rd_insn_idx r) + ?n < 2 ^ 32" "unat (of_nat ?n :: u32) = ?n" using tr tot that by (auto simp: relos_ok_def unat_of_nat)
    then show ?thesis by (simp add: unat_add_lem [THEN iffD1])
  qed
  have relos: "relos_ok ?n (p_relos (ps ! m))" using L unfolding linking_def by blast
  have "sorted_wrt (\<lambda>a b. unat (rd_insn_idx a) < unat (rd_insn_idx b)) ?new"
    using tr unfolding relos_ok_def sorted_wrt_map by (auto intro: sorted_wrt_mono_rel [rotated] simp: idx)
  then have relos': "relos_ok (?n + code_len P t) (p_relos (ps ! m) @ ?new)"
    using relos tr by (auto simp: relos_ok_def sorted_wrt_append idx intro: less_le_trans)
  obtain ext where ext: "p_relos (ps ! m) = p_relos (P ! m) @ ext" "\<forall>r \<in> set ext. code_len P m \<le> unat (rd_insn_idx r)"
    using L unfolding linking_def by blast
  have "code_len P m \<le> ?n" using linking_place [OF L base(2)] by simp
  then have ext': "\<forall>r \<in> set (ext @ ?new). code_len P m \<le> unat (rd_insn_idx r)" using ext(2) by (auto simp: idx)
  have place: "sub_off ?ps ((ord @ [t]) ! i) = sum_list (map (code_len P) (take i (ord @ [t])))" if "i < length (ord @ [t])" for i
  proof (cases "i < length ord")
    case True
    then have "ord ! i \<noteq> t" using t(2) nth_mem by blast
    then show ?thesis using True base(7) [OF True] by (simp add: nth_append off)
  next
    case False
    then have "i = length ord" using that by simp
    then show ?thesis using base(6) by (simp add: off)
  qed
  have insns: "p_insns (?ps ! m) ! (sub_off ?ps k + j) = (if (k, j) \<in> D then linked_insn C P (sub_off ?ps) k j else p_insns (P ! k) ! j)"
    if k: "k \<in> set (ord @ [t])" "j < code_len P k" for k j
  proof (cases "k = t")
    case True
    moreover have "(t, j) \<notin> D" using L t(2) by (auto simp: linking_def)
    ultimately show ?thesis using k(2) by (simp add: off mm)
  next
    case False
    then have k': "k \<in> set ord" using k(1) by simp
    have lt: "sub_off ps k + j < ?n" using linking_place [OF L k'] k(2) by simp
    have "linked_insn C P (sub_off ?ps) k j = linked_insn C P (sub_off ps) k j" if d: "(k, j) \<in> D"
    proof -
      have "t' \<noteq> t" if "call_target C P k j = Some t'" for t'
        using L d that t(2) unfolding linking_def by blast
      then show ?thesis using False by (auto simp: linked_insn_def off split: option.splits)
    qed
    then show ?thesis using linking_insn [OF L k' k(2)] False lt by (simp add: off mm nth_append)
  qed
  have "linking C m P ?ps (ord @ [t]) D"
    unfolding linking_def
  proof (intro conjI)
    show "length ?ps = length P" using base(1) by (simp add: appended_def Let_def)
    show "ord @ [t] \<noteq> []" "hd (ord @ [t]) = m" using L by (auto simp: linking_def hd_append)
    show "D \<subseteq> {(k, j). k \<in> set (ord @ [t]) \<and> j < code_len P k}" using L unfolding linking_def by auto
    show "\<forall>k < length P. k \<noteq> m \<longrightarrow> ?ps ! k = (P ! k)\<lparr>p_sub_insn_off := sub_off ?ps k\<rparr>"
    proof (intro allI impI)
      fix k assume k: "k < length P" "k \<noteq> m"
      then have "ps ! k = (P ! k)\<lparr>p_sub_insn_off := sub_off ps k\<rparr>" using L unfolding linking_def by blast
      then show "?ps ! k = (P ! k)\<lparr>p_sub_insn_off := sub_off ?ps k\<rparr>"
        using k(2) tt other [of k] by (cases "k = t") (simp_all add: off)
    qed
    show "same_but (?ps ! m) (P ! m)" using L by (simp add: mm linking_def)
    show "\<forall>k < length P. k \<notin> set (ord @ [t]) \<longrightarrow> sub_off ?ps k = 0" using L by (auto simp: off linking_def)
    show "length (p_insns (?ps ! m)) = sum_list (map (code_len P) (ord @ [t]))" using base(6) by (simp add: mm)
    show "\<exists>ext. p_relos (?ps ! m) = p_relos (P ! m) @ ext \<and> (\<forall>r \<in> set ext. code_len P m \<le> unat (rd_insn_idx r))"
      using ext(1) ext' by (intro exI [of _ "ext @ ?new"]) (simp add: mm)
    show "relos_ok (length (p_insns (?ps ! m))) (p_relos (?ps ! m))" using relos' by (simp add: mm)
    have relos_same: "map (\<lambda>k. shifted (sub_off ?ps k) (p_relos (P ! k))) ord = map (\<lambda>k. shifted (sub_off ps k) (p_relos (P ! k))) ord"
      using t(2) by (auto simp: off)
    have "p_relos (?ps ! m) = concat (map (\<lambda>k. shifted (sub_off ps k) (p_relos (P ! k))) ord) @ shifted ?n (p_relos (P ! t))"
      unfolding linking_relos [OF L, symmetric] by (simp add: mm shifted_def)
    then show "p_relos (?ps ! m) = concat (map (\<lambda>k. shifted (sub_off ?ps k) (p_relos (P ! k))) (ord @ [t]))"
      unfolding map_append concat_append relos_same by (simp add: off)
    show "\<forall>(k, j) \<in> D. \<forall>t'. call_target C P k j = Some t' \<longrightarrow> t' \<in> set (ord @ [t])" using L unfolding linking_def by auto
    show "\<forall>k \<in> set (ord @ [t]). \<forall>j < code_len P k. p_insns (?ps ! m) ! (sub_off ?ps k + j) =
        (if (k, j) \<in> D then linked_insn C P (sub_off ?ps) k j else p_insns (P ! k) ! j)" using insns by blast
  qed (use \<open>distinct (ord @ [t])\<close> \<open>set (ord @ [t]) \<subseteq> parts C m P\<close> place in blast)+
  then show ?thesis using t(2) by (auto simp: off)
qed

text \<open>The records on functions and lines are changed in the main program.\<close>

lemma linking_info:
  assumes L: "linking C m P ps ord D" and ok: "link_ok C m P"
    and ps': "ps' = ps[m := (ps ! m)\<lparr>p_func_info := f, p_line_info := l\<rparr>]"
  shows "linking C m P ps' ord D \<and> sub_off ps' = sub_off ps"
proof -
  have m: "m < length ps" using linking_base [OF L] by auto
  have off: "sub_off ps' = sub_off ps" using m by (auto simp: fun_eq_iff sub_off_def ps' nth_list_update)
  have mm: "ps' ! m = (ps ! m)\<lparr>p_func_info := f, p_line_info := l\<rparr>" using m by (simp add: ps')
  have other: "k \<noteq> m \<Longrightarrow> ps' ! k = ps ! k" for k by (simp add: ps')
  have "length ps' = length ps" by (simp add: ps')
  moreover have "same_but (ps' ! m) (P ! m)" using L by (simp add: mm linking_def)
  moreover have "p_insns (ps' ! m) = p_insns (ps ! m)" "p_relos (ps' ! m) = p_relos (ps ! m)" by (simp_all add: mm)
  ultimately show ?thesis using L other off unfolding linking_def by auto
qed

section \<open>All instructions\<close>

text \<open>The programs that are needed: those called from the main program or from a program that is needed.\<close>

inductive needed :: "link_env \<Rightarrow> bpf_program list \<Rightarrow> nat \<Rightarrow> nat \<Rightarrow> bool" for C P m where
  main: "needed C P m m"
| call: "needed C P m k \<Longrightarrow> j < code_len P k \<Longrightarrow> call_target C P k j = Some t \<Longrightarrow> needed C P m t"

text \<open>
  What is known when the instructions of program \<open>p\<close> from \<open>i\<close> on have been looked at: they and all those of
  the programs \<open>new\<close> that were appended have their final form.
\<close>

definition done_code :: "bpf_program list \<Rightarrow> nat set \<Rightarrow> (nat \<times> nat) set" where
  "done_code P K = {(k, j). k \<in> K \<and> j < code_len P k}"

definition linked_to :: "link_env \<Rightarrow> nat \<Rightarrow> bpf_program list \<Rightarrow> bpf_program list \<Rightarrow> nat list \<Rightarrow> (nat \<times> nat) set \<Rightarrow>
    (int \<times> bpf_program list) option \<Rightarrow> bool" where
  "linked_to C m P ps ord D r \<longleftrightarrow> (\<exists>err ps'. r = Some (err, ps') \<and> (err = 0 \<longrightarrow>
     (\<exists>new. linking C m P ps' (ord @ new) (D \<union> done_code P (set new)) \<and> (\<forall>k \<in> set ord. sub_off ps' k = sub_off ps k) \<and>
        (\<forall>k \<in> set new. needed C P m k))))"

lemma linked_to_error: "err \<noteq> 0 \<Longrightarrow> linked_to C m P ps ord D (Some (err, ps'))"
  by (simp add: linked_to_def)

lemma linked_to_here: "linking C m P ps ord D \<Longrightarrow> linked_to C m P ps ord D (Some (0, ps))"
  unfolding linked_to_def by (rule exI [of _ 0], rule exI [of _ ps]) (auto simp: done_code_def intro!: exI [of _ "[]"])

lemma done_code_Un: "done_code P (K \<union> K') = done_code P K \<union> done_code P K'"
  by (auto simp: done_code_def)

lemma linked_to_trans:
  assumes "\<forall>k \<in> set ord. sub_off ps1 k = sub_off ps k" "\<forall>k \<in> set new. needed C P m k"
    and to: "linked_to C m P ps1 (ord @ new) (D' \<union> done_code P (set new)) r"
  shows "linked_to C m P ps ord D' r"
proof -
  obtain err ps' where r: "r = Some (err, ps')" and ok: "err = 0 \<longrightarrow>
     (\<exists>new'. linking C m P ps' ((ord @ new) @ new') (D' \<union> done_code P (set new) \<union> done_code P (set new')) \<and>
        (\<forall>k \<in> set (ord @ new). sub_off ps' k = sub_off ps1 k) \<and> (\<forall>k \<in> set new'. needed C P m k))"
    using to unfolding linked_to_def by blast
  show ?thesis
  proof (cases "err = 0")
    case True
    then obtain new' where new': "linking C m P ps' ((ord @ new) @ new') (D' \<union> done_code P (set new) \<union> done_code P (set new'))"
      "\<forall>k \<in> set (ord @ new). sub_off ps' k = sub_off ps1 k" "\<forall>k \<in> set new'. needed C P m k" using ok by blast
    have "linking C m P ps' (ord @ (new @ new')) (D' \<union> done_code P (set (new @ new')))"
      using new'(1) by (simp add: done_code_Un Un_assoc)
    moreover have "\<forall>k \<in> set ord. sub_off ps' k = sub_off ps k" using new'(2) assms(1) by simp
    moreover have "\<forall>k \<in> set (new @ new'). needed C P m k" using new'(3) assms(2) by auto
    ultimately show ?thesis unfolding linked_to_def r by blast
  qed (simp add: r linked_to_error)
qed

lemma sub_insn_idx_error: "sub_insn_idx prog j insn = Inl err \<Longrightarrow> err \<noteq> 0"
  by (auto simp: sub_insn_idx_def split: option.splits if_splits)

text \<open>A subprogram is appended when it is not yet there, and what it calls is linked.\<close>

definition visit :: "(nat \<Rightarrow> bpf_program list \<Rightarrow> (int \<times> bpf_program list) option) \<Rightarrow> link_env \<Rightarrow> nat \<Rightarrow> nat \<Rightarrow> bpf_program list \<Rightarrow>
    (int \<times> bpf_program list) option" where
  "visit recur C m t ps = (if sub_off ps t = 0
     then do {
       (err, ps) \<leftarrow> append_subprog C m t ps;
       if err \<noteq> 0 then Some (err, ps) else recur t ps
     }
     else Some (0, ps))"

definition recur_ok :: "link_env \<Rightarrow> nat \<Rightarrow> bpf_program list \<Rightarrow> nat \<Rightarrow> (nat \<Rightarrow> bpf_program list \<Rightarrow> (int \<times> bpf_program list) option) \<Rightarrow> bool" where
  "recur_ok C m P n recur \<longleftrightarrow> (\<forall>t ps ord D. linking C m P ps ord D \<longrightarrow> t \<in> set ord \<longrightarrow> needed C P m t \<longrightarrow> (\<forall>j. (t, j) \<notin> D) \<longrightarrow>
     length P < n + length ord \<longrightarrow> linked_to C m P ps ord (D \<union> done_code P {t}) (recur t ps))"

lemma visit_ok:
  assumes L: "linking C m P ps ord D" and ok: "link_ok C m P" and t: "t \<in> parts C m P" "t \<noteq> m" "needed C P m t"
    and recur: "recur_ok C m P n recur" and n: "length P < Suc n + length ord"
  shows "\<exists>err ps'. visit recur C m t ps = Some (err, ps') \<and> (err = 0 \<longrightarrow>
     (\<exists>new. linking C m P ps' (ord @ new) (D \<union> done_code P (set new)) \<and> t \<in> set (ord @ new) \<and>
        (\<forall>k \<in> set ord. sub_off ps' k = sub_off ps k) \<and> (\<forall>k \<in> set new. needed C P m k)))"
proof (cases "t \<in> set ord")
  case True
  then have "sub_off ps t \<noteq> 0" using linking_linked [OF L ok parts_less [OF t(1)] t(2)] by simp
  then show ?thesis using L True by (intro exI [of _ 0] exI [of _ ps]) (auto simp: visit_def done_code_def intro!: exI [of _ "[]"])
next
  case False
  then have zero: "sub_off ps t = 0" using linking_linked [OF L ok parts_less [OF t(1)] t(2)] by simp
  obtain err ps1 where append: "append_subprog C m t ps = Some (err, ps1)" "err = 0 \<longrightarrow> ps1 = appended m t ps"
    using append_subprog_eq [of m ps t C] linking_base [OF L] parts_less [OF t(1)] t(2) by auto
  show ?thesis
  proof (cases "err = 0")
    case False
    then show ?thesis using append zero by (simp add: visit_def)
  next
    case True
    then have run: "visit recur C m t ps = recur t (appended m t ps)" using append zero by (simp add: visit_def)
    note L1 = conjunct1 [OF linking_append [OF L ok t(1) False]] and off1 = conjunct2 [OF linking_append [OF L ok t(1) False]]
    have "(t, j) \<notin> D" for j using L False unfolding linking_def by blast
    then have "linked_to C m P (appended m t ps) (ord @ [t]) (D \<union> done_code P {t}) (recur t (appended m t ps))"
      using L1 t(3) recur n unfolding recur_ok_def by simp
    then have "linked_to C m P (appended m t ps) (ord @ [t]) (D \<union> done_code P (set [t])) (recur t (appended m t ps))" by simp
    then obtain err' ps' where r: "recur t (appended m t ps) = Some (err', ps')" and
      ok': "err' = 0 \<longrightarrow> (\<exists>new. linking C m P ps' ((ord @ [t]) @ new) (D \<union> done_code P (set [t]) \<union> done_code P (set new)) \<and>
        (\<forall>k \<in> set (ord @ [t]). sub_off ps' k = sub_off (appended m t ps) k) \<and> (\<forall>k \<in> set new. needed C P m k))"
      unfolding linked_to_def by blast
    have "\<exists>new. linking C m P ps' (ord @ new) (D \<union> done_code P (set new)) \<and> t \<in> set (ord @ new) \<and>
        (\<forall>k \<in> set ord. sub_off ps' k = sub_off ps k) \<and> (\<forall>k \<in> set new. needed C P m k)" if zero: "err' = 0"
    proof -
      obtain new where new: "linking C m P ps' ((ord @ [t]) @ new) (D \<union> done_code P (set [t]) \<union> done_code P (set new))"
        "\<forall>k \<in> set (ord @ [t]). sub_off ps' k = sub_off (appended m t ps) k" "\<forall>k \<in> set new. needed C P m k"
        using ok' zero by blast
      have "done_code P (set (t # new)) = done_code P (set [t]) \<union> done_code P (set new)"
        by (simp add: done_code_Un [symmetric])
      then show ?thesis using new off1 t(3) by (intro exI [of _ "t # new"]) (auto simp: Un_assoc)
    qed
    then show ?thesis unfolding run r by (intro exI [of _ err'] exI [of _ ps'] conjI impI refl)
  qed
qed

text \<open>
  The round for instruction \<open>i\<close>: nothing is done when it does not call a subprogram; otherwise the subprogram
  is visited and the call patched.
\<close>

definition patched :: "nat \<Rightarrow> nat \<Rightarrow> nat \<Rightarrow> nat \<Rightarrow> bpf_program list \<Rightarrow> bpf_program list" where
  "patched m p i t ps = (let at = sub_off ps p + i in
     ps[m := (ps ! m)\<lparr>p_insns := (p_insns (ps ! m))[at := (p_insns (ps ! m) ! at)\<lparr>i_imm := of_int (int (sub_off ps t) - int at - 1)\<rparr>]\<rparr>])"

lemma insn_round:
  assumes L: "linking C m P ps ord D" and ok: "link_ok C m P" and p: "p \<in> set ord" "i < code_len P p" "(p, i) \<notin> D"
  shows "call_target C P p i = None \<Longrightarrow> reloc_insns recur C m p (Suc n) i ps = reloc_insns recur C m p n (i + 1) ps \<or>
      (\<exists>err. err \<noteq> 0 \<and> reloc_insns recur C m p (Suc n) i ps = Some (err, ps))"
    and "call_target C P p i = Some t \<Longrightarrow> t \<in> parts C m P \<and> t \<noteq> m \<and> reloc_insns recur C m p (Suc n) i ps = do {
        (err, ps) \<leftarrow> visit recur C m t ps;
        if err \<noteq> 0 then Some (err, ps)
        else do {
          main \<leftarrow> arr_get ps m;
          prog \<leftarrow> arr_get ps p;
          subprog \<leftarrow> arr_get ps t;
          let at = p_sub_insn_off prog + i;
          insn \<leftarrow> arr_get (p_insns main) at;
          insns \<leftarrow> arr_set (p_insns main) at (insn\<lparr>i_imm := of_int (int (p_sub_insn_off subprog) - int at - 1)\<rparr>);
          reloc_insns recur C m p n (i + 1) (ps[m := main\<lparr>p_insns := insns\<rparr>])
        }
      }"
proof -
  let ?insn = "p_insns (P ! p) ! i"
  note base = linking_base [OF L]
  have lens: "m < length ps" "p < length ps" using base(1,4,5) p(1) parts_less by auto
  have "sub_off ps p + i < length (p_insns (ps ! m))" using linking_place [OF L p(1)] p(2) by simp
  moreover have "p_insns (ps ! m) ! (sub_off ps p + i) = ?insn" using linking_insn [OF L p(1,2)] p(3) by simp
  ultimately have get: "arr_get (p_insns (ps ! m)) (p_sub_insn_off (ps ! p) + i) = Some ?insn" by (simp add: sub_off_def)
  have idx: "sub_insn_idx (ps ! p) (of_nat i) ?insn = sub_insn_idx (P ! p) (of_nat i) ?insn" by (rule linking_call [OF L ok p(1,2)])
  have find: "find_prog_by_sec_insn ps s k = find_prog_by_sec_insn P s k" for s k by (rule linking_find [OF L ok])
  have found: "\<exists>r. find_prog_by_sec_insn P (c_text_shndx C) k = Some r" for k
    using find_prog_right [OF link_okD(1) [OF ok]] by blast
  show "reloc_insns recur C m p (Suc n) i ps = reloc_insns recur C m p n (i + 1) ps \<or>
      (\<exists>err. err \<noteq> 0 \<and> reloc_insns recur C m p (Suc n) i ps = Some (err, ps))" if none: "call_target C P p i = None"
  proof (cases "insn_is_subprog_call ?insn \<or> insn_is_pseudo_func ?insn")
    case False
    then show ?thesis using lens get by simp
  next
    case True
    show ?thesis
    proof (cases "sub_insn_idx (P ! p) (of_nat i) ?insn")
      case (Inl err)
      then show ?thesis using True lens get idx sub_insn_idx_error [OF Inl] by auto
    next
      case (Inr target)
      show ?thesis
      proof (cases target)
        case None
        then show ?thesis using True lens get idx Inr by auto
      next
        case (Some a)
        then have "find_prog_by_sec_insn P (c_text_shndx C) a = Some None"
          using True Inr none found [of a] by (auto simp: call_target_def Let_def split: option.splits)
        then have "reloc_insns recur C m p (Suc n) i ps = Some (- ERRNO_RELOC, ps)"
          using True lens get idx find Inr Some by auto
        then show ?thesis by (intro disjI2 exI [of _ "- ERRNO_RELOC"]) simp
      qed
    qed
  qed
  show "t \<in> parts C m P \<and> t \<noteq> m \<and> reloc_insns recur C m p (Suc n) i ps = do {
        (err, ps) \<leftarrow> visit recur C m t ps;
        if err \<noteq> 0 then Some (err, ps)
        else do {
          main \<leftarrow> arr_get ps m;
          prog \<leftarrow> arr_get ps p;
          subprog \<leftarrow> arr_get ps t;
          let at = p_sub_insn_off prog + i;
          insn \<leftarrow> arr_get (p_insns main) at;
          insns \<leftarrow> arr_set (p_insns main) at (insn\<lparr>i_imm := of_int (int (p_sub_insn_off subprog) - int at - 1)\<rparr>);
          reloc_insns recur C m p n (i + 1) (ps[m := main\<lparr>p_insns := insns\<rparr>])
        }
      }" if some: "call_target C P p i = Some t"
  proof -
    obtain k where k: "insn_is_subprog_call ?insn \<or> insn_is_pseudo_func ?insn" "sub_insn_idx (P ! p) (of_nat i) ?insn = Inr (Some k)"
      "find_prog_by_sec_insn P (c_text_shndx C) k = Some (Some t)"
      using some by (auto simp: call_target_def Let_def split: if_splits sum.splits option.splits)
    have t: "t < length P" "p_sec_idx (P ! t) = c_text_shndx C"
      using find_prog_right [OF link_okD(1) [OF ok], of "c_text_shndx C" k] k(3) by auto
    have "arr_get ps t = Some (ps ! t)" using t(1) base(1) by simp
    then show ?thesis using k t lens get idx find link_okD(3) [OF ok] by (auto simp: visit_def sub_off_def parts_def)
  qed
qed

lemma call_round:
  assumes L: "linking C m P ps ord D" and ok: "link_ok C m P" and p: "p \<in> set ord" "needed C P m p" "i < code_len P p" "(p, i) \<notin> D"
    and t: "call_target C P p i = Some t" and recur: "recur_ok C m P fuel recur" and len: "length P < Suc fuel + length ord"
  shows "(\<exists>err ps'. err \<noteq> 0 \<and> reloc_insns recur C m p (Suc n) i ps = Some (err, ps')) \<or>
    (\<exists>new ps'. reloc_insns recur C m p (Suc n) i ps = reloc_insns recur C m p n (i + 1) ps' \<and>
       linking C m P ps' (ord @ new) (insert (p, i) (D \<union> done_code P (set new))) \<and>
       (\<forall>k \<in> set ord. sub_off ps' k = sub_off ps k) \<and> (\<forall>k \<in> set new. needed C P m k))"
proof -
  note round = insn_round(2) [OF L ok p(1,3,4) t, of recur n]
  obtain err ps1 where v: "visit recur C m t ps = Some (err, ps1)" and ok1: "err = 0 \<longrightarrow>
      (\<exists>new. linking C m P ps1 (ord @ new) (D \<union> done_code P (set new)) \<and> t \<in> set (ord @ new) \<and>
        (\<forall>k \<in> set ord. sub_off ps1 k = sub_off ps k) \<and> (\<forall>k \<in> set new. needed C P m k))"
    using visit_ok [OF L ok _ _ needed.call [OF p(2,3) t] recur len] round by blast
  show ?thesis
  proof (cases "err = 0")
    case False
    then show ?thesis using round v by auto
  next
    case True
    then obtain new where new: "linking C m P ps1 (ord @ new) (D \<union> done_code P (set new))" "t \<in> set (ord @ new)"
      "\<forall>k \<in> set ord. sub_off ps1 k = sub_off ps k" "\<forall>k \<in> set new. needed C P m k" using ok1 by blast
    note base = linking_base [OF new(1)]
    have pi: "(p, i) \<notin> D \<union> done_code P (set new)" using base(3) p(1,4) by (auto simp: done_code_def)
    have p1: "p \<in> set (ord @ new)" using p(1) by simp
    have last: "linking C m P (patched m p i t ps1) (ord @ new) (insert (p, i) (D \<union> done_code P (set new))) \<and>
        sub_off (patched m p i t ps1) = sub_off ps1"
      by (rule linking_patch [OF new(1) ok p1 p(3) pi t new(2) refl]) (simp add: patched_def Let_def)
    have "reloc_insns recur C m p (Suc n) i ps = reloc_insns recur C m p n (i + 1) (patched m p i t ps1)"
    proof -
      have "m < length ps1" "p < length ps1" "t < length ps1" using base(1,4,5) p1 new(2) parts_less by auto
      moreover have "sub_off ps1 p + i < length (p_insns (ps1 ! m))" using linking_place [OF new(1) p1] p(3) by simp
      ultimately show ?thesis using round v True by (simp add: sub_off_def patched_def Let_def)
    qed
    moreover have "\<forall>k \<in> set ord. sub_off (patched m p i t ps1) k = sub_off ps k" using last new(3) by simp
    ultimately show ?thesis using last new(4) by blast
  qed
qed

lemma reloc_insns_ok:
  assumes ok: "link_ok C m P" and recur: "recur_ok C m P fuel recur"
  shows "linking C m P ps ord D \<Longrightarrow> p \<in> set ord \<Longrightarrow> needed C P m p \<Longrightarrow> i + n = code_len P p \<Longrightarrow> \<forall>j \<ge> i. (p, j) \<notin> D \<Longrightarrow>
    length P < Suc fuel + length ord \<Longrightarrow>
    linked_to C m P ps ord (D \<union> {(p, j) | j. i \<le> j \<and> j < code_len P p}) (reloc_insns recur C m p n i ps)"
proof (induction n arbitrary: ps ord D i)
  case 0
  have none: "{(p, j) | j. i \<le> j \<and> j < code_len P p} = {}" using 0(4) by auto
  show ?case unfolding none reloc_insns.simps Un_empty_right by (rule linked_to_here [OF 0(1)])
next
  case (Suc n)
  note L = Suc.prems(1) and p = Suc.prems(2,3)
  let ?rest = "\<lambda>i. {(p, j) | j. i \<le> j \<and> j < code_len P p}"
  have i: "i < code_len P p" "(p, i) \<notin> D" using Suc.prems(4,5) by simp_all
  have rest: "?rest i = insert (p, i) (?rest (i + 1))" using i(1) by (auto simp: le_less Suc_le_eq)
  show ?case
  proof (cases "call_target C P p i")
    case None
    have "linking C m P ps ord (insert (p, i) D)" by (rule linking_skip [OF L p(1) i(1) None])
    from Suc.IH [OF this p] have "linked_to C m P ps ord (D \<union> ?rest i) (reloc_insns recur C m p n (i + 1) ps)"
      using Suc.prems(4-6) unfolding rest by simp
    then show ?thesis using insn_round(1) [OF L ok p(1) i None, of recur n] linked_to_error by auto
  next
    case (Some t)
    consider err ps' where "err \<noteq> 0" "reloc_insns recur C m p (Suc n) i ps = Some (err, ps')"
      | new ps' where "reloc_insns recur C m p (Suc n) i ps = reloc_insns recur C m p n (i + 1) ps'"
        "linking C m P ps' (ord @ new) (insert (p, i) (D \<union> done_code P (set new)))"
        "\<forall>k \<in> set ord. sub_off ps' k = sub_off ps k" "\<forall>k \<in> set new. needed C P m k"
      using call_round [OF L ok p i Some recur Suc.prems(6), of n] by blast
    then show ?thesis
    proof cases
      case 1
      then show ?thesis using linked_to_error by simp
    next
      case 2
      have "distinct (ord @ new)" using linking_base(3) [OF 2(2)] .
      then have "\<forall>j \<ge> i + 1. (p, j) \<notin> insert (p, i) (D \<union> done_code P (set new))"
        using p(1) Suc.prems(5) by (auto simp: done_code_def)
      then have "linked_to C m P ps' (ord @ new) (insert (p, i) (D \<union> done_code P (set new)) \<union> ?rest (i + 1))
          (reloc_insns recur C m p n (i + 1) ps')"
        using p Suc.prems(4,6) by (intro Suc.IH [OF 2(2)]) simp_all
      moreover have "insert (p, i) (D \<union> done_code P (set new)) \<union> ?rest (i + 1) = (D \<union> ?rest i) \<union> done_code P (set new)"
        unfolding rest by blast
      ultimately show ?thesis unfolding 2(1) using linked_to_trans [OF 2(3,4)] by simp
    qed
  qed
qed

lemma reloc_code_ok: "link_ok C m P \<Longrightarrow> recur_ok C m P n (bpf_object__reloc_code n C m)"
proof (induction n)
  case 0
  have "length ord \<le> length P" if "linking C m P ps ord D" for ps ord D
  proof -
    have "set ord \<subseteq> {..< length P}" using linking_base(4) [OF that] parts_less by blast
    then have "card (set ord) \<le> card {..< length P}" by (intro card_mono) simp_all
    then show ?thesis using linking_base(3) [OF that] by (simp add: distinct_card)
  qed
  then have "\<not> length P < 0 + length ord" if "linking C m P ps ord D" for ps ord D using that by (simp add: not_less)
  then show ?case unfolding recur_ok_def by blast
next
  case (Suc n)
  show ?case
    unfolding recur_ok_def
  proof (intro allI impI)
    fix t ps ord D
    assume L: "linking C m P ps ord D" and t: "t \<in> set ord" "needed C P m t" "\<forall>j. (t, j) \<notin> D"
      and len: "length P < Suc n + length ord"
    note base = linking_base [OF L]
    have part: "t \<in> parts C m P" using base(4) t(1) by blast
    then have tlen: "t < length P" by (rule parts_less)
    have lens: "m < length ps" "t < length ps" using base(1,5) tlen by simp_all
    obtain err f l where info: "reloc_prog_func_and_line_info C m t ps = Some (err, ps[m := (ps ! m)\<lparr>p_func_info := f, p_line_info := l\<rparr>])"
      using reloc_info_total [OF link_okD(4) [OF Suc.prems] lens] by blast
    let ?ps = "ps[m := (ps ! m)\<lparr>p_func_info := f, p_line_info := l\<rparr>]"
    have L1: "linking C m P ?ps ord D" "sub_off ?ps = sub_off ps" using linking_info [OF L Suc.prems refl] by simp_all
    show "linked_to C m P ps ord (D \<union> done_code P {t}) (bpf_object__reloc_code (Suc n) C m t ps)"
    proof (cases "err = 0")
      case False
      then show ?thesis using info by (simp add: linked_to_error)
    next
      case True
      have cnt: "unat (p_sec_insn_cnt (?ps ! t)) = code_len P t"
        using linking_members(3) [OF L1(1) Suc.prems tlen] link_okD(9) [OF Suc.prems part] by simp
      have all: "done_code P {t} = {(t, j) | j. 0 \<le> j \<and> j < code_len P t}" by (auto simp: done_code_def)
      have "linked_to C m P ?ps ord (D \<union> done_code P {t}) (reloc_insns (bpf_object__reloc_code n C m) C m t (code_len P t) 0 ?ps)"
        unfolding all
        by (rule reloc_insns_ok [OF Suc.prems Suc.IH [OF Suc.prems] L1(1) t(1,2)]) (use t(3) len in simp_all)
      moreover have "bpf_object__reloc_code (Suc n) C m t ps = reloc_insns (bpf_object__reloc_code n C m) C m t (code_len P t) 0 ?ps"
        using info True cnt lens by simp
      ultimately show ?thesis using L1(2) unfolding linked_to_def by simp
    qed
  qed
qed

end
