(* ===== verification/Relo_Linked.thy ===== *)
theory Relo_Linked
  imports Relo_Link
begin

text \<open>
  What linking a main program gives: its code is that of the programs it needs one after the other, with
  the calls set to where their subprograms are.
\<close>

section \<open>Code made of the code of programs\<close>

definition place :: "bpf_program list \<Rightarrow> nat list \<Rightarrow> nat \<Rightarrow> nat" where
  "place P ord k = sum_list (map (code_len P) (takeWhile (\<lambda>k'. k' \<noteq> k) ord))"

definition linked_code :: "link_env \<Rightarrow> bpf_program list \<Rightarrow> nat list \<Rightarrow> bpf_insn list" where
  "linked_code C P ord = concat (map (\<lambda>k. map (linked_insn C P (place P ord) k) [0..<code_len P k]) ord)"

definition linked_relos :: "bpf_program list \<Rightarrow> nat list \<Rightarrow> reloc_desc list" where
  "linked_relos P ord = concat (map (\<lambda>k. shifted (place P ord k) (p_relos (P ! k))) ord)"

lemma takeWhile_before: "distinct xs \<Longrightarrow> i < length xs \<Longrightarrow> takeWhile (\<lambda>x. x \<noteq> xs ! i) xs = take i xs"
proof (induction xs arbitrary: i)
  case (Cons x xs)
  then show ?case by (cases i) auto
qed simp

lemma concat_blocks:
  assumes "length xs = sum_list (map f ks)"
    "\<forall>i < length ks. \<forall>j < f (ks ! i). xs ! (sum_list (map f (take i ks)) + j) = g (ks ! i) j"
  shows "xs = concat (map (\<lambda>k. map (g k) [0..<f k]) ks)"
  using assms
proof (induction ks arbitrary: xs)
  case Nil
  then show ?case by simp
next
  case (Cons k ks)
  have len: "f k \<le> length xs" using Cons.prems(1) by simp
  have "take (f k) xs = map (g k) [0..<f k]"
    using Cons.prems(2) [rule_format, of 0] len by (intro nth_equalityI) simp_all
  moreover have "drop (f k) xs = concat (map (\<lambda>k. map (g k) [0..<f k]) ks)"
  proof (rule Cons.IH)
    show "length (drop (f k) xs) = sum_list (map f ks)" using Cons.prems(1) by simp
    show "\<forall>i < length ks. \<forall>j < f (ks ! i). drop (f k) xs ! (sum_list (map f (take i ks)) + j) = g (ks ! i) j"
      using Cons.prems(2) [rule_format, of "Suc i" for i] len by (simp add: add.assoc)
  qed
  ultimately show ?case using append_take_drop_id [of "f k" xs] by simp
qed

lemma linking_place_eq:
  assumes "linking C m P ps ord D" "k \<in> set ord"
  shows "sub_off ps k = place P ord k"
proof -
  note base = linking_base [OF assms(1)]
  obtain i where i: "i < length ord" "k = ord ! i" using assms(2) by (auto simp: in_set_conv_nth)
  then show ?thesis using base(7) takeWhile_before [OF base(3) i(1)] by (simp add: place_def)
qed

text \<open>The code and the relocations when all instructions have their final form.\<close>

lemma linking_final:
  assumes L: "linking C m P ps ord (done_code P (set ord))"
  shows "p_insns (ps ! m) = linked_code C P ord" "p_relos (ps ! m) = linked_relos P ord"
    "k \<in> set ord \<Longrightarrow> j < code_len P k \<Longrightarrow> call_target C P k j = Some t \<Longrightarrow> t \<in> set ord"
proof -
  note base = linking_base [OF L] and same = linking_place_eq [OF L]
  have targets: "t \<in> set ord" if "k \<in> set ord" "j < code_len P k" "call_target C P k j = Some t" for k j t
  proof -
    have "(k, j) \<in> done_code P (set ord)" using that by (simp add: done_code_def)
    then show ?thesis using L that(3) unfolding linking_def by blast
  qed
  then show "k \<in> set ord \<Longrightarrow> j < code_len P k \<Longrightarrow> call_target C P k j = Some t \<Longrightarrow> t \<in> set ord" .
  show "p_relos (ps ! m) = linked_relos P ord"
    unfolding linking_relos [OF L] linked_relos_def using same by (intro arg_cong [where f = concat] map_cong) simp_all
  show "p_insns (ps ! m) = linked_code C P ord"
    unfolding linked_code_def
  proof (rule concat_blocks)
    show "length (p_insns (ps ! m)) = sum_list (map (code_len P) ord)" by (rule base(6))
    show "\<forall>i < length ord. \<forall>j < code_len P (ord ! i).
        p_insns (ps ! m) ! (sum_list (map (code_len P) (take i ord)) + j) = linked_insn C P (place P ord) (ord ! i) j"
    proof (intro allI impI)
      fix i j assume i: "i < length ord" and j: "j < code_len P (ord ! i)"
      let ?k = "ord ! i"
      have k: "?k \<in> set ord" using i by simp
      have "linked_insn C P (sub_off ps) ?k j = linked_insn C P (place P ord) ?k j"
        using targets [OF k j] same k by (simp add: linked_insn_def split: option.splits)
      then show "p_insns (ps ! m) ! (sum_list (map (code_len P) (take i ord)) + j) = linked_insn C P (place P ord) ?k j"
        using linking_insn [OF L k j] base(7) [OF i] k j by (simp add: done_code_def)
    qed
  qed
qed

section \<open>Marking subprograms as not linked\<close>

lemma reset_simps:
  assumes "k < length P"
  shows "p_insns (reset_subprogs C P ! k) = p_insns (P ! k)" "p_relos (reset_subprogs C P ! k) = p_relos (P ! k)"
    "p_sec_idx (reset_subprogs C P ! k) = p_sec_idx (P ! k)" "p_sec_insn_off (reset_subprogs C P ! k) = p_sec_insn_off (P ! k)"
    "p_sec_insn_cnt (reset_subprogs C P ! k) = p_sec_insn_cnt (P ! k)"
  using assms by (simp_all add: reset_subprogs_def)

lemma reset_off: "k < length P \<Longrightarrow> \<exists>off. reset_subprogs C P ! k = (P ! k)\<lparr>p_sub_insn_off := off\<rparr>"
  by (intro exI [of _ "p_sub_insn_off (reset_subprogs C P ! k)"]) (simp add: reset_subprogs_def)

lemma length_reset [simp]: "length (reset_subprogs C P) = length P"
  by (simp add: reset_subprogs_def)

text \<open>Programs at the same places: searches find the same ones.\<close>

definition same_places :: "bpf_program list \<Rightarrow> bpf_program list \<Rightarrow> bool" where
  "same_places ps P \<longleftrightarrow> length ps = length P \<and> (\<forall>k < length P. p_sec_idx (ps ! k) = p_sec_idx (P ! k) \<and>
     p_sec_insn_off (ps ! k) = p_sec_insn_off (P ! k) \<and> p_sec_insn_cnt (ps ! k) = p_sec_insn_cnt (P ! k))"

lemma same_places_progs_ok: "same_places ps P \<Longrightarrow> progs_ok P \<Longrightarrow> progs_ok ps"
  unfolding progs_ok_def sorted_wrt_iff_nth_less all_set_conv_all_nth
proof (elim conjE, intro conjI allI impI)
  assume s: "same_places ps P" and P: "P \<noteq> []"
    "\<forall>i j. i < j \<longrightarrow> j < length P \<longrightarrow> cmp_progs (P ! i) (P ! j) < 0"
    "\<forall>i < length P. unat (p_sec_insn_off (P ! i)) + unat (p_sec_insn_cnt (P ! i)) < 2 ^ 64"
    "\<forall>i j. i < j \<longrightarrow> j < length P \<longrightarrow> p_sec_idx (P ! i) = p_sec_idx (P ! j) \<longrightarrow>
      unat (p_sec_insn_off (P ! i)) + unat (p_sec_insn_cnt (P ! i)) \<le> unat (p_sec_insn_off (P ! j))"
  have len: "length ps = length P" and k: "k < length ps \<Longrightarrow> p_sec_idx (ps ! k) = p_sec_idx (P ! k) \<and>
     p_sec_insn_off (ps ! k) = p_sec_insn_off (P ! k) \<and> p_sec_insn_cnt (ps ! k) = p_sec_insn_cnt (P ! k)" for k
    using s by (simp_all add: same_places_def)
  show "ps \<noteq> []" using P(1) len by auto
  show "unat (p_sec_insn_off (ps ! i)) + unat (p_sec_insn_cnt (ps ! i)) < 2 ^ 64" if "i < length ps" for i
    using P(3) k [OF that] that len by simp
  fix i j assume ij: "i < j" "j < length ps"
  then have ki: "i < length ps" by simp
  show "cmp_progs (ps ! i) (ps ! j) < 0"
  proof -
    have "cmp_progs (ps ! i) (ps ! j) = cmp_progs (P ! i) (P ! j)"
      unfolding cmp_progs_def using k [OF ki] k [OF ij(2)] by simp
    then show ?thesis using P(2) ij len by simp
  qed
  show "unat (p_sec_insn_off (ps ! i)) + unat (p_sec_insn_cnt (ps ! i)) \<le> unat (p_sec_insn_off (ps ! j))"
    if "p_sec_idx (ps ! i) = p_sec_idx (ps ! j)"
    using P(4) ij k [OF ki] k [OF ij(2)] len that by simp
qed

lemma same_places_reset: "same_places (reset_subprogs C P) P"
  by (simp add: same_places_def reset_simps)

lemma linkable_reset:
  assumes "linkable C m P"
  shows "link_ok C m (reset_subprogs C P)"
proof -
  have m: "m < length P" "p_sec_idx (P ! m) \<noteq> c_text_shndx C" using assms by (simp_all add: linkable_def)
  have off: "p_sub_insn_off (reset_subprogs C P ! k) = 0" if k: "k < length P" for k
  proof (cases "p_sec_idx (P ! k) = c_text_shndx C")
    case True
    then have "k \<noteq> m" using m(2) by blast
    then have "length P > 1" using k m(1) by linarith
    then show ?thesis using True k by (simp add: reset_subprogs_def prog_is_subprog_def)
  next
    case False
    then show ?thesis using assms k by (simp add: reset_subprogs_def prog_is_subprog_def linkable_def)
  qed
  have parts: "parts C m (reset_subprogs C P) = parts C m P" by (auto simp: parts_def reset_simps)
  have "progs_ok (reset_subprogs C P)"
    using same_places_progs_ok [OF same_places_reset] assms by (simp add: linkable_def)
  moreover have "(\<Sum>k \<in> parts C m P. code_len (reset_subprogs C P) k) = (\<Sum>k \<in> parts C m P. code_len P k)"
    by (intro sum.cong) (simp_all add: reset_simps parts_less)
  ultimately show ?thesis
    using assms off unfolding link_ok_def linkable_def parts by (auto simp: reset_simps parts_less)
qed

lemma find_prog_cong:
  assumes "same_places ps P"
  shows "find_prog_by_sec_insn ps sec_idx insn_idx = find_prog_by_sec_insn P sec_idx insn_idx"
proof -
  have "find_prog_loop ps sec_idx insn_idx l r = find_prog_loop P sec_idx insn_idx l r" for l r
    using assms by (intro find_prog_loop_cong) (auto simp: same_places_def)
  moreover have "(do { prog \<leftarrow> arr_get ps k; Some (if p_sec_idx prog = sec_idx \<and> prog_contains_insn prog insn_idx then Some k else None) }) =
      (do { prog \<leftarrow> arr_get P k; Some (if p_sec_idx prog = sec_idx \<and> prog_contains_insn prog insn_idx then Some k else None) })" for k
    using assms by (cases "k < length P") (simp_all add: same_places_def prog_contains_insn_def)
  moreover have "length ps = length P" using assms by (simp add: same_places_def)
  ultimately show ?thesis unfolding find_prog_by_sec_insn_def by simp
qed

text \<open>Where calls lead depends on the original code and the relocations only.\<close>

definition same_code :: "bpf_program list \<Rightarrow> bpf_program list \<Rightarrow> nat set \<Rightarrow> bool" where
  "same_code ps P K \<longleftrightarrow> same_places ps P \<and>
     (\<forall>k \<in> K. k < length P \<and> p_insns (ps ! k) = p_insns (P ! k) \<and> p_relos (ps ! k) = p_relos (P ! k))"

lemma same_codeD:
  assumes "same_code ps P K" "k \<in> K"
  shows "p_insns (ps ! k) = p_insns (P ! k)" "p_relos (ps ! k) = p_relos (P ! k)" "p_sec_insn_off (ps ! k) = p_sec_insn_off (P ! k)"
  using assms by (simp_all add: same_code_def same_places_def)

lemma call_target_cong:
  assumes "same_code ps P K" "k \<in> K"
  shows "call_target C ps k j = call_target C P k j"
proof -
  note same = same_codeD [OF assms]
  have idx: "sub_insn_idx (ps ! k) j insn = sub_insn_idx (P ! k) j insn" for j insn
    unfolding sub_insn_idx_def find_prog_insn_relo_def same ..
  have "same_places ps P" using assms(1) by (simp add: same_code_def)
  then have find: "find_prog_by_sec_insn ps s i = find_prog_by_sec_insn P s i" for s i by (rule find_prog_cong)
  show ?thesis unfolding call_target_def same(1) idx find ..
qed

lemma linked_insn_cong:
  assumes "same_code ps P K" "k \<in> K"
  shows "linked_insn C ps off k j = linked_insn C P off k j"
  unfolding linked_insn_def call_target_cong [OF assms] same_codeD(1) [OF assms] ..

lemma needed_in_parts:
  assumes "progs_ok P" "m < length P" "needed C P m k"
  shows "k \<in> parts C m P"
  using assms(3)
proof cases
  case main
  then show ?thesis using assms(2) by (simp add: parts_def)
next
  case (call k' j)
  then obtain i where "find_prog_by_sec_insn P (c_text_shndx C) i = Some (Some k)"
    by (auto simp: call_target_def Let_def split: if_splits sum.splits option.splits)
  then show ?thesis using find_prog_right [OF assms(1), of "c_text_shndx C" i] by (auto simp: parts_def)
qed

lemma needed_cong:
  assumes "same_code ps P (parts C m P)" "progs_ok P" "m < length P"
  shows "needed C ps m k \<longleftrightarrow> needed C P m k"
proof
  show "needed C P m k" if "needed C ps m k"
    using that
  proof induction
    case (call k j t)
    have "k \<in> parts C m P" by (rule needed_in_parts [OF assms(2,3) call.IH])
    then show ?case using call needed.call [OF call.IH] call_target_cong [OF assms(1)] same_codeD(1) [OF assms(1)] by simp
  qed (rule needed.main)
  show "needed C ps m k" if "needed C P m k"
    using that
  proof induction
    case (call k j t)
    have "k \<in> parts C m P" by (rule needed_in_parts [OF assms(2,3) call.hyps(1)])
    then show ?case using call needed.call [OF call.IH] call_target_cong [OF assms(1)] same_codeD(1) [OF assms(1)] by simp
  qed (rule needed.main)
qed

lemma linked_code_cong:
  assumes "same_code ps P K" "set ord \<subseteq> K"
  shows "linked_code C ps ord = linked_code C P ord" "linked_relos ps ord = linked_relos P ord"
proof -
  have lens: "map (code_len ps) (takeWhile (\<lambda>k'. k' \<noteq> k) ord) = map (code_len P) (takeWhile (\<lambda>k'. k' \<noteq> k) ord)" for k
    using same_codeD(1) [OF assms(1)] assms(2) by (auto dest!: set_takeWhileD)
  have place: "place ps ord = place P ord" by (simp add: fun_eq_iff place_def lens)
  show "linked_code C ps ord = linked_code C P ord"
    unfolding linked_code_def place
  proof (intro arg_cong [where f = concat] map_cong refl)
    fix k j assume "k \<in> set ord"
    then have k: "k \<in> K" using assms(2) by blast
    show "[0..<code_len ps k] = [0..<code_len P k]" using same_codeD(1) [OF assms(1) k] by simp
    show "linked_insn C ps (place P ord) k j = linked_insn C P (place P ord) k j" by (rule linked_insn_cong [OF assms(1) k])
  qed
  show "linked_relos ps ord = linked_relos P ord"
    unfolding linked_relos_def place using same_codeD(2) [OF assms(1)] assms(2)
    by (intro arg_cong [where f = concat] map_cong) auto
qed

section \<open>One main program\<close>

lemma linking_start:
  assumes "link_ok C m P"
  shows "linking C m P P [m] {}"
proof -
  note ok = link_okD [OF assms]
  have "shifted 0 rs = rs" for rs by (simp add: shifted_def)
  moreover have "P ! k = (P ! k)\<lparr>p_sub_insn_off := p_sub_insn_off (P ! k)\<rparr>" for k by simp
  ultimately show ?thesis using ok(2,5,7) ok(10) [OF ok(5)] by (simp add: linking_def sub_off_def)
qed

text \<open>
  Main program \<open>m\<close> is linked in \<open>ps\<close>: its code is that of the programs \<open>ord\<close>, which are those needed, itself
  first. Nothing but the offsets of subprograms has changed in the other programs.
\<close>

definition links :: "link_env \<Rightarrow> nat \<Rightarrow> bpf_program list \<Rightarrow> bpf_program \<Rightarrow> bool" where
  "links C m P prog \<longleftrightarrow> (\<exists>ord. ord \<noteq> [] \<and> hd ord = m \<and> distinct ord \<and> set ord = {k. needed C P m k} \<and>
     p_insns prog = linked_code C P ord \<and> p_relos prog = linked_relos P ord)"

definition frame_of :: "link_env \<Rightarrow> nat \<Rightarrow> bpf_program list \<Rightarrow> bpf_program list \<Rightarrow> bool" where
  "frame_of C m P ps \<longleftrightarrow> length ps = length P \<and> same_but (ps ! m) (P ! m) \<and>
     (\<forall>k < length P. k \<noteq> m \<longrightarrow> (\<exists>off. ps ! k = (P ! k)\<lparr>p_sub_insn_off := off\<rparr>)) \<and>
     (\<forall>k < length P. k \<notin> parts C m P \<longrightarrow> ps ! k = P ! k)"

lemma links_all_needed:
  assumes L: "linking C m P ps ord (done_code P (set ord))" and new: "\<forall>k \<in> set ord. needed C P m k"
  shows "links C m P (ps ! m)"
proof -
  have "k \<in> set ord" if "needed C P m k" for k
    using that
  proof induction
    case main
    show ?case by (rule linking_base(2) [OF L])
  next
    case (call k j t)
    then show ?case using linking_final(3) [OF L] by blast
  qed
  then have "set ord = {k. needed C P m k}" using new by blast
  moreover have "ord \<noteq> []" "hd ord = m" "distinct ord" using L by (simp_all add: linking_def)
  ultimately show ?thesis using linking_final(1,2) [OF L] unfolding links_def by blast
qed

lemma relocate_calls_reset:
  assumes ok: "link_ok C m P"
  shows "\<exists>err ps. bpf_object__reloc_code (length P) C m m P = Some (err, ps) \<and>
    (err = 0 \<longrightarrow> links C m P (ps ! m) \<and> frame_of C m P ps)"
proof -
  note L = linking_start [OF ok]
  have "linked_to C m P P [m] ({} \<union> done_code P {m}) (bpf_object__reloc_code (length P) C m m P)"
    using reloc_code_ok [OF ok, of "length P"] L needed.main unfolding recur_ok_def by force
  then obtain err ps where run: "bpf_object__reloc_code (length P) C m m P = Some (err, ps)" and
    res: "err = 0 \<longrightarrow> (\<exists>new. linking C m P ps ([m] @ new) (({} \<union> done_code P {m}) \<union> done_code P (set new)) \<and>
      (\<forall>k \<in> set new. needed C P m k))"
    unfolding linked_to_def by blast
  have "links C m P (ps ! m) \<and> frame_of C m P ps" if zero: "err = 0"
  proof -
    obtain new where new: "linking C m P ps ([m] @ new) (({} \<union> done_code P {m}) \<union> done_code P (set new))"
      "\<forall>k \<in> set new. needed C P m k" using res zero by blast
    have all: "({} \<union> done_code P {m}) \<union> done_code P (set new) = done_code P (set ([m] @ new))"
      by (simp add: done_code_Un [symmetric])
    have L': "linking C m P ps ([m] @ new) (done_code P (set ([m] @ new)))" using new(1) unfolding all .
    have "ps ! k = P ! k" if k: "k < length P" "k \<notin> parts C m P" for k
    proof -
      have "k \<noteq> m" "k \<notin> set ([m] @ new)" using k link_okD(5) [OF ok] linking_base(4) [OF L'] by auto
      then have "ps ! k = (P ! k)\<lparr>p_sub_insn_off := sub_off ps k\<rparr>" "sub_off ps k = 0" using L' k(1) unfolding linking_def by blast+
      then show ?thesis using link_okD(7) [OF ok k(1)] by (cases "P ! k") simp
    qed
    then have "frame_of C m P ps" using L' unfolding linking_def frame_of_def by blast
    then show ?thesis using links_all_needed [OF L'] new(2) needed.main by simp
  qed
  then show ?thesis using run by blast
qed

lemma frame_of_places: "frame_of C m P ps \<Longrightarrow> same_places ps P"
  unfolding frame_of_def same_places_def
proof (intro conjI allI impI)
  fix k assume f: "length ps = length P \<and> same_but (ps ! m) (P ! m) \<and>
     (\<forall>k < length P. k \<noteq> m \<longrightarrow> (\<exists>off. ps ! k = (P ! k)\<lparr>p_sub_insn_off := off\<rparr>)) \<and>
     (\<forall>k < length P. k \<notin> parts C m P \<longrightarrow> ps ! k = P ! k)" and k: "k < length P"
  then have "same_but (ps ! k) (P ! k) \<or> (\<exists>off. ps ! k = (P ! k)\<lparr>p_sub_insn_off := off\<rparr>)" by (cases "k = m") auto
  then show "p_sec_idx (ps ! k) = p_sec_idx (P ! k)" "p_sec_insn_off (ps ! k) = p_sec_insn_off (P ! k)"
    "p_sec_insn_cnt (ps ! k) = p_sec_insn_cnt (P ! k)"
    using same_but_members [of "ps ! k" "P ! k"] by auto
qed simp

lemma same_code_reset: "K \<subseteq> {..< length P} \<Longrightarrow> same_code (reset_subprogs C P) P K"
  using same_places_reset by (auto simp: same_code_def reset_simps)

lemma links_cong:
  assumes "same_code ps P (parts C m P)" "progs_ok P" "m < length P"
  shows "links C m ps prog \<longleftrightarrow> links C m P prog"
proof -
  have "set ord \<subseteq> parts C m P" if "set ord = {k. needed C P m k}" for ord
    using needed_in_parts [OF assms(2,3)] that by blast
  then show ?thesis
    unfolding links_def needed_cong [OF assms] using linked_code_cong [OF assms(1)] by metis
qed

lemma relocate_calls_links:
  assumes "linkable C m P"
  shows "\<exists>err ps. bpf_object__relocate_calls (length P) C m P = Some (err, ps) \<and>
    (err = 0 \<longrightarrow> links C m P (ps ! m) \<and> frame_of C m P ps)"
proof -
  let ?R = "reset_subprogs C P"
  have P: "progs_ok P" "m < length P" using assms by (simp_all add: linkable_def)
  obtain err ps where run: "bpf_object__relocate_calls (length P) C m P = Some (err, ps)" and
    res: "err = 0 \<longrightarrow> links C m ?R (ps ! m) \<and> frame_of C m ?R ps"
    using relocate_calls_reset [OF linkable_reset [OF assms]] by (auto simp: bpf_object__relocate_calls_def)
  have "links C m ?R prog \<longleftrightarrow> links C m P prog" for prog
    by (rule links_cong [OF same_code_reset P]) (auto simp: parts_less)
  moreover have "frame_of C m P ps" if f: "frame_of C m ?R ps"
  proof -
    have "p_sec_idx (P ! m) \<noteq> c_text_shndx C" using assms by (simp add: linkable_def)
    then have "?R ! m = P ! m" using P(2) by (simp add: reset_subprogs_def prog_is_subprog_def)
    moreover have "\<exists>off. ps ! k = (P ! k)\<lparr>p_sub_insn_off := off\<rparr>" if k: "k < length P" "k \<noteq> m" for k
    proof -
      obtain off where "ps ! k = (?R ! k)\<lparr>p_sub_insn_off := off\<rparr>" using f k by (auto simp: frame_of_def)
      moreover obtain off' where "?R ! k = (P ! k)\<lparr>p_sub_insn_off := off'\<rparr>" using reset_off k(1) by blast
      ultimately have "ps ! k = (P ! k)\<lparr>p_sub_insn_off := off\<rparr>" by simp
      then show ?thesis by blast
    qed
    moreover have "ps ! k = P ! k" if k: "k < length P" "k \<notin> parts C m P" for k
    proof -
      have sec: "p_sec_idx (P ! k) \<noteq> c_text_shndx C" using k by (simp add: parts_def)
      then have "k \<notin> parts C m ?R" "?R ! k = P ! k"
        using k by (simp_all add: parts_def reset_subprogs_def prog_is_subprog_def)
      then show ?thesis using f k(1) by (simp add: frame_of_def)
    qed
    ultimately show ?thesis using f by (simp add: frame_of_def)
  qed
  ultimately show ?thesis using run res by blast
qed

text \<open>A call in the linked code leads to the first instruction of the subprogram.\<close>

lemma linked_nth:
  assumes "distinct ord" "k \<in> set ord" "j < code_len P k"
  shows "place P ord k + j < length (linked_code C P ord)" "linked_code C P ord ! (place P ord k + j) = linked_insn C P (place P ord) k j"
proof -
  obtain i where i: "i < length ord" "ord ! i = k" using assms(2) by (auto simp: in_set_conv_nth)
  let ?blocks = "map (\<lambda>k. map (linked_insn C P (place P ord) k) [0..<code_len P k]) ord"
  have split: "linked_code C P ord = concat (take i ?blocks) @ ?blocks ! i @ concat (drop (Suc i) ?blocks)"
    unfolding linked_code_def by (rule concat_nth_split) (simp add: i)
  have "place P ord k = sum_list (map (code_len P) (take i ord))"
    using takeWhile_before [OF assms(1) i(1)] i(2) by (simp add: place_def)
  then have at: "place P ord k = length (concat (take i ?blocks))"
    by (simp add: length_concat take_map comp_def)
  have block: "?blocks ! i = map (linked_insn C P (place P ord) k) [0..<code_len P k]" using i by simp
  show "place P ord k + j < length (linked_code C P ord)" unfolding split at block using assms(3) by simp
  show "linked_code C P ord ! (place P ord k + j) = linked_insn C P (place P ord) k j"
    unfolding split at block using assms(3) by (simp add: nth_append)
qed

lemma sint_of_int_small: "- (2 ^ 31) \<le> x \<Longrightarrow> x < 2 ^ 31 \<Longrightarrow> sint (of_int x :: u32) = x"
  by (simp add: sint_sbintrunc' signed_take_bit_int_eq_self)

lemma call_lands:
  assumes "distinct ord" "set ord \<subseteq> parts C m P" "(\<Sum>k \<in> parts C m P. code_len P k) < 2 ^ 31"
    and k: "k \<in> set ord" "j < code_len P k" and t: "call_target C P k j = Some t" "t \<in> set ord"
  shows "int (place P ord k + j) + 1 + sint (i_imm (linked_code C P ord ! (place P ord k + j))) = int (place P ord t)"
proof -
  have "length (linked_code C P ord) = sum_list (map (code_len P) ord)" by (simp add: linked_code_def length_concat comp_def)
  then have len: "length (linked_code C P ord) < 2 ^ 31" using len_le_total [OF assms(1,2)] assms(3) by linarith
  have "place P ord k + j < length (linked_code C P ord)" by (rule linked_nth [OF assms(1) k])
  moreover have "place P ord t \<le> length (linked_code C P ord)"
  proof -
    have "place P ord t = sum_list (map (code_len P) (take (length (takeWhile (\<lambda>k'. k' \<noteq> t) ord)) ord))"
      by (simp add: place_def takeWhile_eq_take [symmetric])
    also have "\<dots> \<le> sum_list (map (code_len P) (take (length ord) ord))"
      by (intro sum_take_le) (simp add: length_takeWhile_le)
    finally show ?thesis by (simp add: linked_code_def length_concat comp_def)
  qed
  ultimately have lt: "place P ord k + j < 2 ^ 31" "place P ord t < 2 ^ 31" using len by linarith+
  have "sint (of_int (int (place P ord t) - int (place P ord k + j) - 1) :: u32) = int (place P ord t) - int (place P ord k + j) - 1"
    by (rule sint_of_int_small) (use lt in auto)
  then show ?thesis unfolding linked_nth(2) [OF assms(1) k] by (simp add: linked_insn_def t(1))
qed

text \<open>
  C39. Linking a main program always comes to an end; the number of programs bounds how deep it recurses.
  When it succeeds the program's code consists of the code of exactly those programs that it needs, itself
  first and each once; every call among them leads to the first instruction of the subprogram that it
  called before, wherever that is now; all other instructions are as they were. In the other programs
  nothing changes but the offsets of subprograms.
\<close>

theorem calls_linked:
  assumes "linkable C m P"
  shows "\<exists>err ps. bpf_object__relocate_calls (length P) C m P = Some (err, ps) \<and> (err = 0 \<longrightarrow> frame_of C m P ps \<and>
    (\<exists>ord. hd ord = m \<and> distinct ord \<and> set ord = {k. needed C P m k} \<and> p_insns (ps ! m) = linked_code C P ord \<and>
       (\<forall>k \<in> set ord. \<forall>j < code_len P k. \<forall>t. call_target C P k j = Some t \<longrightarrow> t \<in> set ord \<and>
          int (place P ord k + j) + 1 + sint (i_imm (p_insns (ps ! m) ! (place P ord k + j))) = int (place P ord t))))"
proof -
  have P: "progs_ok P" "m < length P" "(\<Sum>k \<in> parts C m P. code_len P k) < 2 ^ 31"
    using assms by (simp_all add: linkable_def)
  obtain err ps where run: "bpf_object__relocate_calls (length P) C m P = Some (err, ps)" and
    res: "err = 0 \<longrightarrow> links C m P (ps ! m) \<and> frame_of C m P ps"
    using relocate_calls_links [OF assms] by blast
  have "\<exists>ord. hd ord = m \<and> distinct ord \<and> set ord = {k. needed C P m k} \<and> p_insns (ps ! m) = linked_code C P ord \<and>
       (\<forall>k \<in> set ord. \<forall>j < code_len P k. \<forall>t. call_target C P k j = Some t \<longrightarrow> t \<in> set ord \<and>
          int (place P ord k + j) + 1 + sint (i_imm (p_insns (ps ! m) ! (place P ord k + j))) = int (place P ord t))"
    if zero: "err = 0"
  proof -
    obtain ord where ord: "hd ord = m" "distinct ord" "set ord = {k. needed C P m k}" "p_insns (ps ! m) = linked_code C P ord"
      using res zero by (auto simp: links_def)
    have sub: "set ord \<subseteq> parts C m P" using needed_in_parts [OF P(1,2)] ord(3) by blast
    have "t \<in> set ord" if "k \<in> set ord" "j < code_len P k" "call_target C P k j = Some t" for k j t
      using needed.call [of C P m k j t] that ord(3) by simp
    then show ?thesis using ord call_lands [OF ord(2) sub P(3)] by (intro exI [of _ ord]) simp
  qed
  then show ?thesis using run res by blast
qed

text \<open>A main program of two instructions that calls a subprogram of one.\<close>

definition sample_link_env :: link_env where
  "sample_link_env = \<lparr>c_text_shndx = 1, c_btf = [], c_ext = None, c_func_info = True, c_al_insns = (\<lambda>_. True), c_al_relos = (\<lambda>_. True),
     c_al_info = True, c_junk_byte = (\<lambda>_. 0), c_junk_insn = \<lparr>i_code = 0, dst_reg = 0, src_reg = 0, i_off = 0, i_imm = 0\<rparr>\<rparr>"

definition sample_exit :: bpf_insn where
  "sample_exit = \<lparr>i_code = 0x95, dst_reg = 0, src_reg = 0, i_off = 0, i_imm = 0\<rparr>"

definition sample_call :: "u32 \<Rightarrow> bpf_insn" where
  "sample_call imm = \<lparr>i_code = 0x85, dst_reg = 0, src_reg = 1, i_off = 0, i_imm = imm\<rparr>"

definition sample_sub :: "nat \<Rightarrow> bpf_program" where
  "sample_sub off = \<lparr>p_sec_name = [46, 116, 101, 120, 116], p_sec_idx = 1, p_sec_insn_off = 0, p_sec_insn_cnt = 1, p_sub_insn_off = off,
     p_insns = [sample_exit], p_relos = [], p_load = True, p_func_info = no_info, p_line_info = no_info, p_gen_loader = False\<rparr>"

definition sample_main :: "bpf_insn list \<Rightarrow> bpf_program" where
  "sample_main insns = \<lparr>p_sec_name = [120], p_sec_idx = 3, p_sec_insn_off = 0, p_sec_insn_cnt = 2, p_sub_insn_off = 0,
     p_insns = insns, p_relos = [\<lparr>rd_type = RELO_CALL, rd_insn_idx = 0, rd_map_idx = 0, rd_sym_off = 0\<rparr>], p_load = True,
     p_func_info = no_info, p_line_info = no_info, p_gen_loader = False\<rparr>"

lemmas sample_link_defs = sample_link_env_def sample_exit_def sample_call_def sample_sub_def sample_main_def

lemma sample_calls: "insn_is_subprog_call (sample_call imm)" "\<not> insn_is_subprog_call sample_exit"
  "\<not> insn_is_pseudo_func sample_exit"
  by (simp_all add: sample_link_defs insn_is_subprog_call_def insn_is_pseudo_func_def is_ldimm64_insn_def BPF_CLASS_def BPF_OP_def BPF_SRC_def)

lemma sample_members: "unat (p_sec_insn_cnt (sample_main insns)) = Suc (Suc 0)" "p_sub_insn_off (sample_main insns) = 0" "p_insns (sample_main insns) = insns"
  "unat (p_sec_insn_cnt (sample_sub n)) = Suc 0" "p_sub_insn_off (sample_sub n) = n" "p_insns (sample_sub n) = [sample_exit]"
  "p_relos (sample_sub n) = []" "(sample_sub n)\<lparr>p_sub_insn_off := n'\<rparr> = sample_sub n'"
  "(sample_main insns)\<lparr>p_insns := insns'\<rparr> = sample_main insns'" "(sample_main insns)\<lparr>p_relos := p_relos (sample_main insns')\<rparr> = sample_main insns"
  "(sample_call imm)\<lparr>i_imm := imm'\<rparr> = sample_call imm'"
  by (simp_all add: sample_sub_def sample_main_def sample_call_def)

lemma sample_linked:
  "bpf_object__relocate_calls 2 sample_link_env 1 [sample_sub 0, sample_main [sample_call (- 1), sample_exit]] =
    Some (0, [sample_sub 2, sample_main [sample_call 1, sample_exit, sample_exit]])"
proof -
  have reset: "reset_subprogs sample_link_env [sample_sub 0, sample_main [sample_call (- 1), sample_exit]] =
      [sample_sub 0, sample_main [sample_call (- 1), sample_exit]]"
    by (simp add: reset_subprogs_def prog_is_subprog_def sample_sub_def sample_main_def)
  have find: "find_prog_by_sec_insn [sample_sub n, sample_main insns] 1 0 = Some (Some 0)" for n insns
    by (simp add: find_prog_by_sec_insn_def find_prog_loop.simps sample_sub_def sample_main_def prog_contains_insn_def)
  have idx: "sub_insn_idx (sample_main insns) 0 (sample_call (- 1)) = Inr (Some 0)" for insns
    by (simp add: sub_insn_idx_def find_prog_insn_relo_def bsearch.simps sample_main_def cmp_relo_by_insn_idx_def sample_call_def)
  have noidx: "c_ext sample_link_env = None" "c_text_shndx sample_link_env = 1" by (simp_all add: sample_link_env_def)
  have sample_al: "c_al_insns sample_link_env n" "c_al_relos sample_link_env n" for n by (simp_all add: sample_link_env_def)
  have info: "reloc_prog_func_and_line_info sample_link_env m p ps = Some (0, ps)" for m p ps
    by (simp add: reloc_prog_func_and_line_info_def noidx)
  show ?thesis
    unfolding bpf_object__relocate_calls_def reset numeral_2_eq_2
    by (simp add: info noidx sample_calls sample_members idx find append_subprog_def append_subprog_relos_def sample_al)
qed

lemma sample_linkable: "linkable sample_link_env 1 [sample_sub 0, sample_main [sample_call (- 1), sample_exit]]"
proof -
  let ?P = "[sample_sub 0, sample_main [sample_call (- 1), sample_exit]]"
  have "parts sample_link_env 1 ?P = {0, 1}"
    by (auto simp: parts_def sample_sub_def sample_link_env_def less_Suc_eq)
  moreover have "progs_ok ?P"
    by (simp add: progs_ok_def cmp_progs_def less_Suc_eq sample_sub_def sample_main_def)
  moreover have "tables_ok sample_link_env" by (simp add: tables_ok_def sample_link_env_def)
  ultimately show ?thesis
    by (auto simp: linkable_def relos_ok_def less_Suc_eq sample_sub_def sample_main_def sample_link_env_def)
qed

theorem calls_linked_witness:
  "\<exists>ord. hd ord = 1 \<and> distinct ord \<and>
    set ord = {k. needed sample_link_env [sample_sub 0, sample_main [sample_call (- 1), sample_exit]] 1 k} \<and>
    linked_code sample_link_env [sample_sub 0, sample_main [sample_call (- 1), sample_exit]] ord = [sample_call 1, sample_exit, sample_exit]"
proof -
  let ?P = "[sample_sub 0, sample_main [sample_call (- 1), sample_exit]]"
  obtain err ps where r: "bpf_object__relocate_calls (length ?P) sample_link_env 1 ?P = Some (err, ps)"
    "err = 0 \<longrightarrow> (\<exists>ord. hd ord = 1 \<and> distinct ord \<and> set ord = {k. needed sample_link_env ?P 1 k} \<and>
      p_insns (ps ! 1) = linked_code sample_link_env ?P ord)"
    using calls_linked [OF sample_linkable] by blast
  have two: "length ?P = 2" by simp
  have "err = 0" "ps ! 1 = sample_main [sample_call 1, sample_exit, sample_exit]"
    using r(1) [unfolded two] sample_linked by simp_all
  then show ?thesis using r(2) by (auto simp: sample_members)
qed

end
