(* ===== verification/Relo_Data.thy ===== *)
theory Relo_Data
  imports Relo_Linked
begin

text \<open>
  The last step of relocation, references to maps and to external variables and functions
  (\<open>bpf_object__relocate_data\<close> of \<open>libbpf.c\<close>), and \<open>bpf_object__relocate\<close>, which takes all the steps in turn.
\<close>

section \<open>References to data\<close>












section \<open>All steps\<close>








section \<open>Linking every main program\<close>







section \<open>References to data are in bounds\<close>











section \<open>The whole of relocation\<close>














end
