(* ===== verification/Prog_Linfo.thy ===== *)
theory Prog_Linfo
  imports Errno
begin

text \<open>
  The line information of a loaded program, \<open>bpf_prog_linfo.c\<close>: one record for each source line of the
  BPF code and, in the same order, one for the machine code, cut into functions. The memory that the
  kernel's \<open>bpf_prog_info\<close> points to is a list, and \<open>None\<close> when the pointer is null. A record found is
  the offset of its first byte; the null pointer with \<open>errno\<close> is \<open>Inl\<close>.
\<close>

section \<open>Records\<close>

record bpf_prog_info =
  nr_jited_ksyms :: u32
  nr_jited_func_lens :: u32
  jited_ksyms :: "u64 list option"
  jited_func_lens :: "u32 list option"
  nr_line_info :: u32
  line_info :: bytes
  jited_line_info :: "bytes option"
  nr_jited_line_info :: u32
  line_info_rec_size :: u32
  jited_line_info_rec_size :: u32

record bpf_prog_linfo =
  raw_linfo :: bytes
  raw_jited_linfo :: bytes
  nr_jited_linfo_per_func :: "u32 list"
  jited_linfo_func_idx :: "u32 list"
  nr_linfo :: u32
  nr_jited_func :: u32
  rec_size :: u32
  jited_rec_size :: u32

section \<open>Cutting the records into functions\<close>

text \<open>
  The loop over the records: \<open>n\<close> of them are left, \<open>i\<close> is the index of the next, \<open>p\<close> the offset of
  the one before it, \<open>f\<close> the function whose start is looked for and \<open>prev_i\<close> the start of the one before.
  \<open>None\<close> inside is the jump to \<open>errout\<close>.
\<close>

primrec dissect_loop :: "u64 list \<Rightarrow> u32 list \<Rightarrow> nat \<Rightarrow> nat \<Rightarrow> nat \<Rightarrow> nat \<Rightarrow> nat \<Rightarrow> bpf_prog_linfo \<Rightarrow>
    (nat \<times> nat \<times> bpf_prog_linfo) option option" where
  "dissect_loop ksym_func ksym_len 0 i f prev_i p pl = Some (Some (f, prev_i, pl))"
| "dissect_loop ksym_func ksym_len (Suc n) i f prev_i p pl =
     (if \<not> f < unat (nr_jited_func pl) then Some (Some (f, prev_i, pl))
      else do {
        last_jited_linfo \<leftarrow> ld64 (raw_jited_linfo pl) p;
        let p = p + unat (jited_rec_size pl);
        jited_linfo \<leftarrow> ld64 (raw_jited_linfo pl) p;
        ksym \<leftarrow> arr_get ksym_func f;
        if ksym = jited_linfo then do {
          idx \<leftarrow> arr_set (jited_linfo_func_idx pl) f (of_nat i);
          prev_ksym \<leftarrow> arr_get ksym_func (f - 1);
          prev_len \<leftarrow> arr_get ksym_len (f - 1);
          if last_jited_linfo - prev_ksym + 1 > ucast prev_len then Some None
          else do {
            per_func \<leftarrow> arr_set (nr_jited_linfo_per_func pl) (f - 1) (of_nat (i - prev_i));
            dissect_loop ksym_func ksym_len n (i + 1) (f + 1) i p
              (pl\<lparr>jited_linfo_func_idx := idx, nr_jited_linfo_per_func := per_func\<rparr>)
          }
        }
        else if jited_linfo \<le> last_jited_linfo then Some None
        else dissect_loop ksym_func ksym_len n (i + 1) f prev_i p pl
      })"

definition dissect_jited_func :: "bpf_prog_linfo \<Rightarrow> u64 list \<Rightarrow> u32 list \<Rightarrow> (int \<times> bpf_prog_linfo) option" where
  "dissect_jited_func pl ksym_func ksym_len = do {
     first_ksym \<leftarrow> arr_get ksym_func 0;
     jited_linfo \<leftarrow> ld64 (raw_jited_linfo pl) 0;
     if first_ksym \<noteq> jited_linfo then Some (- EINVAL, pl)
     else do {
       idx \<leftarrow> arr_set (jited_linfo_func_idx pl) 0 0;
       let pl = pl\<lparr>jited_linfo_func_idx := idx\<rparr>;
       r \<leftarrow> dissect_loop ksym_func ksym_len (unat (nr_linfo pl) - 1) 1 1 0 0 pl;
       (case r of
          None \<Rightarrow> Some (- EINVAL, pl)
        | Some (f, prev_i, pl) \<Rightarrow>
            if f \<noteq> unat (nr_jited_func pl) then Some (- EINVAL, pl)
            else do {
              per_func \<leftarrow> arr_set (nr_jited_linfo_per_func pl) (f - 1) (nr_linfo pl - of_nat prev_i);
              Some (0, pl\<lparr>nr_jited_linfo_per_func := per_func\<rparr>)
            })
     }
   }"

text \<open>
  Which of the five allocations succeed, in their order; \<open>junk\<close> is what \<open>malloc\<close> leaves in the two
  arrays. What was allocated is freed on an error.
\<close>

definition bpf_prog_linfo__new :: "(nat \<Rightarrow> bool) \<Rightarrow> (nat \<Rightarrow> u32) \<Rightarrow> bpf_prog_info \<Rightarrow> (int + bpf_prog_linfo) option" where
  "bpf_prog_linfo__new al junk info =
     (if nr_line_info info = 0 then Some (Inl EINVAL)
      else if line_info_rec_size info < 4 then Some (Inl EINVAL)
      else if \<not> al 0 then Some (Inl ENOMEM)
      else if \<not> al 1 then Some (Inl EINVAL)
      else do {
        raw \<leftarrow> ldn (line_info info) 0 (unat (nr_line_info info) * unat (line_info_rec_size info));
        let pl = \<lparr>raw_linfo = raw, raw_jited_linfo = [], nr_jited_linfo_per_func = [], jited_linfo_func_idx = [],
          nr_linfo = nr_line_info info, nr_jited_func = 0, rec_size = line_info_rec_size info, jited_rec_size = 0\<rparr>;
        let nr_func = nr_jited_ksyms info;
        (case (jited_line_info info, jited_ksyms info, jited_func_lens info) of
           (Some jited, Some ksyms, Some func_lens) \<Rightarrow>
             if nr_func = 0 \<or> nr_jited_line_info info \<noteq> nr_line_info info \<or> jited_line_info_rec_size info < 8 \<or>
                nr_jited_func_lens info \<noteq> nr_func
             then Some (Inr pl)
             else if \<not> al 2 then Some (Inl EINVAL)
             else do {
               raw_jited \<leftarrow> ldn jited 0 (unat (nr_line_info info) * unat (jited_line_info_rec_size info));
               if \<not> al 3 \<or> \<not> al 4 then Some (Inl EINVAL)
               else do {
                 let pl = pl\<lparr>raw_jited_linfo := raw_jited, nr_jited_func := nr_func,
                   jited_rec_size := jited_line_info_rec_size info,
                   nr_jited_linfo_per_func := map junk [0 ..< unat nr_func],
                   jited_linfo_func_idx := map junk [0 ..< unat nr_func]\<rparr>;
                 (err, pl) \<leftarrow> dissect_jited_func pl ksyms func_lens;
                 Some (if err \<noteq> 0 then Inl EINVAL else Inr pl)
               }
             }
         | _ \<Rightarrow> Some (Inr pl))
      })"

section \<open>Lookups\<close>

text \<open>
  The loops step through the records as long as they start at or before the address; the offsets are
  computed in 32 bits first, and then move in the memory.
\<close>

primrec addr_loop :: "bytes \<Rightarrow> u64 \<Rightarrow> nat \<Rightarrow> nat \<Rightarrow> nat \<Rightarrow> nat \<Rightarrow> nat \<Rightarrow> nat option" where
  "addr_loop jited addr jited_width width 0 jp p = Some p"
| "addr_loop jited addr jited_width width (Suc n) jp p = do {
     jited_linfo \<leftarrow> ld64 jited jp;
     if addr < jited_linfo then Some p
     else addr_loop jited addr jited_width width n (jp + jited_width) (p + width)
   }"

definition bpf_prog_linfo__lfind_addr_func :: "bpf_prog_linfo \<Rightarrow> u64 \<Rightarrow> u32 \<Rightarrow> u32 \<Rightarrow> (int + nat) option" where
  "bpf_prog_linfo__lfind_addr_func pl addr func_idx nr_skip =
     (if func_idx \<ge> nr_jited_func pl then Some (Inl ENOENT)
      else do {
        nr \<leftarrow> arr_get (nr_jited_linfo_per_func pl) (unat func_idx);
        if nr_skip \<ge> nr then Some (Inl ENOENT)
        else do {
          idx \<leftarrow> arr_get (jited_linfo_func_idx pl) (unat func_idx);
          let start = idx + nr_skip;
          let jp = unat (start * jited_rec_size pl);
          jited_linfo \<leftarrow> ld64 (raw_jited_linfo pl) jp;
          if addr < jited_linfo then Some (Inl ENOENT)
          else do {
            p \<leftarrow> addr_loop (raw_jited_linfo pl) addr (unat (jited_rec_size pl)) (unat (rec_size pl))
              (unat (nr - nr_skip)) jp (unat (start * rec_size pl));
            Some (Inr (p - unat (rec_size pl)))
          }
        }
      })"

primrec insn_loop :: "bytes \<Rightarrow> u32 \<Rightarrow> nat \<Rightarrow> nat \<Rightarrow> nat \<Rightarrow> nat option" where
  "insn_loop raw insn_off width 0 p = Some p"
| "insn_loop raw insn_off width (Suc n) p = do {
     linfo_insn_off \<leftarrow> ld32 raw p;
     if insn_off < linfo_insn_off then Some p
     else insn_loop raw insn_off width n (p + width)
   }"

definition bpf_prog_linfo__lfind :: "bpf_prog_linfo \<Rightarrow> u32 \<Rightarrow> u32 \<Rightarrow> (int + nat) option" where
  "bpf_prog_linfo__lfind pl insn_off nr_skip =
     (if nr_skip \<ge> nr_linfo pl then Some (Inl ENOENT)
      else do {
        let p = unat (nr_skip * rec_size pl);
        linfo_insn_off \<leftarrow> ld32 (raw_linfo pl) p;
        if insn_off < linfo_insn_off then Some (Inl ENOENT)
        else do {
          p \<leftarrow> insn_loop (raw_linfo pl) insn_off (unat (rec_size pl)) (unat (nr_linfo pl - nr_skip)) p;
          Some (Inr (p - unat (rec_size pl)))
        }
      })"

section \<open>What the cut says\<close>

text \<open>The address of a record; the record of the first instruction of a function.\<close>

definition addr_of :: "bpf_prog_linfo \<Rightarrow> nat \<Rightarrow> u64" where
  "addr_of pl k = the (ld64 (raw_jited_linfo pl) (k * unat (jited_rec_size pl)))"

definition start_of :: "bpf_prog_linfo \<Rightarrow> nat \<Rightarrow> nat" where
  "start_of pl g = unat (jited_linfo_func_idx pl ! g)"

definition jited_ok :: "bpf_prog_linfo \<Rightarrow> bool" where
  "jited_ok pl \<longleftrightarrow> 8 \<le> unat (jited_rec_size pl) \<and> 4 \<le> unat (rec_size pl) \<and> nr_linfo pl \<noteq> 0 \<and> nr_jited_func pl \<noteq> 0 \<and>
     length (raw_jited_linfo pl) = unat (nr_linfo pl) * unat (jited_rec_size pl) \<and>
     length (raw_linfo pl) = unat (nr_linfo pl) * unat (rec_size pl) \<and>
     length (nr_jited_linfo_per_func pl) = unat (nr_jited_func pl) \<and>
     length (jited_linfo_func_idx pl) = unat (nr_jited_func pl)"

text \<open>
  The functions before \<open>f\<close> are cut out: each starts with the record of its symbol, has the records up
  to the next start, in ascending order and within its length.
\<close>

definition cut_upto :: "u64 list \<Rightarrow> u32 list \<Rightarrow> nat \<Rightarrow> nat \<Rightarrow> bpf_prog_linfo \<Rightarrow> bool" where
  "cut_upto ksyms lens f i pl \<longleftrightarrow> 1 \<le> f \<and> f \<le> unat (nr_jited_func pl) \<and> start_of pl 0 = 0 \<and>
     start_of pl (f - 1) < i \<and> i \<le> unat (nr_linfo pl) \<and>
     (\<forall>g < f. g < length ksyms \<and> addr_of pl (start_of pl g) = ksyms ! g) \<and>
     (\<forall>g. g + 1 < f \<longrightarrow> start_of pl g < start_of pl (g + 1) \<and>
        unat (nr_jited_linfo_per_func pl ! g) = start_of pl (g + 1) - start_of pl g \<and> g < length lens \<and>
        addr_of pl (start_of pl (g + 1) - 1) - ksyms ! g + 1 \<le> ucast (lens ! g)) \<and>
     (\<forall>g k. g < f \<longrightarrow> start_of pl g \<le> k \<longrightarrow> k + 1 < (if g + 1 < f then start_of pl (g + 1) else i) \<longrightarrow>
        addr_of pl k < addr_of pl (k + 1))"

lemma ld64_record:
  assumes "jited_ok pl" "k < unat (nr_linfo pl)"
  shows "ld64 (raw_jited_linfo pl) (k * unat (jited_rec_size pl)) = Some (addr_of pl k)"
proof -
  have "Suc k * unat (jited_rec_size pl) \<le> unat (nr_linfo pl) * unat (jited_rec_size pl)"
    using assms(2) by (intro mult_le_mono1) simp
  then have "k * unat (jited_rec_size pl) + 8 \<le> length (raw_jited_linfo pl)"
    using assms(1) by (simp add: jited_ok_def)
  then show ?thesis by (simp add: addr_of_def ld64_def ldn_def)
qed

lemma unat_of_nat_32: "n < 2 ^ 32 \<Longrightarrow> unat (of_nat n :: u32) = n"
  by (simp add: unat_of_nat)

lemma less_nr: "k \<le> unat (w :: u32) \<Longrightarrow> k < 2 ^ 32"
  using unsigned_less [where ?'a = nat and w = w] by simp

text \<open>The start of the next function has been found at \<open>i\<close>.\<close>

lemma cut_upto_step:
  assumes ok: "jited_ok pl" and cut: "cut_upto ksyms lens f i pl" and i: "i < unat (nr_linfo pl)" "f < unat (nr_jited_func pl)"
    and found: "f < length ksyms" "addr_of pl i = ksyms ! f" "f - 1 < length lens"
      "\<not> addr_of pl (i - 1) - ksyms ! (f - 1) + 1 > ucast (lens ! (f - 1))"
    and pl': "pl' = pl\<lparr>jited_linfo_func_idx := (jited_linfo_func_idx pl)[f := of_nat i],
      nr_jited_linfo_per_func := (nr_jited_linfo_per_func pl)[f - 1 := of_nat (i - start_of pl (f - 1))]\<rparr>"
  shows "cut_upto ksyms lens (f + 1) (i + 1) pl'"
proof -
  have addr: "addr_of pl' = addr_of pl" by (simp add: fun_eq_iff addr_of_def pl')
  have ui: "unat (of_nat i :: u32) = i" using i(1) less_nr [of i "nr_linfo pl"] by (simp add: unat_of_nat_32)
  have ud: "unat (of_nat (i - k) :: u32) = i - k" for k
    using i(1) less_nr [of "i - k" "nr_linfo pl"] by (simp add: unat_of_nat_32)
  have start: "start_of pl' g = (if g = f then i else start_of pl g)" for g
    using ok i(2) ui by (simp add: start_of_def pl' jited_ok_def)
  have per: "unat (nr_jited_linfo_per_func pl' ! g) =
      (if g = f - 1 then i - start_of pl (f - 1) else unat (nr_jited_linfo_per_func pl ! g))" if "g < f" for g
    using ok i(2) that ud by (simp add: pl' jited_ok_def)
  note c = cut [unfolded cut_upto_def]
  have f1: "1 \<le> f" "start_of pl 0 = 0" "start_of pl (f - 1) < i" using c by simp_all
  have recs: "g < length ksyms \<and> addr_of pl (start_of pl' g) = ksyms ! g" if "g < f + 1" for g
    using that c found(1,2) by (cases "g = f") (simp_all add: start)
  have cuts: "start_of pl' g < start_of pl' (g + 1) \<and>
      unat (nr_jited_linfo_per_func pl' ! g) = start_of pl' (g + 1) - start_of pl' g \<and> g < length lens \<and>
      addr_of pl (start_of pl' (g + 1) - 1) - ksyms ! g + 1 \<le> ucast (lens ! g)" if "g + 1 < f + 1" for g
  proof (cases "g + 1 = f")
    case True
    then have "g = f - 1" by simp
    then show ?thesis using True f1(3) found(3,4) per [of g] by (simp add: start not_less)
  next
    case False
    then have "g + 1 < f" "g \<noteq> f - 1" using that by simp_all
    then show ?thesis using c per [of g] by (simp add: start)
  qed
  have mono: "addr_of pl k < addr_of pl (k + 1)"
    if "g < f + 1" "start_of pl' g \<le> k" "k + 1 < (if g + 1 < f + 1 then start_of pl' (g + 1) else i + 1)" for g k
  proof -
    have "g < f" using that start by (cases "g = f") auto
    moreover from this have "start_of pl g \<le> k" "k + 1 < (if g + 1 < f then start_of pl (g + 1) else i)"
      using that by (auto simp: start split: if_splits)
    ultimately show ?thesis using c by blast
  qed
  have "nr_jited_func pl' = nr_jited_func pl" "nr_linfo pl' = nr_linfo pl" by (simp_all add: pl')
  then show ?thesis
    unfolding cut_upto_def addr using f1 i recs cuts mono by (simp add: start)
qed

lemma cut_upto_same:
  assumes cut: "cut_upto ksyms lens f i pl" and i: "i < unat (nr_linfo pl)"
    and gt: "\<not> addr_of pl i \<le> addr_of pl (i - 1)"
  shows "cut_upto ksyms lens f (i + 1) pl"
proof -
  note c = cut [unfolded cut_upto_def]
  have "addr_of pl k < addr_of pl (k + 1)"
    if "g < f" "start_of pl g \<le> k" "k + 1 < (if g + 1 < f then start_of pl (g + 1) else i + 1)" for g k
  proof (cases "k + 1 < (if g + 1 < f then start_of pl (g + 1) else i)")
    case True
    then show ?thesis using c that(1,2) by blast
  next
    case False
    then have "k + 1 = i" using that(3) by (auto split: if_splits)
    then show ?thesis using gt by auto
  qed
  then show ?thesis unfolding cut_upto_def using c i by simp
qed

text \<open>The loop cuts out functions, and \<open>prev_i\<close> is the start of the last one found.\<close>

definition same_records :: "bpf_prog_linfo \<Rightarrow> bpf_prog_linfo \<Rightarrow> bool" where
  "same_records pl pl' \<longleftrightarrow> raw_linfo pl' = raw_linfo pl \<and> raw_jited_linfo pl' = raw_jited_linfo pl \<and>
     nr_linfo pl' = nr_linfo pl \<and> nr_jited_func pl' = nr_jited_func pl \<and> rec_size pl' = rec_size pl \<and>
     jited_rec_size pl' = jited_rec_size pl"

lemma dissect_loop_cuts:
  "dissect_loop ksyms lens n i f prev_i p pl = Some (Some (f', prev_i', pl')) \<Longrightarrow>
    jited_ok pl \<Longrightarrow> cut_upto ksyms lens f i pl \<Longrightarrow> i + n = unat (nr_linfo pl) \<Longrightarrow>
    p = (i - 1) * unat (jited_rec_size pl) \<Longrightarrow> prev_i = start_of pl (f - 1) \<Longrightarrow>
    jited_ok pl' \<and> same_records pl pl' \<and> prev_i' = start_of pl' (f' - 1) \<and> (\<exists>i'. cut_upto ksyms lens f' i' pl')"
proof (induction n arbitrary: i f prev_i p pl)
  case 0
  then show ?case by (auto simp: same_records_def)
next
  case (Suc n)
  show ?case
  proof (cases "f < unat (nr_jited_func pl)")
    case False
    then show ?thesis using Suc.prems by (auto simp: same_records_def)
  next
    case True
    let ?w = "unat (jited_rec_size pl)"
    have i: "1 \<le> i" "i < unat (nr_linfo pl)" "1 \<le> f" using Suc.prems(3,4) by (auto simp: cut_upto_def)
    then have p: "p + ?w = i * ?w" using Suc.prems(5) by (cases i) simp_all
    have last: "ld64 (raw_jited_linfo pl) p = Some (addr_of pl (i - 1))"
      using ld64_record [OF Suc.prems(2), of "i - 1"] i Suc.prems(5) by simp
    have cur: "ld64 (raw_jited_linfo pl) (p + ?w) = Some (addr_of pl i)"
      using ld64_record [OF Suc.prems(2) i(2)] p by simp
    obtain k where k: "arr_get ksyms f = Some k" using Suc.prems(1) True last cur by (auto simp: Let_def bind_eq_Some_conv)
    then have ksym: "f < length ksyms" "ksyms ! f = k" by (auto simp: arr_get_def split: if_splits)
    show ?thesis
    proof (cases "k = addr_of pl i")
      case True
      define pl1 where "pl1 = pl\<lparr>jited_linfo_func_idx := (jited_linfo_func_idx pl)[f := of_nat i],
        nr_jited_linfo_per_func := (nr_jited_linfo_per_func pl)[f - 1 := of_nat (i - start_of pl (f - 1))]\<rparr>"
      have run: "dissect_loop ksyms lens n (i + 1) (f + 1) i (p + ?w) pl1 = Some (Some (f', prev_i', pl'))"
        and len: "f - 1 < length lens" "\<not> addr_of pl (i - 1) - ksyms ! (f - 1) + 1 > ucast (lens ! (f - 1))"
        using Suc.prems(1) \<open>f < unat (nr_jited_func pl)\<close> last cur k True Suc.prems(6)
        by (auto simp: Let_def bind_eq_Some_conv arr_get_def arr_set_def pl1_def split: if_splits)
      have "cut_upto ksyms lens (f + 1) (i + 1) pl1"
        by (rule cut_upto_step [OF Suc.prems(2,3) i(2) \<open>f < unat (nr_jited_func pl)\<close> ksym(1) _ len pl1_def])
          (simp add: ksym(2) True)
      moreover have "jited_ok pl1" using Suc.prems(2) by (simp add: jited_ok_def pl1_def)
      moreover have "start_of pl1 f = i"
        using Suc.prems(2) \<open>f < unat (nr_jited_func pl)\<close> i(2) less_nr [of i "nr_linfo pl"]
        by (simp add: start_of_def pl1_def jited_ok_def unat_of_nat_32)
      ultimately have "jited_ok pl' \<and> same_records pl1 pl' \<and> prev_i' = start_of pl' (f' - 1) \<and> (\<exists>i'. cut_upto ksyms lens f' i' pl')"
        using p Suc.prems(4) by (intro Suc.IH [OF run]) (simp_all add: pl1_def)
      then show ?thesis by (simp add: same_records_def pl1_def)
    next
      case False
      then have run: "dissect_loop ksyms lens n (i + 1) f prev_i (p + ?w) pl = Some (Some (f', prev_i', pl'))"
        and gt: "\<not> addr_of pl i \<le> addr_of pl (i - 1)"
        using Suc.prems(1) \<open>f < unat (nr_jited_func pl)\<close> last cur k by (auto simp: Let_def split: if_splits)
      show ?thesis
        by (rule Suc.IH [OF run Suc.prems(2) cut_upto_same [OF Suc.prems(3) i(2) gt]])
          (use Suc.prems(4,6) p in simp_all)
    qed
  qed
qed

section \<open>All functions\<close>

text \<open>One after the last record of a function.\<close>

definition end_of :: "bpf_prog_linfo \<Rightarrow> nat \<Rightarrow> nat" where
  "end_of pl g = start_of pl g + unat (nr_jited_linfo_per_func pl ! g)"

definition all_cut :: "u64 list \<Rightarrow> u32 list \<Rightarrow> bpf_prog_linfo \<Rightarrow> bool" where
  "all_cut ksyms lens pl \<longleftrightarrow> jited_ok pl \<and> start_of pl 0 = 0 \<and> end_of pl (unat (nr_jited_func pl) - 1) = unat (nr_linfo pl) \<and>
     (\<forall>g < unat (nr_jited_func pl). start_of pl g < end_of pl g \<and> end_of pl g \<le> unat (nr_linfo pl) \<and>
        addr_of pl (start_of pl g) = ksyms ! g) \<and>
     (\<forall>g. g + 1 < unat (nr_jited_func pl) \<longrightarrow> end_of pl g = start_of pl (g + 1) \<and>
        addr_of pl (end_of pl g - 1) - ksyms ! g + 1 \<le> ucast (lens ! g) \<and>
        (\<forall>k. start_of pl g \<le> k \<longrightarrow> k + 1 < end_of pl g \<longrightarrow> addr_of pl k < addr_of pl (k + 1)))"

lemma start_of_bound: "cut_upto ksyms lens f i pl \<Longrightarrow> g < f \<Longrightarrow> start_of pl g < i"
proof (induction "f - 1 - g" arbitrary: g)
  case 0
  then have "g = f - 1" by simp
  then show ?case using 0 by (simp add: cut_upto_def)
next
  case (Suc d)
  then have "g + 1 < f" "start_of pl (g + 1) < i" by auto
  moreover have "start_of pl g < start_of pl (g + 1)" using Suc.prems(1) \<open>g + 1 < f\<close> by (simp add: cut_upto_def)
  ultimately show ?case by simp
qed

lemma cut_upto_all:
  assumes ok: "jited_ok pl" and cut: "cut_upto ksyms lens f i pl" and f: "f = unat (nr_jited_func pl)"
    and pl': "pl' = pl\<lparr>nr_jited_linfo_per_func :=
      (nr_jited_linfo_per_func pl)[f - 1 := nr_linfo pl - of_nat (start_of pl (f - 1))]\<rparr>"
  shows "all_cut ksyms lens pl'"
proof -
  note c = cut [unfolded cut_upto_def]
  have same: "addr_of pl' = addr_of pl" "start_of pl' = start_of pl" "nr_linfo pl' = nr_linfo pl" "nr_jited_func pl' = nr_jited_func pl"
    by (simp_all add: fun_eq_iff addr_of_def start_of_def pl')
  let ?s = "start_of pl (f - 1)"
  have "?s \<le> unat (nr_linfo pl)" using c by simp
  then have us: "unat (of_nat ?s :: u32) = ?s" using less_nr by (intro unat_of_nat_32)
  then have last: "unat (nr_linfo pl - of_nat ?s) = unat (nr_linfo pl) - ?s"
    using \<open>?s \<le> unat (nr_linfo pl)\<close> by (simp add: unat_sub word_le_nat_alt)
  have "1 \<le> f" using c by simp
  have e: "end_of pl' g = (if g + 1 = f then unat (nr_linfo pl) else start_of pl (g + 1))" if "g < f" for g
  proof (cases "g + 1 = f")
    case True
    then have "g = f - 1" by simp
    then show ?thesis
      using ok last True \<open>?s \<le> unat (nr_linfo pl)\<close> f \<open>1 \<le> f\<close>
      by (simp add: end_of_def same) (simp add: pl' jited_ok_def)
  next
    case False
    then have g: "g + 1 < f" "g \<noteq> f - 1" using that by simp_all
    then have "unat (nr_jited_linfo_per_func pl ! g) = start_of pl (g + 1) - start_of pl g"
      "start_of pl g < start_of pl (g + 1)" using c by simp_all
    then show ?thesis using False g(2) by (simp add: end_of_def same) (simp add: pl')
  qed
  have bound: "start_of pl g < unat (nr_linfo pl)" if "g < f" for g
    using start_of_bound [OF cut that] c by simp
  have mono: "addr_of pl k < addr_of pl (k + 1)" if "g + 1 < f" "start_of pl g \<le> k" "k + 1 < end_of pl' g" for g k
  proof -
    have "g < f" "k + 1 < (if g + 1 < f then start_of pl (g + 1) else i)" using that e [of g] by simp_all
    then show ?thesis using c that(2) by blast
  qed
  have "jited_ok pl'" using ok by (simp add: jited_ok_def pl')
  moreover have "start_of pl g < end_of pl' g \<and> end_of pl' g \<le> unat (nr_linfo pl) \<and> addr_of pl (start_of pl g) = ksyms ! g"
    if "g < f" for g
    using that e [of g] c bound [of g] bound [of "g + 1"] by auto
  moreover have "end_of pl' (f - 1) = unat (nr_linfo pl)" using e [of "f - 1"] \<open>1 \<le> f\<close> by simp
  ultimately show ?thesis
    unfolding all_cut_def same f [symmetric] using c e mono by simp
qed

lemma dissect_all_cut:
  assumes "dissect_jited_func pl ksyms lens = Some (0, pl')" "jited_ok pl"
  shows "all_cut ksyms lens pl' \<and> same_records pl pl'"
proof -
  have nr: "0 < unat (nr_linfo pl)" "0 < unat (nr_jited_func pl)" using assms(2) by (simp_all add: jited_ok_def unat_gt_0)
  define pl1 where "pl1 = pl\<lparr>jited_linfo_func_idx := (jited_linfo_func_idx pl)[0 := 0]\<rparr>"
  have first: "ld64 (raw_jited_linfo pl) 0 = Some (addr_of pl 0)"
    using ld64_record [OF assms(2) nr(1)] by simp
  have k: "0 < length ksyms" "ksyms ! 0 = addr_of pl 0" and len: "0 < length (jited_linfo_func_idx pl)"
    using assms(1) first
    by (auto simp: dissect_jited_func_def bind_eq_Some_conv arr_get_def arr_set_def split: if_splits)
  have start: "arr_get ksyms 0 = Some (addr_of pl 0)" "arr_set (jited_linfo_func_idx pl) 0 0 = Some ((jited_linfo_func_idx pl)[0 := 0])"
    using k len by (simp_all add: arr_get_def arr_set_def)
  obtain r where r: "dissect_loop ksyms lens (unat (nr_linfo pl) - 1) 1 1 0 0 pl1 = Some r"
    using assms(1) by (auto simp: dissect_jited_func_def start first Let_def pl1_def [symmetric] bind_eq_Some_conv)
  obtain f prev_i pl2 where r': "r = Some (f, prev_i, pl2)"
    using assms(1) r
    by (cases r) (auto simp: dissect_jited_func_def start first Let_def pl1_def [symmetric])
  have f: "f = unat (nr_jited_func pl2)"
    and pl': "pl' = pl2\<lparr>nr_jited_linfo_per_func := (nr_jited_linfo_per_func pl2)
      [unat (nr_jited_func pl2) - 1 := nr_linfo pl2 - of_nat prev_i]\<rparr>"
    using assms(1) r
    by (auto simp: dissect_jited_func_def start first Let_def pl1_def [symmetric] r' arr_set_def bind_eq_Some_conv split: if_splits)
  note run = r [unfolded r' f]
  have ok1: "jited_ok pl1" using assms(2) by (simp add: jited_ok_def pl1_def)
  have start1: "start_of pl1 0 = 0" using assms(2) nr(2) by (simp add: start_of_def pl1_def jited_ok_def)
  moreover have "addr_of pl1 = addr_of pl" by (simp add: fun_eq_iff addr_of_def pl1_def)
  moreover have "nr_linfo pl1 = nr_linfo pl" "nr_jited_func pl1 = nr_jited_func pl" by (simp_all add: pl1_def)
  ultimately have cut1: "cut_upto ksyms lens 1 1 pl1" using k nr by (simp add: cut_upto_def)
  obtain i' where l: "jited_ok pl2" "same_records pl1 pl2" "prev_i = start_of pl2 (unat (nr_jited_func pl2) - 1)"
    "cut_upto ksyms lens (unat (nr_jited_func pl2)) i' pl2"
    using dissect_loop_cuts [OF run ok1 cut1] nr start1 \<open>nr_linfo pl1 = nr_linfo pl\<close> by auto
  have "all_cut ksyms lens pl'" by (rule cut_upto_all [OF l(1,4) refl]) (simp add: pl' l(3))
  then show ?thesis using l(2) by (simp add: same_records_def pl' pl1_def)
qed

text \<open>Objects with information on machine code are cut; the records are those of the kernel.\<close>

lemma new_all_cut:
  assumes "bpf_prog_linfo__new al junk info = Some (Inr pl)" "nr_jited_func pl \<noteq> 0"
  shows "\<exists>jited ksyms lens. jited_line_info info = Some jited \<and> jited_ksyms info = Some ksyms \<and> jited_func_lens info = Some lens \<and>
    all_cut ksyms lens pl \<and> nr_linfo pl = nr_line_info info \<and> rec_size pl = line_info_rec_size info \<and>
    jited_rec_size pl = jited_line_info_rec_size info \<and> nr_jited_func pl = nr_jited_ksyms info \<and>
    raw_jited_linfo pl = take (unat (nr_linfo pl) * unat (jited_rec_size pl)) jited"
proof -
  let ?w = "unat (nr_line_info info) * unat (line_info_rec_size info)"
  let ?j = "unat (nr_line_info info) * unat (jited_line_info_rec_size info)"
  have p0: "nr_line_info info \<noteq> 0" "\<not> line_info_rec_size info < 4" "al 0" "al 1"
    using assms(1) by (auto simp: bpf_prog_linfo__new_def split: if_splits)
  obtain raw where raw: "ldn (line_info info) 0 ?w = Some raw"
    using assms(1) p0 by (auto simp: bpf_prog_linfo__new_def bind_eq_Some_conv split: if_splits)
  obtain jited ksyms lens where some: "jited_line_info info = Some jited" "jited_ksyms info = Some ksyms" "jited_func_lens info = Some lens"
    using assms p0 raw by (auto simp: bpf_prog_linfo__new_def Let_def split: if_splits option.splits)
  have cond: "nr_jited_ksyms info \<noteq> 0" "\<not> jited_line_info_rec_size info < 8" "nr_jited_line_info info = nr_line_info info"
      "nr_jited_func_lens info = nr_jited_ksyms info"
    using assms p0 raw some by (auto simp: bpf_prog_linfo__new_def Let_def split: if_splits)
  have al: "al 2"
    using assms(1) p0 raw some cond by (auto simp: bpf_prog_linfo__new_def Let_def split: if_splits)
  obtain raw_jited where raw_jited: "ldn jited 0 ?j = Some raw_jited"
    using assms(1) p0 raw some cond al by (auto simp: bpf_prog_linfo__new_def Let_def bind_eq_Some_conv split: if_splits)
  have al': "al 3" "al 4"
    using assms(1) p0 raw some cond al raw_jited by (auto simp: bpf_prog_linfo__new_def Let_def split: if_splits)
  have run: "dissect_jited_func \<lparr>raw_linfo = raw, raw_jited_linfo = raw_jited,
      nr_jited_linfo_per_func = map junk [0 ..< unat (nr_jited_ksyms info)],
      jited_linfo_func_idx = map junk [0 ..< unat (nr_jited_ksyms info)], nr_linfo = nr_line_info info,
      nr_jited_func = nr_jited_ksyms info, rec_size = line_info_rec_size info,
      jited_rec_size = jited_line_info_rec_size info\<rparr> ksyms lens = Some (0, pl)"
    using assms(1) p0 raw some cond al raw_jited al'
    by (auto simp: bpf_prog_linfo__new_def Let_def bind_eq_Some_conv split: if_splits)
  note p = some p0 cond raw raw_jited
  have "jited_ok \<lparr>raw_linfo = raw, raw_jited_linfo = raw_jited,
      nr_jited_linfo_per_func = map junk [0 ..< unat (nr_jited_ksyms info)],
      jited_linfo_func_idx = map junk [0 ..< unat (nr_jited_ksyms info)], nr_linfo = nr_line_info info,
      nr_jited_func = nr_jited_ksyms info, rec_size = line_info_rec_size info,
      jited_rec_size = jited_line_info_rec_size info\<rparr>"
    using p length_ldn [OF raw] length_ldn [OF raw_jited] by (simp add: jited_ok_def not_less word_le_nat_alt)
  from dissect_all_cut [OF run this] show ?thesis
    using p by (auto simp: same_records_def ldn_Some_iff)
qed

section \<open>Lookups by address\<close>

text \<open>The search stops behind the last record of a run that starts at or before the address.\<close>

definition last_of_run :: "(nat \<Rightarrow> 'a::linorder) \<Rightarrow> 'a \<Rightarrow> nat \<Rightarrow> nat \<Rightarrow> nat \<Rightarrow> bool" where
  "last_of_run at_rec x lo hi k \<longleftrightarrow> lo \<le> k \<and> k < hi \<and> (\<forall>j. lo \<le> j \<longrightarrow> j \<le> k \<longrightarrow> at_rec j \<le> x) \<and> (k + 1 < hi \<longrightarrow> x < at_rec (k + 1))"

lemma last_of_run_Suc: "at_rec lo \<le> x \<Longrightarrow> last_of_run at_rec x (lo + 1) hi k \<Longrightarrow> last_of_run at_rec x lo hi k"
  unfolding last_of_run_def by (metis Suc_eq_plus1 Suc_le_eq le_less nat_less_le order_trans less_imp_le)

lemma addr_loop_run:
  assumes "jited_ok pl" "j + n \<le> unat (nr_linfo pl)" "0 < n" "addr_of pl j \<le> addr"
  shows "\<exists>k. last_of_run (addr_of pl) addr j (j + n) k \<and>
    addr_loop (raw_jited_linfo pl) addr (unat (jited_rec_size pl)) r n (j * unat (jited_rec_size pl)) (j * r) = Some ((k + 1) * r)"
  using assms(2-)
proof (induction n arbitrary: j)
  case (Suc n)
  let ?w = "unat (jited_rec_size pl)"
  have ld: "ld64 (raw_jited_linfo pl) (j * ?w) = Some (addr_of pl j)"
    using ld64_record [OF assms(1)] Suc.prems(1) by simp
  have move: "j * ?w + ?w = (j + 1) * ?w" "j * r + r = (j + 1) * r" by simp_all
  show ?case
  proof (cases n)
    case 0
    then show ?thesis using ld Suc.prems(3) by (intro exI [of _ j]) (auto simp: last_of_run_def)
  next
    case (Suc m)
    show ?thesis
    proof (cases "addr < addr_of pl (j + 1)")
      case True
      have "ld64 (raw_jited_linfo pl) ((j + 1) * ?w) = Some (addr_of pl (j + 1))"
        using Suc.prems(1) Suc by (intro ld64_record [OF assms(1)]) simp
      then show ?thesis
        using ld Suc.prems(3) True Suc by (intro exI [of _ j]) (auto simp: last_of_run_def move simp del: mult_Suc)
    next
      case False
      have "\<exists>k. last_of_run (addr_of pl) addr (j + 1) (j + 1 + n) k \<and>
        addr_loop (raw_jited_linfo pl) addr ?w r n ((j + 1) * ?w) ((j + 1) * r) = Some ((k + 1) * r)"
        using Suc.prems(1) Suc False by (intro Suc.IH) simp_all
      then obtain k where k: "last_of_run (addr_of pl) addr (j + 1) (j + 1 + n) k"
        "addr_loop (raw_jited_linfo pl) addr ?w r n ((j + 1) * ?w) ((j + 1) * r) = Some ((k + 1) * r)" by blast
      have "addr_loop (raw_jited_linfo pl) addr ?w r (Suc n) (j * ?w) (j * r) = Some ((k + 1) * r)"
        unfolding addr_loop.simps ld using Suc.prems(3) k(2) by (simp only: move bind.bind_lunit not_less [symmetric] if_False)
      then show ?thesis using last_of_run_Suc [OF Suc.prems(3) k(1)] by (intro exI [of _ k]) simp
    qed
  qed
qed simp

lemma unat_mult_32: "unat a * unat b < 2 ^ 32 \<Longrightarrow> unat (a * b :: u32) = unat a * unat b"
  using unat_mult_lem [of a b] by simp

lemma unat_mult_le_32:
  assumes "unat n * unat w < 2 ^ 32" "unat a \<le> unat n"
  shows "unat (a * w :: u32) = unat a * unat w"
proof -
  have "unat a * unat w < 2 ^ 32" using mult_le_mono1 [OF assms(2)] assms(1) by (rule le_less_trans)
  then show ?thesis by (rule unat_mult_32)
qed

lemma lookup_in_cut:
  assumes cut: "all_cut ksyms lens pl" and f: "f < nr_jited_func pl"
    and sz: "unat (nr_linfo pl) * unat (rec_size pl) < 2 ^ 32" "unat (nr_linfo pl) * unat (jited_rec_size pl) < 2 ^ 32"
  shows "bpf_prog_linfo__lfind_addr_func pl addr f nr_skip = Some (Inl ENOENT) \<and>
      \<not> (start_of pl (unat f) + unat nr_skip < end_of pl (unat f) \<and> addr_of pl (start_of pl (unat f) + unat nr_skip) \<le> addr) \<or>
    (\<exists>k. bpf_prog_linfo__lfind_addr_func pl addr f nr_skip = Some (Inr (k * unat (rec_size pl))) \<and>
      last_of_run (addr_of pl) addr (start_of pl (unat f) + unat nr_skip) (end_of pl (unat f)) k)"
proof -
  let ?f = "unat f" and ?n = "nr_jited_linfo_per_func pl ! unat f"
  let ?s = "start_of pl ?f + unat nr_skip"
  have uf: "?f < unat (nr_jited_func pl)" using f by (simp add: word_less_nat_alt)
  have ok: "jited_ok pl" and fn: "start_of pl ?f < end_of pl ?f" "end_of pl ?f \<le> unat (nr_linfo pl)"
    using cut uf by (simp_all add: all_cut_def)
  have len: "arr_get (nr_jited_linfo_per_func pl) ?f = Some ?n" "arr_get (jited_linfo_func_idx pl) ?f = Some (jited_linfo_func_idx pl ! ?f)"
    using ok uf by (simp_all add: arr_get_def jited_ok_def)
  show ?thesis
  proof (cases "?n \<le> nr_skip")
    case True
    then show ?thesis using f len by (auto simp: bpf_prog_linfo__lfind_addr_func_def end_of_def word_le_nat_alt not_le [symmetric])
  next
    case False
    then have lt: "unat nr_skip < unat ?n" by (simp add: word_le_nat_alt)
    then have s: "?s < unat (nr_linfo pl)" "?s < end_of pl ?f" using fn by (simp_all add: end_of_def)
    let ?start = "jited_linfo_func_idx pl ! ?f + nr_skip"
    have start: "unat ?start = ?s"
      using s(1) less_nr [of ?s "nr_linfo pl"] by (simp add: start_of_def unat_add_lem [THEN iffD1])
    have le: "unat ?start \<le> unat (nr_linfo pl)" using s start by simp
    note off = unat_mult_le_32 [OF sz(1) le, unfolded start] unat_mult_le_32 [OF sz(2) le, unfolded start]
    have ld: "ld64 (raw_jited_linfo pl) (?s * unat (jited_rec_size pl)) = Some (addr_of pl ?s)"
      by (rule ld64_record [OF ok s(1)])
    have cnt: "unat (?n - nr_skip) = unat ?n - unat nr_skip" using lt by (simp add: unat_sub word_le_nat_alt)
    have hi: "?s + unat (?n - nr_skip) = end_of pl ?f" using lt by (simp add: cnt end_of_def)
    show ?thesis
    proof (cases "addr < addr_of pl ?s")
      case True
      then show ?thesis using f len False ld off by (simp add: bpf_prog_linfo__lfind_addr_func_def Let_def not_le)
    next
      case ge: False
      have "\<exists>k. last_of_run (addr_of pl) addr ?s (?s + unat (?n - nr_skip)) k \<and>
        addr_loop (raw_jited_linfo pl) addr (unat (jited_rec_size pl)) (unat (rec_size pl)) (unat (?n - nr_skip))
          (?s * unat (jited_rec_size pl)) (?s * unat (rec_size pl)) = Some ((k + 1) * unat (rec_size pl))"
        using hi fn ge lt cnt by (intro addr_loop_run ok) simp_all
      then obtain k where "last_of_run (addr_of pl) addr ?s (end_of pl ?f) k"
        "addr_loop (raw_jited_linfo pl) addr (unat (jited_rec_size pl)) (unat (rec_size pl)) (unat (?n - nr_skip))
          (?s * unat (jited_rec_size pl)) (?s * unat (rec_size pl)) = Some ((k + 1) * unat (rec_size pl))"
        unfolding hi by blast
      then show ?thesis using f len False ge ld off by (intro disjI2 exI [of _ k]) (simp add: bpf_prog_linfo__lfind_addr_func_def Let_def)
    qed
  qed
qed

text \<open>C34. After \<open>bpf_prog_linfo__new\<close> accepted the kernel's tables, the records are divided among the
  functions without gaps, the first record of a function is at its symbol, and each but the last
  function has its records in ascending order. A search for an address in a function that skips
  \<open>nr_skip\<close> records returns the last of the run of records behind the skipped ones that start at or
  before the address, never one of another function, and fails with \<open>ENOENT\<close> exactly when there is no
  such record. No record is read outside the tables, as long as these are smaller than 4 GiB.\<close>

lemma jited_lookup:
  assumes new: "bpf_prog_linfo__new al junk info = Some (Inr pl)" and f: "f < nr_jited_func pl"
    and sz: "unat (nr_line_info info) * unat (line_info_rec_size info) < 2 ^ 32"
      "unat (nr_line_info info) * unat (jited_line_info_rec_size info) < 2 ^ 32"
  shows "start_of pl 0 = 0 \<and>
    end_of pl (unat f) = (if f + 1 = nr_jited_func pl then unat (nr_line_info info) else start_of pl (unat f + 1)) \<and>
    start_of pl (unat f) < end_of pl (unat f) \<and> addr_of pl (start_of pl (unat f)) = the (jited_ksyms info) ! unat f \<and>
    (f + 1 \<noteq> nr_jited_func pl \<longrightarrow> (\<forall>k. start_of pl (unat f) \<le> k \<longrightarrow> k + 1 < end_of pl (unat f) \<longrightarrow> addr_of pl k < addr_of pl (k + 1))) \<and>
    (bpf_prog_linfo__lfind_addr_func pl addr f nr_skip = Some (Inl ENOENT) \<and>
      \<not> (start_of pl (unat f) + unat nr_skip < end_of pl (unat f) \<and> addr_of pl (start_of pl (unat f) + unat nr_skip) \<le> addr) \<or>
    (\<exists>k. bpf_prog_linfo__lfind_addr_func pl addr f nr_skip = Some (Inr (k * unat (line_info_rec_size info))) \<and>
      last_of_run (addr_of pl) addr (start_of pl (unat f) + unat nr_skip) (end_of pl (unat f)) k))"
proof -
  have "nr_jited_func pl \<noteq> 0" using f by auto
  then obtain ksyms lens where a: "all_cut ksyms lens pl" "jited_ksyms info = Some ksyms" "nr_linfo pl = nr_line_info info"
    "rec_size pl = line_info_rec_size info" "jited_rec_size pl = jited_line_info_rec_size info"
    using new_all_cut [OF new] by auto
  have uf: "unat f < unat (nr_jited_func pl)" using f by (simp add: word_less_nat_alt)
  have uf1: "unat (f + 1) = unat f + 1" using uf less_nr [of "unat f + 1" "nr_jited_func pl"] by (simp add: unat_add_lem [THEN iffD1])
  have last: "f + 1 = nr_jited_func pl \<longleftrightarrow> unat f + 1 = unat (nr_jited_func pl)"
    using uf1 by (metis word_unat_eq_iff)
  have e: "end_of pl (unat f) = (if f + 1 = nr_jited_func pl then unat (nr_line_info info) else start_of pl (unat f + 1))"
  proof (cases "f + 1 = nr_jited_func pl")
    case True
    then have "unat f = unat (nr_jited_func pl) - 1" using last by simp
    then show ?thesis using a(1,3) True by (simp add: all_cut_def)
  next
    case False
    then show ?thesis using a(1) uf last by (simp add: all_cut_def)
  qed
  have c: "start_of pl 0 = 0" "start_of pl (unat f) < end_of pl (unat f)"
      "addr_of pl (start_of pl (unat f)) = the (jited_ksyms info) ! unat f"
    using a(1,2) uf by (simp_all add: all_cut_def)
  have mono: "addr_of pl k < addr_of pl (k + 1)"
    if "f + 1 \<noteq> nr_jited_func pl" "start_of pl (unat f) \<le> k" "k + 1 < end_of pl (unat f)" for k
    using a(1) uf last that unfolding all_cut_def by (metis Suc_eq_plus1 Suc_lessI)
  show ?thesis
    using lookup_in_cut [OF a(1) f, of addr nr_skip] sz e c mono unfolding a by simp
qed

definition two_funcs :: bpf_prog_info where
  "two_funcs = \<lparr>nr_jited_ksyms = 2, nr_jited_func_lens = 2, jited_ksyms = Some [100, 200], jited_func_lens = Some [10, 20],
     nr_line_info = 3, line_info = [0,0,0,0, 1,0,0,0, 5,0,0,0],
     jited_line_info = Some [100,0,0,0,0,0,0,0, 104,0,0,0,0,0,0,0, 200,0,0,0,0,0,0,0],
     nr_jited_line_info = 3, line_info_rec_size = 4, jited_line_info_rec_size = 8\<rparr>"

definition two_funcs_linfo :: bpf_prog_linfo where
  "two_funcs_linfo = \<lparr>raw_linfo = line_info two_funcs, raw_jited_linfo = the (jited_line_info two_funcs),
     nr_jited_linfo_per_func = [2, 1], jited_linfo_func_idx = [0, 2], nr_linfo = 3, nr_jited_func = 2,
     rec_size = 4, jited_rec_size = 8\<rparr>"

lemma two_funcs_new: "bpf_prog_linfo__new (\<lambda>_. True) (\<lambda>_. 0) two_funcs = Some (Inr two_funcs_linfo)"
  by code_simp

lemma jited_lookup_witness:
  "bpf_prog_linfo__lfind_addr_func two_funcs_linfo 150 0 0 = Some (Inr 4) \<and> end_of two_funcs_linfo 0 = 2"
proof -
  have "nr_jited_func two_funcs_linfo = 2" "nr_line_info two_funcs = 3" "line_info_rec_size two_funcs = 4"
    "jited_line_info_rec_size two_funcs = 8" by (simp_all add: two_funcs_linfo_def two_funcs_def)
  then have "end_of two_funcs_linfo 0 = start_of two_funcs_linfo 1"
    using jited_lookup [OF two_funcs_new, of 0 150 0] by simp
  moreover have "start_of two_funcs_linfo 1 = 2" by code_simp
  moreover have "bpf_prog_linfo__lfind_addr_func two_funcs_linfo 150 0 0 = Some (Inr 4)" by code_simp
  ultimately show ?thesis by simp
qed

section \<open>Lookups by instruction\<close>

definition insn_off_of :: "bpf_prog_linfo \<Rightarrow> nat \<Rightarrow> u32" where
  "insn_off_of pl k = the (ld32 (raw_linfo pl) (k * unat (rec_size pl)))"

definition xlated_ok :: "bpf_prog_linfo \<Rightarrow> bool" where
  "xlated_ok pl \<longleftrightarrow> 4 \<le> unat (rec_size pl) \<and> length (raw_linfo pl) = unat (nr_linfo pl) * unat (rec_size pl)"

lemma ld32_record:
  assumes "xlated_ok pl" "k < unat (nr_linfo pl)"
  shows "ld32 (raw_linfo pl) (k * unat (rec_size pl)) = Some (insn_off_of pl k)"
proof -
  have "Suc k * unat (rec_size pl) \<le> unat (nr_linfo pl) * unat (rec_size pl)"
    using assms(2) by (intro mult_le_mono1) simp
  then have "k * unat (rec_size pl) + 4 \<le> length (raw_linfo pl)"
    using assms(1) by (simp add: xlated_ok_def)
  then show ?thesis by (simp add: insn_off_of_def ld32_def ldn_def)
qed

lemma insn_loop_run:
  assumes "xlated_ok pl" "j + n \<le> unat (nr_linfo pl)" "0 < n" "insn_off_of pl j \<le> insn_off"
  shows "\<exists>k. last_of_run (insn_off_of pl) insn_off j (j + n) k \<and>
    insn_loop (raw_linfo pl) insn_off (unat (rec_size pl)) n (j * unat (rec_size pl)) = Some ((k + 1) * unat (rec_size pl))"
  using assms(2-)
proof (induction n arbitrary: j)
  case (Suc n)
  let ?w = "unat (rec_size pl)"
  have ld: "ld32 (raw_linfo pl) (j * ?w) = Some (insn_off_of pl j)"
    using ld32_record [OF assms(1)] Suc.prems(1) by simp
  have move: "j * ?w + ?w = (j + 1) * ?w" by simp
  show ?case
  proof (cases n)
    case 0
    then show ?thesis using ld Suc.prems(3) by (intro exI [of _ j]) (auto simp: last_of_run_def)
  next
    case (Suc m)
    show ?thesis
    proof (cases "insn_off < insn_off_of pl (j + 1)")
      case True
      have "ld32 (raw_linfo pl) ((j + 1) * ?w) = Some (insn_off_of pl (j + 1))"
        using Suc.prems(1) Suc by (intro ld32_record [OF assms(1)]) simp
      then show ?thesis
        using ld Suc.prems(3) True Suc by (intro exI [of _ j]) (auto simp: last_of_run_def move simp del: mult_Suc)
    next
      case False
      have "\<exists>k. last_of_run (insn_off_of pl) insn_off (j + 1) (j + 1 + n) k \<and>
        insn_loop (raw_linfo pl) insn_off ?w n ((j + 1) * ?w) = Some ((k + 1) * ?w)"
        using Suc.prems(1) Suc False by (intro Suc.IH) simp_all
      then obtain k where k: "last_of_run (insn_off_of pl) insn_off (j + 1) (j + 1 + n) k"
        "insn_loop (raw_linfo pl) insn_off ?w n ((j + 1) * ?w) = Some ((k + 1) * ?w)" by blast
      have "insn_loop (raw_linfo pl) insn_off ?w (Suc n) (j * ?w) = Some ((k + 1) * ?w)"
        unfolding insn_loop.simps ld using Suc.prems(3) k(2) by (simp only: move bind.bind_lunit not_less [symmetric] if_False)
      then show ?thesis using last_of_run_Suc [OF Suc.prems(3) k(1)] by (intro exI [of _ k]) simp
    qed
  qed
qed simp

lemma new_xlated_ok:
  assumes new: "bpf_prog_linfo__new al junk info = Some (Inr pl)"
  shows "xlated_ok pl"
proof (cases "nr_jited_func pl = 0")
  case False
  then show ?thesis using new_all_cut [OF new] by (auto simp: all_cut_def jited_ok_def xlated_ok_def)
next
  case True
  have p0: "nr_line_info info \<noteq> 0" "\<not> line_info_rec_size info < 4" "al 0" "al 1"
    using new by (auto simp: bpf_prog_linfo__new_def split: if_splits)
  obtain raw where raw: "ldn (line_info info) 0 (unat (nr_line_info info) * unat (line_info_rec_size info)) = Some raw"
    using new p0 by (auto simp: bpf_prog_linfo__new_def bind_eq_Some_conv split: if_splits)
  have same: "nr_jited_func pl = nr_jited_func pl0" if "dissect_jited_func pl0 ksyms lens = Some (0, pl)" "jited_ok pl0" for pl0 ksyms lens
    using dissect_all_cut [OF that] by (simp add: same_records_def)
  have "pl = \<lparr>raw_linfo = raw, raw_jited_linfo = [], nr_jited_linfo_per_func = [], jited_linfo_func_idx = [],
          nr_linfo = nr_line_info info, nr_jited_func = 0, rec_size = line_info_rec_size info, jited_rec_size = 0\<rparr>"
    using new p0 raw True same length_ldn [OF raw]
    by (fastforce simp: bpf_prog_linfo__new_def Let_def bind_eq_Some_conv jited_ok_def word_le_nat_alt not_less dest: length_ldn
        split: if_splits option.splits)
  then show ?thesis using length_ldn [OF raw] p0 by (simp add: xlated_ok_def word_le_nat_alt not_less)
qed

text \<open>A search by instruction is the same over all records.\<close>

lemma lookup_insn:
  assumes ok: "xlated_ok pl" and sz: "unat (nr_linfo pl) * unat (rec_size pl) < 2 ^ 32"
  shows "bpf_prog_linfo__lfind pl insn_off nr_skip = Some (Inl ENOENT) \<and>
      \<not> (unat nr_skip < unat (nr_linfo pl) \<and> insn_off_of pl (unat nr_skip) \<le> insn_off) \<or>
    (\<exists>k. bpf_prog_linfo__lfind pl insn_off nr_skip = Some (Inr (k * unat (rec_size pl))) \<and>
      last_of_run (insn_off_of pl) insn_off (unat nr_skip) (unat (nr_linfo pl)) k)"
proof (cases "nr_skip < nr_linfo pl \<and> insn_off_of pl (unat nr_skip) \<le> insn_off")
  case False
  have "unat (nr_skip * rec_size pl) = unat nr_skip * unat (rec_size pl)" if "nr_skip < nr_linfo pl"
    using that by (intro unat_mult_le_32 [OF sz]) (simp add: word_less_nat_alt)
  then show ?thesis
    using False ld32_record [OF ok, of "unat nr_skip"]
    by (auto simp: bpf_prog_linfo__lfind_def Let_def word_less_nat_alt not_le not_less word_le_nat_alt)
next
  case True
  have lt: "unat nr_skip < unat (nr_linfo pl)" using True by (simp add: word_less_nat_alt)
  have off: "unat (nr_skip * rec_size pl) = unat nr_skip * unat (rec_size pl)" using lt by (intro unat_mult_le_32 [OF sz]) simp
  have hi: "unat nr_skip + unat (nr_linfo pl - nr_skip) = unat (nr_linfo pl)" using lt by (simp add: unat_sub word_le_nat_alt)
  have "\<exists>k. last_of_run (insn_off_of pl) insn_off (unat nr_skip) (unat nr_skip + unat (nr_linfo pl - nr_skip)) k \<and>
    insn_loop (raw_linfo pl) insn_off (unat (rec_size pl)) (unat (nr_linfo pl - nr_skip)) (unat nr_skip * unat (rec_size pl)) =
      Some ((k + 1) * unat (rec_size pl))"
    using hi lt True by (intro insn_loop_run ok) (simp_all add: unat_sub word_le_nat_alt)
  then obtain k where "last_of_run (insn_off_of pl) insn_off (unat nr_skip) (unat (nr_linfo pl)) k"
    "insn_loop (raw_linfo pl) insn_off (unat (rec_size pl)) (unat (nr_linfo pl - nr_skip)) (unat nr_skip * unat (rec_size pl)) =
      Some ((k + 1) * unat (rec_size pl))"
    unfolding hi by blast
  then show ?thesis
    using True off ld32_record [OF ok lt]
    by (intro disjI2 exI [of _ k]) (simp add: bpf_prog_linfo__lfind_def Let_def not_le [symmetric] not_less)
qed

end
