(* ===== verification/Simulation.thy ===== *)
theory Simulation
  imports Main
begin

text \<open>
  Code that answers calls, and a specification of the answers. \<open>run\<close> answers a list of calls; \<open>agrees\<close>
  says that the specification can give the same answers. Where each call that the specification allows
  is answered as it says, so is any list of calls, up to the first call that is not allowed.
\<close>

fun run :: "('c \<Rightarrow> 's \<Rightarrow> ('r \<times> 's) option) \<Rightarrow> 'c list \<Rightarrow> 's \<Rightarrow> ('r list \<times> 's) option" where
  "run code [] s = Some ([], s)"
| "run code (c # cs) s = (case code c s of None \<Rightarrow> None
     | Some (r, s) \<Rightarrow> map_option (\<lambda>(rs, s). (r # rs, s)) (run code cs s))"

inductive agrees :: "('c \<Rightarrow> 't \<Rightarrow> 'r \<Rightarrow> 't \<Rightarrow> bool) \<Rightarrow> 'c list \<Rightarrow> 't \<Rightarrow> 'r list \<Rightarrow> 't \<Rightarrow> bool"
  for spec where
  agrees_Nil: "agrees spec [] t [] t"
| agrees_Cons: "spec c t r t' \<Longrightarrow> agrees spec cs t' rs t'' \<Longrightarrow> agrees spec (c # cs) t (r # rs) t''"

definition allowed :: "('c \<Rightarrow> 't \<Rightarrow> 'r \<Rightarrow> 't \<Rightarrow> bool) \<Rightarrow> 'c \<Rightarrow> 't \<Rightarrow> bool" where
  "allowed spec c t \<longleftrightarrow> (\<exists>r t'. spec c t r t')"

lemma allowedI [intro]: "spec c t r t' \<Longrightarrow> allowed spec c t"
  by (auto simp: allowed_def)

locale simulation =
  fixes code :: "'c \<Rightarrow> 's \<Rightarrow> ('r \<times> 's) option"
    and spec :: "'c \<Rightarrow> 't \<Rightarrow> 'r \<Rightarrow> 't \<Rightarrow> bool"
    and related :: "'s \<Rightarrow> 't \<Rightarrow> bool"
  assumes answered: "related s t \<Longrightarrow> allowed spec c t \<Longrightarrow>
    \<exists>r s' t'. code c s = Some (r, s') \<and> spec c t r t' \<and> related s' t'"
begin

theorem run_agrees:
  "related s t \<Longrightarrow> \<exists>n rs s' t'. n \<le> length cs \<and> run code (take n cs) s = Some (rs, s') \<and>
    agrees spec (take n cs) t rs t' \<and> related s' t' \<and> (n < length cs \<longrightarrow> \<not> allowed spec (cs ! n) t')"
proof (induction cs arbitrary: s t)
  case Nil
  then show ?case by (auto intro: agrees_Nil)
next
  case (Cons c cs)
  show ?case
  proof (cases "allowed spec c t")
    case False
    then show ?thesis using Cons.prems by (intro exI [of _ 0]) (auto intro: agrees_Nil)
  next
    case True
    then obtain r s1 t1 where step: "code c s = Some (r, s1)" "spec c t r t1" "related s1 t1"
      using answered [OF Cons.prems] by blast
    from Cons.IH [OF step(3)] obtain n rs s' t' where
      "n \<le> length cs" "run code (take n cs) s1 = Some (rs, s')" "agrees spec (take n cs) t1 rs t'"
      "related s' t'" "n < length cs \<longrightarrow> \<not> allowed spec (cs ! n) t'" by blast
    then show ?thesis using step
      by (intro exI [of _ "Suc n"] exI [of _ "r # rs"] exI [of _ s'] exI [of _ t']) (auto intro: agrees_Cons)
  qed
qed

end

end
