(* ===== verification/Xsk_Ring.thy ===== *)
theory Xsk_Ring
  imports Errno Simulation
begin

text \<open>
  The rings that an AF_XDP socket shares with the kernel, the inline functions of \<open>xsk.h\<close>. A side has a
  private structure with its copies of both indices; the two indices proper and the entries are shared.
  An index is a 32-bit counter that wraps around, and a pointer to an entry its number in the array. The
  functions make at most one access to an index that the other side writes, which the barriers order
  with the accesses to the entries; so each function is one step of an interleaving.
\<close>

section \<open>The functions of \<open>xsk.h\<close>\<close>

record xsk_ring =
  cached_prod :: u32
  cached_cons :: u32
  ring_mask :: u32
  ring_size :: u32

record 'a xsk_shared =
  producer :: u32
  consumer :: u32
  ring :: "'a list"
  flags :: u32

definition XDP_RING_NEED_WAKEUP :: u32 where "XDP_RING_NEED_WAKEUP = push_bit 0 1"

definition xsk_ring_prod__fill_addr :: "xsk_ring \<Rightarrow> u32 \<Rightarrow> nat" where
  "xsk_ring_prod__fill_addr fill idx = unat (idx AND ring_mask fill)"

definition xsk_ring_cons__comp_addr :: "xsk_ring \<Rightarrow> u32 \<Rightarrow> nat" where
  "xsk_ring_cons__comp_addr cr idx = unat (idx AND ring_mask cr)"

definition xsk_ring_prod__tx_desc :: "xsk_ring \<Rightarrow> u32 \<Rightarrow> nat" where
  "xsk_ring_prod__tx_desc tx idx = unat (idx AND ring_mask tx)"

definition xsk_ring_cons__rx_desc :: "xsk_ring \<Rightarrow> u32 \<Rightarrow> nat" where
  "xsk_ring_cons__rx_desc rx idx = unat (idx AND ring_mask rx)"

definition xsk_ring_prod__needs_wakeup :: "'a xsk_shared \<Rightarrow> u32" where
  "xsk_ring_prod__needs_wakeup sh = flags sh AND XDP_RING_NEED_WAKEUP"

definition xsk_prod_nb_free :: "xsk_ring \<Rightarrow> 'a xsk_shared \<Rightarrow> u32 \<Rightarrow> u32 \<times> xsk_ring" where
  "xsk_prod_nb_free r sh nb =
     (let free_entries = cached_cons r - cached_prod r
      in if free_entries \<ge> nb then (free_entries, r)
         else let r = r\<lparr>cached_cons := consumer sh\<rparr>;
                  r = r\<lparr>cached_cons := cached_cons r + ring_size r\<rparr>
              in (cached_cons r - cached_prod r, r))"

definition xsk_cons_nb_avail :: "xsk_ring \<Rightarrow> 'a xsk_shared \<Rightarrow> u32 \<Rightarrow> u32 \<times> xsk_ring" where
  "xsk_cons_nb_avail r sh nb =
     (let entries = cached_prod r - cached_cons r;
          (entries, r) = (if entries = 0
            then let r = r\<lparr>cached_prod := producer sh\<rparr> in (cached_prod r - cached_cons r, r)
            else (entries, r))
      in (if entries > nb then nb else entries, r))"

text \<open>The number of entries, and the index when it is set.\<close>

definition xsk_ring_prod__reserve :: "xsk_ring \<Rightarrow> 'a xsk_shared \<Rightarrow> u32 \<Rightarrow> (u32 \<times> u32 option) \<times> xsk_ring" where
  "xsk_ring_prod__reserve r sh nb =
     (let (free, r) = xsk_prod_nb_free r sh nb
      in if free < nb then ((0, None), r)
         else ((nb, Some (cached_prod r)), r\<lparr>cached_prod := cached_prod r + nb\<rparr>))"

definition xsk_ring_prod__submit :: "'a xsk_shared \<Rightarrow> u32 \<Rightarrow> 'a xsk_shared" where
  "xsk_ring_prod__submit sh nb = sh\<lparr>producer := producer sh + nb\<rparr>"

definition xsk_ring_cons__peek :: "xsk_ring \<Rightarrow> 'a xsk_shared \<Rightarrow> u32 \<Rightarrow> (u32 \<times> u32 option) \<times> xsk_ring" where
  "xsk_ring_cons__peek r sh nb =
     (let (entries, r) = xsk_cons_nb_avail r sh nb
      in if entries > 0 then ((entries, Some (cached_cons r)), r\<lparr>cached_cons := cached_cons r + entries\<rparr>)
         else ((entries, None), r))"

definition xsk_ring_cons__cancel :: "xsk_ring \<Rightarrow> u32 \<Rightarrow> xsk_ring" where
  "xsk_ring_cons__cancel r nb = r\<lparr>cached_cons := cached_cons r - nb\<rparr>"

definition xsk_ring_cons__release :: "'a xsk_shared \<Rightarrow> u32 \<Rightarrow> 'a xsk_shared" where
  "xsk_ring_cons__release sh nb = sh\<lparr>consumer := consumer sh + nb\<rparr>"

text \<open>
  How \<open>xsk.c\<close> fills in the four structures. Those of the fill and the completion ring keep what the caller
  had in the members that are not set.
\<close>

definition tx_ring_setup :: "u32 \<Rightarrow> 'a xsk_shared \<Rightarrow> xsk_ring" where
  "tx_ring_setup tx_size sh = \<lparr>cached_prod = producer sh, cached_cons = consumer sh + tx_size,
     ring_mask = tx_size - 1, ring_size = tx_size\<rparr>"

definition rx_ring_setup :: "u32 \<Rightarrow> 'a xsk_shared \<Rightarrow> xsk_ring" where
  "rx_ring_setup rx_size sh = \<lparr>cached_prod = producer sh, cached_cons = consumer sh,
     ring_mask = rx_size - 1, ring_size = rx_size\<rparr>"

definition fill_ring_setup :: "u32 \<Rightarrow> xsk_ring \<Rightarrow> xsk_ring" where
  "fill_ring_setup fill_size fill = fill\<lparr>ring_mask := fill_size - 1, ring_size := fill_size, cached_cons := fill_size\<rparr>"

definition comp_ring_setup :: "u32 \<Rightarrow> xsk_ring \<Rightarrow> xsk_ring" where
  "comp_ring_setup comp_size cr = cr\<lparr>ring_mask := comp_size - 1, ring_size := comp_size\<rparr>"

text \<open>Addresses in the memory of the packets, with an offset in the upper 16 bits.\<close>

definition XSK_UNALIGNED_BUF_OFFSET_SHIFT :: nat where "XSK_UNALIGNED_BUF_OFFSET_SHIFT = 48"

definition XSK_UNALIGNED_BUF_ADDR_MASK :: u64 where
  "XSK_UNALIGNED_BUF_ADDR_MASK = push_bit XSK_UNALIGNED_BUF_OFFSET_SHIFT 1 - 1"

definition xsk_umem__extract_addr :: "u64 \<Rightarrow> u64" where
  "xsk_umem__extract_addr addr = addr AND XSK_UNALIGNED_BUF_ADDR_MASK"

definition xsk_umem__extract_offset :: "u64 \<Rightarrow> u64" where
  "xsk_umem__extract_offset addr = drop_bit XSK_UNALIGNED_BUF_OFFSET_SHIFT addr"

definition xsk_umem__add_offset_to_addr :: "u64 \<Rightarrow> u64" where
  "xsk_umem__add_offset_to_addr addr = xsk_umem__extract_addr addr + xsk_umem__extract_offset addr"

section \<open>Both ends of a ring\<close>

text \<open>
  The producer and the consumer of one ring, with the calls that each makes. \<open>Fill\<close> writes the entry
  with an index and \<open>Fetch\<close> reads it, through the accessors. One end belongs to the kernel, whose code is
  not part of the library; it is taken to keep its indices the way the library does.
\<close>

record 'a xsk_pair =
  prod_side :: xsk_ring
  cons_side :: xsk_ring
  shared :: "'a xsk_shared"

datatype 'a ring_call = Reserve u32 | Fill u32 'a | Submit u32 | Peek u32 | Fetch u32 | Cancel u32 | Release u32

datatype 'a ring_answer = Entries u32 "u32 option" | Entry 'a | Done

fun ring_step :: "'a ring_call \<Rightarrow> 'a xsk_pair \<Rightarrow> ('a ring_answer \<times> 'a xsk_pair) option" where
  "ring_step (Reserve nb) p =
     (let ((n, idx), r) = xsk_ring_prod__reserve (prod_side p) (shared p) nb in Some (Entries n idx, p\<lparr>prod_side := r\<rparr>))"
| "ring_step (Fill idx v) p = do {
     es \<leftarrow> arr_set (ring (shared p)) (xsk_ring_prod__tx_desc (prod_side p) idx) v;
     Some (Done, p\<lparr>shared := (shared p)\<lparr>ring := es\<rparr>\<rparr>)
   }"
| "ring_step (Submit nb) p = Some (Done, p\<lparr>shared := xsk_ring_prod__submit (shared p) nb\<rparr>)"
| "ring_step (Peek nb) p =
     (let ((n, idx), r) = xsk_ring_cons__peek (cons_side p) (shared p) nb in Some (Entries n idx, p\<lparr>cons_side := r\<rparr>))"
| "ring_step (Fetch idx) p = do {
     v \<leftarrow> arr_get (ring (shared p)) (xsk_ring_cons__rx_desc (cons_side p) idx);
     Some (Entry v, p)
   }"
| "ring_step (Cancel nb) p = Some (Done, p\<lparr>cons_side := xsk_ring_cons__cancel (cons_side p) nb\<rparr>)"
| "ring_step (Release nb) p = Some (Done, p\<lparr>shared := xsk_ring_cons__release (shared p) nb\<rparr>)"

section \<open>What a ring promises\<close>

text \<open>
  A bounded queue that hands out its entries in two phases on either side. \<open>entries\<close> are all entries
  ever reserved, in order; the first \<open>sent\<close> of them are submitted, the first \<open>taken\<close> peeked and the
  first \<open>freed\<close> released. A step is allowed only to a client who submits what was reserved, reads what
  was peeked, and cancels or releases what was peeked and not released.
\<close>

record 'a ring_queue =
  entries :: "'a list"
  sent :: nat
  taken :: nat
  freed :: nat

inductive queue_step :: "nat \<Rightarrow> 'a ring_call \<Rightarrow> 'a ring_queue \<Rightarrow> 'a ring_answer \<Rightarrow> 'a ring_queue \<Rightarrow> bool"
  for N where
  reserve: "length (entries q) + unat nb \<le> N + freed q \<Longrightarrow> length old = unat nb \<Longrightarrow>
    queue_step N (Reserve nb) q (Entries nb (Some (of_nat (length (entries q))))) (q\<lparr>entries := entries q @ old\<rparr>)"
| no_space: "N + freed q < length (entries q) + unat nb \<Longrightarrow> queue_step N (Reserve nb) q (Entries 0 None) q"
| fill: "sent q \<le> i \<Longrightarrow> i < length (entries q) \<Longrightarrow>
    queue_step N (Fill (of_nat i) v) q Done (q\<lparr>entries := (entries q)[i := v]\<rparr>)"
| submit: "sent q + unat nb \<le> length (entries q) \<Longrightarrow> queue_step N (Submit nb) q Done (q\<lparr>sent := sent q + unat nb\<rparr>)"
| peek: "0 < k \<Longrightarrow> k \<le> unat nb \<Longrightarrow> taken q + k \<le> sent q \<Longrightarrow>
    queue_step N (Peek nb) q (Entries (of_nat k) (Some (of_nat (taken q)))) (q\<lparr>taken := taken q + k\<rparr>)"
| nothing: "nb = 0 \<or> taken q = sent q \<Longrightarrow> queue_step N (Peek nb) q (Entries 0 None) q"
| fetch: "freed q \<le> i \<Longrightarrow> i < taken q \<Longrightarrow> queue_step N (Fetch (of_nat i)) q (Entry (entries q ! i)) q"
| cancel: "freed q + unat nb \<le> taken q \<Longrightarrow> queue_step N (Cancel nb) q Done (q\<lparr>taken := taken q - unat nb\<rparr>)"
| release: "freed q + unat nb \<le> taken q \<Longrightarrow> queue_step N (Release nb) q Done (q\<lparr>freed := freed q + unat nb\<rparr>)"

definition ring_related :: "nat \<Rightarrow> 'a xsk_pair \<Rightarrow> 'a ring_queue \<Rightarrow> bool" where
  "ring_related k p q \<longleftrightarrow> k < 32 \<and>
     ring_size (prod_side p) = 2 ^ k \<and> ring_mask (prod_side p) = mask k \<and> ring_mask (cons_side p) = mask k \<and>
     length (ring (shared p)) = 2 ^ k \<and>
     freed q \<le> taken q \<and> taken q \<le> sent q \<and> sent q \<le> length (entries q) \<and> length (entries q) \<le> freed q + 2 ^ k \<and>
     cached_prod (prod_side p) = of_nat (length (entries q)) \<and> producer (shared p) = of_nat (sent q) \<and>
     cached_cons (cons_side p) = of_nat (taken q) \<and> consumer (shared p) = of_nat (freed q) \<and>
     (\<exists>c \<le> freed q. cached_cons (prod_side p) = of_nat (c + 2 ^ k) \<and> length (entries q) \<le> c + 2 ^ k) \<and>
     (\<exists>s \<le> sent q. cached_prod (cons_side p) = of_nat s \<and> taken q \<le> s) \<and>
     (\<forall>i. freed q \<le> i \<longrightarrow> i < length (entries q) \<longrightarrow> ring (shared p) ! (i mod 2 ^ k) = entries q ! i)"

lemma ring_slot: "k < 32 \<Longrightarrow> unat (of_nat i AND mask k :: u32) = i mod 2 ^ k"
proof -
  assume "k < 32"
  then have "(2 :: nat) ^ k dvd 2 ^ 32" by (intro le_imp_power_dvd) simp
  then show ?thesis
    unfolding take_bit_eq_mask [symmetric] unsigned_take_bit_eq unat_of_nat
    by (simp only: take_bit_eq_mod word_size len_bit0 len_num1 mod_mod_cancel) (simp add: mod_mod_cancel)
qed

lemma unat_diff_of_nat: "a \<le> b \<Longrightarrow> b - a < 2 ^ 32 \<Longrightarrow> unat (of_nat b - of_nat a :: u32) = b - a"
  by (simp add: unat_of_nat flip: of_nat_diff)

lemma slots_differ: "i < j \<Longrightarrow> j < i + N \<Longrightarrow> j mod N \<noteq> i mod (N :: nat)"
proof
  assume "i < j" "j < i + N" "j mod N = i mod N"
  then have "N dvd j - i" by (simp add: mod_eq_dvd_iff_nat)
  then show False using \<open>i < j\<close> \<open>j < i + N\<close> by (auto dest: dvd_imp_le)
qed

section \<open>The code keeps the promise\<close>

lemma pow_less_32: "k < 32 \<Longrightarrow> (2 :: nat) ^ k < 2 ^ 32"
  by (rule power_strict_increasing) simp_all

text \<open>The number of free entries is exact whenever it is too small.\<close>

lemma free_entries:
  assumes rel: "ring_related k p q" and free: "xsk_prod_nb_free (prod_side p) (shared p) nb = (n, r)"
  shows "(nb \<le> n \<longleftrightarrow> length (entries q) + unat nb \<le> 2 ^ k + freed q) \<and>
    (\<exists>c \<le> freed q. r = (prod_side p)\<lparr>cached_cons := of_nat (c + 2 ^ k)\<rparr> \<and> length (entries q) \<le> c + 2 ^ k \<and> unat n = c + 2 ^ k - length (entries q))"
proof -
  let ?L = "length (entries q)"
  note R = rel [unfolded ring_related_def]
  have k: "(2 :: nat) ^ k < 2 ^ 32" using R pow_less_32 by blast
  obtain c where c: "c \<le> freed q" "cached_cons (prod_side p) = of_nat (c + 2 ^ k)" "?L \<le> c + 2 ^ k" using R by blast
  have L: "freed q \<le> ?L" "?L \<le> freed q + 2 ^ k" "cached_prod (prod_side p) = of_nat ?L" "consumer (shared p) = of_nat (freed q)"
    "ring_size (prod_side p) = of_nat (2 ^ k)" using R by auto
  have u: "unat (of_nat (d + 2 ^ k) - of_nat ?L :: u32) = d + 2 ^ k - ?L" if "d \<le> freed q" "?L \<le> d + 2 ^ k" for d
    using that L(1) k by (intro unat_diff_of_nat) auto
  show ?thesis
  proof (cases "nb \<le> of_nat (c + 2 ^ k) - of_nat ?L")
    case True
    then have "n = of_nat (c + 2 ^ k) - of_nat ?L" "r = prod_side p"
      using free c(2) L(3) by (simp_all add: xsk_prod_nb_free_def)
    moreover from this have "unat nb \<le> c + 2 ^ k - ?L" using True u [OF c(1,3)] by (simp add: word_le_nat_alt)
    ultimately show ?thesis using True u [OF c(1,3)] c by (auto intro!: exI [of _ c] simp del: of_nat_add)
  next
    case False
    then have n: "n = of_nat (freed q + 2 ^ k) - of_nat ?L" "r = (prod_side p)\<lparr>cached_cons := of_nat (freed q + 2 ^ k)\<rparr>"
      using free c(2) L by (simp_all add: xsk_prod_nb_free_def Let_def)
    have un: "unat n = freed q + 2 ^ k - ?L" unfolding n(1) by (rule u [OF order_refl L(2)])
    then have "nb \<le> n \<longleftrightarrow> ?L + unat nb \<le> 2 ^ k + freed q" unfolding word_le_nat_alt using L(2) by auto
    then show ?thesis using un n(2) L(2) by blast
  qed
qed

lemma entries_available:
  assumes rel: "ring_related k p q" and avail: "xsk_cons_nb_avail (cons_side p) (shared p) nb = (n, r)"
  shows "n \<le> nb \<and> taken q + unat n \<le> sent q \<and> (n = 0 \<longrightarrow> nb = 0 \<or> taken q = sent q) \<and>
    (\<exists>s \<le> sent q. r = (cons_side p)\<lparr>cached_prod := of_nat s\<rparr> \<and> taken q + unat n \<le> s)"
proof -
  note R = rel [unfolded ring_related_def]
  have k: "(2 :: nat) ^ k < 2 ^ 32" using R pow_less_32 by blast
  obtain s where s: "s \<le> sent q" "cached_prod (cons_side p) = of_nat s" "taken q \<le> s" using R by blast
  have C: "cached_cons (cons_side p) = of_nat (taken q)" "producer (shared p) = of_nat (sent q)" "taken q \<le> sent q"
    using R by auto
  have u: "unat (of_nat d - of_nat (taken q) :: u32) = d - taken q" if "taken q \<le> d" "d \<le> sent q" for d
    using that R k by (intro unat_diff_of_nat) auto
  have out: ?thesis if "n = min nb (of_nat d - of_nat (taken q))" "r = (cons_side p)\<lparr>cached_prod := of_nat d\<rparr>" "taken q \<le> d" "d \<le> sent q"
    "d = taken q \<longrightarrow> taken q = sent q" for d
  proof -
    have "unat n = min (unat nb) (d - taken q)"
      unfolding that(1) min_def word_le_nat_alt u [OF that(3,4)] by (simp add: u [OF that(3,4)])
    moreover have "n = 0 \<longleftrightarrow> unat n = 0" "nb = 0 \<longleftrightarrow> unat nb = 0" by (simp_all add: unat_eq_zero)
    ultimately show ?thesis using that by (auto simp: word_le_nat_alt intro!: exI [of _ d])
  qed
  have m: "(if a > nb then nb else a) = min nb a" for a by (auto simp: min_def)
  show ?thesis
  proof (cases "of_nat s - of_nat (taken q) = (0 :: u32)")
    case True
    then have "n = min nb (of_nat (sent q) - of_nat (taken q))" "r = (cons_side p)\<lparr>cached_prod := of_nat (sent q)\<rparr>"
      using avail s(2) C by (simp_all add: xsk_cons_nb_avail_def Let_def m)
    then show ?thesis using C(3) by (intro out [of "sent q"]) auto
  next
    case False
    then have "n = min nb (of_nat s - of_nat (taken q))" "r = (cons_side p)\<lparr>cached_prod := of_nat s\<rparr>"
      using avail s(2) C by (simp_all add: xsk_cons_nb_avail_def Let_def m)
    moreover have "s \<noteq> taken q" using False by auto
    ultimately show ?thesis using s by (intro out [of s]) auto
  qed
qed

lemma ring_step_reserve:
  assumes rel: "ring_related k p q"
  shows "\<exists>r p' q'. ring_step (Reserve nb) p = Some (r, p') \<and> queue_step (2 ^ k) (Reserve nb) q r q' \<and> ring_related k p' q'"
proof -
  let ?L = "length (entries q)"
  note R = rel [unfolded ring_related_def]
  obtain n r where free: "xsk_prod_nb_free (prod_side p) (shared p) nb = (n, r)" by (cases "xsk_prod_nb_free (prod_side p) (shared p) nb")
  from free_entries [OF rel free] obtain c where
    enough: "nb \<le> n \<longleftrightarrow> ?L + unat nb \<le> 2 ^ k + freed q" and
    c: "c \<le> freed q" "r = (prod_side p)\<lparr>cached_cons := of_nat (c + 2 ^ k)\<rparr>" "?L \<le> c + 2 ^ k" "unat n = c + 2 ^ k - ?L" by blast
  show ?thesis
  proof (cases "nb \<le> n")
    case False
    then have "ring_step (Reserve nb) p = Some (Entries 0 None, p\<lparr>prod_side := r\<rparr>)"
      by (simp add: xsk_ring_prod__reserve_def free not_le)
    moreover have "queue_step (2 ^ k) (Reserve nb) q (Entries 0 None) q" using False enough by (intro queue_step.no_space) simp
    moreover have "ring_related k (p\<lparr>prod_side := r\<rparr>) q" using R c by (auto simp: ring_related_def simp del: of_nat_add)
    ultimately show ?thesis by blast
  next
    case True
    let ?old = "map (\<lambda>i. ring (shared p) ! (i mod 2 ^ k)) [?L ..< ?L + unat nb]"
    let ?r = "r\<lparr>cached_prod := cached_prod r + nb\<rparr>"
    have step: "ring_step (Reserve nb) p = Some (Entries nb (Some (of_nat ?L)), p\<lparr>prod_side := ?r\<rparr>)"
      using True R c(2) by (simp add: xsk_ring_prod__reserve_def free not_less [symmetric])
    have "?L + unat nb \<le> c + 2 ^ k" using True c(3,4) by (simp add: word_le_nat_alt)
    moreover have "cached_prod ?r = of_nat (length (entries q @ ?old))" using R c(2) by simp
    ultimately have "ring_related k (p\<lparr>prod_side := ?r\<rparr>) (q\<lparr>entries := entries q @ ?old\<rparr>)"
      using R c True enough by (auto simp: ring_related_def nth_append simp del: of_nat_add)
    moreover have "queue_step (2 ^ k) (Reserve nb) q (Entries nb (Some (of_nat ?L))) (q\<lparr>entries := entries q @ ?old\<rparr>)"
      using True enough by (intro queue_step.reserve) simp_all
    ultimately show ?thesis using step by blast
  qed
qed

lemma ring_step_peek:
  assumes rel: "ring_related k p q"
  shows "\<exists>r p' q'. ring_step (Peek nb) p = Some (r, p') \<and> queue_step (2 ^ k) (Peek nb) q r q' \<and> ring_related k p' q'"
proof -
  note R = rel [unfolded ring_related_def]
  obtain n r where avail: "xsk_cons_nb_avail (cons_side p) (shared p) nb = (n, r)" by (cases "xsk_cons_nb_avail (cons_side p) (shared p) nb")
  from entries_available [OF rel avail] obtain s where n: "n \<le> nb" "taken q + unat n \<le> sent q" "n = 0 \<longrightarrow> nb = 0 \<or> taken q = sent q"
    and s: "s \<le> sent q" "r = (cons_side p)\<lparr>cached_prod := of_nat s\<rparr>" "taken q + unat n \<le> s" by blast
  show ?thesis
  proof (cases "n = 0")
    case True
    then have "ring_step (Peek nb) p = Some (Entries 0 None, p\<lparr>cons_side := r\<rparr>)"
      by (simp add: xsk_ring_cons__peek_def avail)
    moreover have "queue_step (2 ^ k) (Peek nb) q (Entries 0 None) q" using True n(3) by (blast intro: queue_step.nothing)
    moreover have "ring_related k (p\<lparr>cons_side := r\<rparr>) q" using R s by (auto simp: ring_related_def)
    ultimately show ?thesis by blast
  next
    case False
    let ?r = "r\<lparr>cached_cons := cached_cons r + n\<rparr>"
    have "ring_step (Peek nb) p = Some (Entries n (Some (of_nat (taken q))), p\<lparr>cons_side := ?r\<rparr>)"
      using False R s(2) by (simp add: xsk_ring_cons__peek_def avail word_gt_0)
    moreover have "queue_step (2 ^ k) (Peek nb) q (Entries (of_nat (unat n)) (Some (of_nat (taken q)))) (q\<lparr>taken := taken q + unat n\<rparr>)"
      using False n by (intro queue_step.peek) (simp_all add: word_le_nat_alt unat_gt_0)
    moreover have "ring_related k (p\<lparr>cons_side := ?r\<rparr>) (q\<lparr>taken := taken q + unat n\<rparr>)"
      using R s n by (auto simp: ring_related_def)
    ultimately show ?thesis by auto
  qed
qed

lemma ring_step_fill:
  assumes rel: "ring_related k p q" and i: "sent q \<le> i" "i < length (entries q)"
  shows "\<exists>p'. ring_step (Fill (of_nat i) v) p = Some (Done, p') \<and> ring_related k p' (q\<lparr>entries := (entries q)[i := v]\<rparr>)"
proof -
  note R = rel [unfolded ring_related_def]
  let ?es = "(ring (shared p))[i mod 2 ^ k := v]"
  have at: "xsk_ring_prod__tx_desc (prod_side p) (of_nat i) = i mod 2 ^ k"
    using R ring_slot [of k i] by (simp add: xsk_ring_prod__tx_desc_def)
  have "?es ! (j mod 2 ^ k) = (entries q)[i := v] ! j" if "freed q \<le> j" "j < length (entries q)" for j
  proof (cases "j = i")
    case True
    then show ?thesis using R i by simp
  next
    case False
    have "i < j + 2 ^ k" "j < i + 2 ^ k" using R i that by linarith+
    then have "j mod 2 ^ k \<noteq> i mod 2 ^ k"
      using slots_differ [of i j "2 ^ k"] slots_differ [of j i "2 ^ k"] False by (metis nat_neq_iff)
    then show ?thesis using R False that by simp
  qed
  then have "ring_related k (p\<lparr>shared := (shared p)\<lparr>ring := ?es\<rparr>\<rparr>) (q\<lparr>entries := (entries q)[i := v]\<rparr>)"
    using R by (simp add: ring_related_def)
  moreover have "ring_step (Fill (of_nat i) v) p = Some (Done, p\<lparr>shared := (shared p)\<lparr>ring := ?es\<rparr>\<rparr>)"
    using R by (simp add: at)
  ultimately show ?thesis by blast
qed

lemma ring_step_fetch:
  assumes rel: "ring_related k p q" and i: "freed q \<le> i" "i < taken q"
  shows "ring_step (Fetch (of_nat i)) p = Some (Entry (entries q ! i), p)"
proof -
  note R = rel [unfolded ring_related_def]
  have "xsk_ring_cons__rx_desc (cons_side p) (of_nat i) = i mod 2 ^ k"
    using R ring_slot [of k i] by (simp add: xsk_ring_cons__rx_desc_def)
  moreover have "ring (shared p) ! (i mod 2 ^ k) = entries q ! i" using R i by simp
  ultimately show ?thesis using R by simp
qed

lemma ring_step_counters:
  assumes rel: "ring_related k p q"
  shows "sent q + unat nb \<le> length (entries q) \<Longrightarrow>
      ring_related k (p\<lparr>shared := xsk_ring_prod__submit (shared p) nb\<rparr>) (q\<lparr>sent := sent q + unat nb\<rparr>)" (is "_ \<Longrightarrow> ?S")
    and "freed q + unat nb \<le> taken q \<Longrightarrow>
      ring_related k (p\<lparr>cons_side := xsk_ring_cons__cancel (cons_side p) nb\<rparr>) (q\<lparr>taken := taken q - unat nb\<rparr>)" (is "_ \<Longrightarrow> ?C")
    and "freed q + unat nb \<le> taken q \<Longrightarrow>
      ring_related k (p\<lparr>shared := xsk_ring_cons__release (shared p) nb\<rparr>) (q\<lparr>freed := freed q + unat nb\<rparr>)" (is "_ \<Longrightarrow> ?F")
proof -
  note R = rel [unfolded ring_related_def]
  {
    assume "sent q + unat nb \<le> length (entries q)"
    then show ?S using R by (auto simp: ring_related_def xsk_ring_prod__submit_def intro: order_trans [OF _ le_add1])
  next
    assume le: "freed q + unat nb \<le> taken q"
    then show ?C using R by (auto simp: ring_related_def xsk_ring_cons__cancel_def intro: order_trans [OF diff_le_self])
    show ?F using R le by (auto simp: ring_related_def xsk_ring_cons__release_def intro: order_trans [OF _ le_add1])
  }
qed

lemma ring_step_answered:
  assumes rel: "ring_related k p q" and "queue_step (2 ^ k) c q r0 q0"
  shows "\<exists>r p' q'. ring_step c p = Some (r, p') \<and> queue_step (2 ^ k) c q r q' \<and> ring_related k p' q'"
  using assms(2)
proof cases
  case (fill i v)
  then show ?thesis using ring_step_fill [OF rel fill(4,5), of v] queue_step.fill [OF fill(4,5)] by blast
next
  case (fetch i)
  then show ?thesis using ring_step_fetch [OF rel fetch(4,5)] queue_step.fetch [OF fetch(4,5)] rel by blast
qed (use rel ring_step_reserve ring_step_peek ring_step_counters in \<open>fastforce intro: queue_step.intros\<close>)+

interpretation xsk: simulation ring_step "queue_step (2 ^ k)" "ring_related k" for k
  by unfold_locales (unfold allowed_def, elim exE, rule ring_step_answered)

text \<open>
  A ring as it is set up, by either end: nothing is in it, and both indices are the same number. The
  indices of the library's own sockets are zero, as is all of the mapped memory.
\<close>

definition ring_pair :: "u32 \<Rightarrow> 'a xsk_shared \<Rightarrow> 'a xsk_pair" where
  "ring_pair n sh = \<lparr>prod_side = tx_ring_setup n sh, cons_side = rx_ring_setup n sh, shared = sh\<rparr>"

definition empty_queue :: "nat \<Rightarrow> 'a ring_queue" where
  "empty_queue n = \<lparr>entries = replicate n undefined, sent = n, taken = n, freed = n\<rparr>"

lemma ring_pair_related:
  assumes "k < 32" "length (ring sh) = 2 ^ k" "producer sh = consumer sh"
  shows "ring_related k (ring_pair (2 ^ k) sh) (empty_queue (unat (consumer sh)))"
proof -
  have "(2 ^ k - 1 :: u32) = mask k" by (simp add: mask_eq_exp_minus_1)
  then show ?thesis
    using assms by (auto simp: ring_related_def ring_pair_def empty_queue_def tx_ring_setup_def rx_ring_setup_def)
qed

text \<open>
  C35. The two ends of a ring of \<open>2 ^ k\<close> entries work as a bounded queue for as long as each client keeps
  its part. Whatever the calls of producer and consumer are and however they interleave, none accesses
  the ring outside its entries; a reservation succeeds exactly when there is room for it; a peek finds
  nothing only when nothing is there; and what is read is what was written, in the order it was
  submitted, although the indices wrap around at 32 bits.
\<close>

theorem ring_runs_as_queue:
  assumes "k < 32" "length (ring sh) = 2 ^ k" "producer sh = consumer sh"
  shows "\<exists>n rs p q. n \<le> length cs \<and> run ring_step (take n cs) (ring_pair (2 ^ k) sh) = Some (rs, p) \<and>
    agrees (queue_step (2 ^ k)) (take n cs) (empty_queue (unat (consumer sh))) rs q \<and>
    freed q \<le> taken q \<and> taken q \<le> sent q \<and> sent q \<le> length (entries q) \<and> length (entries q) \<le> freed q + 2 ^ k \<and>
    (n < length cs \<longrightarrow> \<not> allowed (queue_step (2 ^ k)) (cs ! n) q)"
  using xsk.run_agrees [OF ring_pair_related [OF assms], of cs] unfolding ring_related_def by blast

text \<open>
  Two entries pass through a ring of two, from an index that is about to wrap around; the third does not
  fit.
\<close>

definition wrapping :: "nat xsk_shared" where
  "wrapping = \<lparr>producer = - 1, consumer = - 1, ring = [0, 0], flags = 0\<rparr>"

definition two_calls :: "nat ring_call list" where
  "two_calls = [Reserve 2, Fill (- 1) 7, Fill 0 8, Submit 2, Reserve 1, Peek 5, Fetch (- 1), Fetch 0, Release 1]"

lemma two_calls_run:
  "map_option fst (run ring_step two_calls (ring_pair 2 wrapping)) =
    Some [Entries 2 (Some (- 1)), Done, Done, Done, Entries 0 None, Entries 2 (Some (- 1)), Entry 7, Entry 8, Done]"
  by code_simp

theorem ring_runs_as_queue_witness:
  "\<exists>n rs p q. n \<le> 9 \<and> run ring_step (take n two_calls) (ring_pair 2 wrapping) = Some (rs, p) \<and>
    agrees (queue_step 2) (take n two_calls) (empty_queue (unat (- 1 :: u32))) rs q \<and> length (entries q) \<le> freed q + 2"
proof -
  have "length two_calls = 9" "length (ring wrapping) = 2 ^ 1" "producer wrapping = consumer wrapping" "consumer wrapping = - 1"
    by (simp_all add: two_calls_def wrapping_def)
  with ring_runs_as_queue [of 1 wrapping two_calls] obtain n rs p q where "n \<le> 9"
    "run ring_step (take n two_calls) (ring_pair 2 wrapping) = Some (rs, p)"
    "agrees (queue_step 2) (take n two_calls) (empty_queue (unat (- 1 :: u32))) rs q" "length (entries q) \<le> freed q + 2"
    unfolding power_one_right by auto
  then show ?thesis by blast
qed

text \<open>What was submitted stays as it is, and the counters of the queue only grow, but for canceled peeks.\<close>

lemma agrees_submitted:
  "agrees (queue_step N) cs q rs q' \<Longrightarrow> sent q \<le> length (entries q) \<Longrightarrow>
    take (sent q) (entries q') = take (sent q) (entries q) \<and> sent q \<le> sent q' \<and> sent q' \<le> length (entries q') \<and> freed q \<le> freed q'"
proof (induction rule: agrees.induct)
  case (agrees_Cons c q r q1 cs rs q2)
  have "take (sent q) (entries q1) = take (sent q) (entries q) \<and> sent q \<le> sent q1 \<and> sent q1 \<le> length (entries q1) \<and> freed q \<le> freed q1"
    using agrees_Cons(1,4) by cases auto
  then show ?case using agrees_Cons.IH by (metis le_trans min.absorb1 take_take)
qed simp

section \<open>The fill ring of a structure that was not cleared\<close>

lemma fill_ring_cleared:
  "fill_ring_setup n \<lparr>cached_prod = 0, cached_cons = x, ring_mask = y, ring_size = z\<rparr> =
    tx_ring_setup n \<lparr>producer = 0, consumer = 0, ring = es, flags = f\<rparr>"
  by (simp add: fill_ring_setup_def tx_ring_setup_def)

lemma comp_ring_cleared:
  "comp_ring_setup n \<lparr>cached_prod = 0, cached_cons = 0, ring_mask = y, ring_size = z\<rparr> =
    rx_ring_setup n \<lparr>producer = 0, consumer = 0, ring = es, flags = f\<rparr>"
  by (simp add: comp_ring_setup_def rx_ring_setup_def)

text \<open>With another value in \<open>cached_prod\<close> the kernel is given an entry that was never written.\<close>

lemma fill_ring_stale:
  "map_option fst (run ring_step [Reserve 1, Fill 1 (7 :: nat), Submit 1, Peek 1, Fetch 0]
    ((ring_pair 2 \<lparr>producer = 0, consumer = 0, ring = [0, 0], flags = 0\<rparr>)
      \<lparr>prod_side := fill_ring_setup 2 \<lparr>cached_prod = 1, cached_cons = 0, ring_mask = 0, ring_size = 0\<rparr>\<rparr>)) =
    Some [Entries 1 (Some 1), Done, Done, Entries 1 (Some 0), Entry 0]"
  by code_simp

section \<open>Addresses with an offset\<close>

lemma addr_mask: "XSK_UNALIGNED_BUF_ADDR_MASK = mask 48"
  by (simp add: XSK_UNALIGNED_BUF_ADDR_MASK_def XSK_UNALIGNED_BUF_OFFSET_SHIFT_def mask_eq_exp_minus_1 push_bit_eq_mult)

lemma addr_with_offset:
  assumes "a < 2 ^ 48" "off < 2 ^ 16"
  shows "xsk_umem__extract_addr (a OR push_bit 48 off) = a \<and> xsk_umem__extract_offset (a OR push_bit 48 off) = off \<and>
    xsk_umem__add_offset_to_addr (a OR push_bit 48 off) = a + off"
proof -
  have a: "a AND mask 48 = a" using assms(1) by (rule less_mask_eq)
  then have hi: "drop_bit 48 a = 0" by (simp add: take_bit_eq_mask flip: take_bit_eq_self_iff_drop_bit_eq_0)
  have off: "take_bit 16 off = off" using assms(2) by (simp add: take_bit_eq_mask less_mask_eq)
  have "bit off n \<Longrightarrow> n < 16" for n by (subst (asm) off [symmetric]) (simp add: bit_take_bit_iff)
  then have shift: "drop_bit 48 (push_bit 48 off) = off" by (intro bit_word_eqI) (fastforce simp: bit_simps)
  have "xsk_umem__extract_addr (a OR push_bit 48 off) = a"
    using a by (simp add: xsk_umem__extract_addr_def addr_mask bit.conj_disj_distrib2 take_bit_push_bit flip: take_bit_eq_mask)
  moreover have "xsk_umem__extract_offset (a OR push_bit 48 off) = off"
    by (simp add: xsk_umem__extract_offset_def XSK_UNALIGNED_BUF_OFFSET_SHIFT_def drop_bit_or hi shift)
  ultimately show ?thesis by (simp add: xsk_umem__add_offset_to_addr_def)
qed

end
