(* ===== verification/Spec2Isabelle.thy ===== *)
theory Spec2Isabelle
  imports Lb_Theorems Udp_Dropper Strset Nlattr Btf_Writer Ringbuf_Delivery Ringbuf_Mapping
    Relo_Bitfield Relo_Safety Relo_Data Prog_Linfo Xsk_Ring
begin

text \<open>
  Verification of an eBPF load balancer and of the library it is built on.

  The repository holds two assignments. In \<open>A2-B/load-balancer\<close> an XDP program, \<open>lb.c\<close>, spreads UDP
  requests over up to three servers with five threads each and queues what no server can take; in
  \<open>A2-A/server\<close> another, \<open>xdp_dropper.c\<close>, drops even requests. Both are compiled against and loaded
  with libbpf, of which each directory holds a copy; the copies are the same, and the lines the model
  refers to are those of \<open>A2-A/server/libbpf\<close>. Clients and servers are Python scripts around sockets.

  \<^bold>\<open>How the code is modelled.\<close> Functions of C are functions of HOL with the state they change passed
  along; a structure is a record, a block of memory a list of bytes and a pointer into it an offset,
  integers are words of their width. \<open>None\<close> is an access outside a block, so a theorem that a function
  returns \<open>Some\<close> says it stays in bounds; the errors of the code are values (negative \<open>int\<close>s, or the
  left side of a sum). Byte order is that of the little-endian host. \<open>Mem_Prelude\<close> and \<open>Errno\<close> hold what
  all share. Whether an allocation succeeds is an argument. \<open>errno\<close>, warnings and traces are left out.

  \<^bold>\<open>The load balancer.\<close> \<open>Bpf_Endian\<close> has the byte-order macros of \<open>bpf_endian.h\<close>, \<open>Bpf_Kernel\<close> the
  contracts of the map helpers and of \<open>bpf_xdp_adjust_tail\<close> as locales, with interpretations on
  reference maps; \<open>Xdp_Packet\<close> the fields of a packet; \<open>Load_Balancer\<close> the program: the record \<open>lb_state\<close>
  is its four maps, \<open>get_available_backend\<close>, \<open>enqueue\<close>, \<open>dequeue\<close>, \<open>send_to_backend\<close> and the two
  checksums carry their names, and the body of \<open>load_balancer\<close> is cut at its branches into
  \<open>backend_packet\<close> (with \<open>server_key_of\<close>, \<open>register_server\<close>, \<open>job_complete\<close>, \<open>serve_queue\<close>) and
  \<open>client_packet\<close>. \<open>lb_run\<close> handles packets one after the other. \<open>Checksum\<close> compares the loops with
  ones'-complement sums; \<open>Lb_Forward\<close>, \<open>Lb_Registry\<close>, \<open>Lb_Safety\<close> and \<open>Lb_Correct\<close> hold the lemmas on
  forwarding, on who is who, on bounds and the shape of the maps, and on each case of a packet.
  \<open>Lb_Scheduler\<close> is the abstract specification, a scheduler without packets or keys; \<open>Lb_Theorems\<close> has
  the properties, among them that requests and completions refine the scheduler's steps, and the
  flaws: a wrapped counter, a lost request, a checksum without carries, a registration that leaves
  the queue alone.

  \<^bold>\<open>Hash map and string set.\<close> \<open>Keyed_Store\<close> is the interface of a store of values under keys;
  \<open>Hashmap\<close> models \<open>hashmap.h\<close> and \<open>hashmap.c\<close> (chains are lists, buckets a list of chains) and
  interprets the interface, so any sequence of operations equals one on a function. \<open>Libbpf_Mem\<close> has
  the growing arrays of \<open>btf.c\<close>, \<open>Strset\<close> the set of strings of \<open>strset.c\<close> on top of both: a map from
  strings to offsets in a region.

  \<^bold>\<open>Netlink attributes.\<close> \<open>Nlattr\<close> models \<open>nlattr.h\<close> and \<open>nlattr.c\<close>: adding attributes and taking them
  apart, with the round trip, and where parsing leaves its buffer.

  \<^bold>\<open>BTF.\<close> \<open>Btf_Types\<close> has the layout of types, from \<open>uapi/linux/btf.h\<close> and \<open>btf.h\<close>; \<open>Btf\<close> the object
  \<open>struct btf\<close> and the functions of \<open>btf.c\<close> that load it and answer queries, an object with its base
  being a list; \<open>Btf_Parse\<close> proves loading safe (\<open>btf_ok\<close>), \<open>Btf_Query\<close> names, sizes, resolution and
  alignment. \<open>Btf_Write\<close> models the functions that build BTF; what those that append a type share is
  \<open>append_type\<close>, an element \<open>append_element\<close>. \<open>Btf_Build\<close> proves that each keeps the shape \<open>building\<close> and
  what it appends, \<open>Btf_Writer\<close> the properties over sequences of calls and on reading back.

  \<^bold>\<open>Ring buffer.\<close> \<open>Ringbuf\<close> models \<open>ringbuf.c\<close>; the producer in the kernel may act before every
  acquiring load, as an argument of the loops. \<open>Ringbuf_Delivery\<close> proves that every record is delivered
  once against any producer with the documented behaviour (\<open>producer_ok\<close>), \<open>Ringbuf_Mapping\<close> that what
  is mapped is unmapped.

  \<^bold>\<open>CO-RE relocation.\<close> \<open>Core_Types\<close> has what \<open>libbpf.c\<close> says about types for it: the type behind
  modifiers, names without flavor, compatibility and the search for candidates. \<open>Relo_Core\<close> models the
  first half of \<open>relo_core.c\<close>: access strings, specs (records with lists for the arrays) and their
  matching; \<open>Relo_Insn\<close> the second half: the values of a relocation, the instruction as a record, its
  patching by class, and \<open>bpf_core_apply_relo\<close> with its cache of candidates as a map. \<open>Relo_Match\<close>
  proves that specs stay inside arrays of 64 entries and that the search for a member nests at most 65
  deep, \<open>Relo_Bitfield\<close> that the values for a bit field extract it, \<open>Relo_Safety\<close> that an instruction
  only ever gets the value on which all matching candidates agree. \<open>Btf_Ext\<close> models the \<open>.BTF.ext\<close>
  section in \<open>btf.c\<close>, whose tables are checked when it is loaded (\<open>table_ok\<close>), and \<open>Relo_Object\<close>
  \<open>bpf_object__relocate_core\<close> of \<open>libbpf.c\<close>, which takes the relocations from there and looks up the
  program of each; it proves that nothing else is touched.

  \<^bold>\<open>Linking of subprograms.\<close> \<open>Relo_Code\<close> models \<open>bpf_object__reloc_code\<close> of \<open>libbpf.c\<close> with what it calls:
  the state is the list of the object's programs, \<open>m\<close> the place of the main program. \<open>Relo_Info\<close> proves
  that records on functions and lines are copied in bounds, \<open>Relo_Link\<close> the invariant \<open>linking\<close> of the
  recursion, \<open>Relo_Linked\<close> what results: the code of the programs that are \<open>needed\<close>, one after the
  other (\<open>linked_code\<close>), with calls that lead where they did. \<open>Relo_Data\<close> models the references to data and
  \<open>bpf_object__relocate\<close>, all the steps in turn, and shows that linking one main program leaves the others
  as they were to be linked.

  \<^bold>\<open>Line information.\<close> \<open>Prog_Linfo\<close> models \<open>bpf_prog_linfo.c\<close>: the tables of the kernel are copied
  and cut into functions (\<open>all_cut\<close>), and a search stays in its function.

  \<^bold>\<open>AF_XDP rings.\<close> \<open>Xsk_Ring\<close> models the inline functions of \<open>xsk.h\<close>: a private \<open>xsk_ring\<close> for each end
  and the shared indices and entries. \<open>queue_step\<close> is the queue a ring promises, and \<open>Simulation\<close> the
  interface through which the promise for single calls gives that for any interleaving.

  \<^bold>\<open>Bounds and fuel.\<close> Loops that the code does not bound take fuel and give \<open>None\<close> without it, and
  the theorems prove that some fuel is enough: the depth 32 of the code itself for
  \<open>btf__resolve_size\<close> and \<open>btf__resolve_type\<close>; the length of the data for the indexing loop of
  \<open>strset__new\<close>; the number of bytes for parsing attributes and types; one more than the records the
  producer still reserves for a ring; the number of programs for linking. \<open>btf__align_of\<close> has no such bound: a cycle of types runs it out of
  any fuel, and its theorem is on the value, when there is one. \<open>bpf_core_types_are_compat\<close> starts anew
  with depth 32 for every parameter of a function and so has fuel, too; \<open>skip_mods_and_typedefs\<close> and
  \<open>bpf_core_fields_are_compat\<close> do not end on a cycle of types, where their value is \<open>None\<close>.

  \<^bold>\<open>Not modelled.\<close> The interleaving of CPUs in the XDP programs (packets are handled one at a time);
  the kernel behind the helpers, which is a parameter with contracts. Of libbpf: what is system calls
  and files around the parts above (\<open>bpf.c\<close>, \<open>netlink.c\<close>, the sockets of \<open>xsk.c\<close>, \<open>libbpf_probes.c\<close>), what
  in \<open>libbpf.c\<close> opens and loads objects, the text that \<open>bpf_core_dump_spec\<close> prints, the linker and the skeleton generator, the dumper
  \<open>btf_dump.c\<close>, deduplication in \<open>btf.c\<close>. Generated headers (\<open>bpf_helper_defs.h\<close>,
  \<open>vmlinux.h\<close>) hold declarations only.
\<close>

end
